(* ===== verification/Prelude.thy ===== *)
theory Prelude
  imports Main "HOL-Library.Word" "HOL-Library.Signed_Division"
begin

text \<open>
  What every component shares: the C machine integers of the programs (the platform is the
  i686 of \<open>preproj2/uname_output.txt\<close>, so \<open>int\<close> and \<open>long\<close> have 32 bits and wrap as
  two's complement in the compiled code), the fact collections of the development, and the
  generic lemmas on lists, options and function updates that the component proofs use.
\<close>

section \<open>Fact collections\<close>

named_theorems wrap_simps \<open>equations that move the 32-bit wrap-around out of sums\<close>

section \<open>32-bit integers\<close>

definition INT_MAX :: int where "INT_MAX = 2 ^ 31 - 1"
definition INT_MIN :: int where "INT_MIN = - (2 ^ 31)"

definition in_int :: "int \<Rightarrow> bool" where
  "in_int x \<longleftrightarrow> INT_MIN \<le> x \<and> x \<le> INT_MAX"

definition wrap32 :: "int \<Rightarrow> int" where
  "wrap32 x = signed_take_bit 31 x"

lemma in_int_bounds: "in_int x \<longleftrightarrow> - 2147483648 \<le> x \<and> x \<le> 2147483647"
  by (simp add: in_int_def INT_MIN_def INT_MAX_def)

lemma in_int_INT_MAX: "in_int x \<Longrightarrow> x \<le> INT_MAX"
  by (simp add: in_int_def)

lemma wrap32_add_left [wrap_simps]: "wrap32 (wrap32 x + y) = wrap32 (x + y)"
  unfolding wrap32_def by (metis signed_take_bit_add signed_take_bit_signed_take_bit min.idem)

lemma wrap32_add_right [wrap_simps]: "wrap32 (x + wrap32 y) = wrap32 (x + y)"
  using wrap32_add_left [of y x] by (simp add: add.commute)

lemma wrap32_idem [simp]: "wrap32 (wrap32 x) = wrap32 x"
  by (simp add: wrap32_def)

lemma wrap32_id [simp]: "in_int x \<Longrightarrow> wrap32 x = x"
  by (simp add: wrap32_def in_int_bounds signed_take_bit_int_eq_self)

lemma in_int_wrap32 [simp]: "in_int (wrap32 x)"
  using signed_take_bit_int_less_exp [of 31 x] signed_take_bit_int_greater_eq_minus_exp [of 31 x]
  by (simp add: wrap32_def in_int_bounds)

lemma wrap32_0 [simp]: "wrap32 0 = 0"
  by (simp add: wrap32_def)

lemma int_div_mult_le: "0 < b \<Longrightarrow> (a::int) div b * b \<le> a"
  using minus_mod_eq_div_mult [of a b] pos_mod_sign [of b a] by linarith

section \<open>The kernel's error numbers\<close>

definition EPERM :: int where "EPERM = 1"
definition ESRCH :: int where "ESRCH = 3"
definition EAGAIN :: int where "EAGAIN = 11"
definition ENOMEM :: int where "ENOMEM = 12"
definition EACCES :: int where "EACCES = 13"
definition EFAULT :: int where "EFAULT = 14"
definition EINVAL :: int where "EINVAL = 22"

lemmas errnos = EPERM_def ESRCH_def EAGAIN_def ENOMEM_def EACCES_def EFAULT_def EINVAL_def

section \<open>Lists and updates\<close>

lemma sum_list_map_upd:
  fixes f :: "'a \<Rightarrow> int"
  assumes "i < length xs"
  shows "sum_list (map f (xs[i := x])) = sum_list (map f xs) - f (xs ! i) + f x"
  using assms by (induction xs arbitrary: i) (auto split: nat.split)

lemma sum_fun_upd:
  fixes g :: "nat \<Rightarrow> 'a \<Rightarrow> int"
  assumes "finite A" "j \<in> A"
  shows "(\<Sum>k\<in>A. g k ((f(j := p)) k)) = (\<Sum>k\<in>A. g k (f k)) - g j (f j) + g j p"
proof -
  have "(\<Sum>k\<in>A - {j}. g k ((f(j := p)) k)) = (\<Sum>k\<in>A - {j}. g k (f k))"
    by (rule sum.cong) auto
  then show ?thesis
    using sum.remove [OF assms, of "\<lambda>k. g k ((f(j := p)) k)"]
      sum.remove [OF assms, of "\<lambda>k. g k (f k)"] by simp
qed

end
