(* ===== verification/Calls.thy ===== *)
theory Calls
  imports Prelude
begin

text \<open>
  The contract the groups of system calls share. Each group is a function that runs one call on a
  state; a sequence of calls is a \<open>fold\<close> of it. When every call, made under its side condition,
  relates the state before to the state after by a preorder, so does every sequence; an invariant
  that every call keeps is the special case without a side condition.
\<close>

text \<open>Each call of a sequence is made in a state that allows it.\<close>

fun all_allowed :: "('c \<Rightarrow> 's \<Rightarrow> 's) \<Rightarrow> ('c \<Rightarrow> 's \<Rightarrow> bool) \<Rightarrow> 'c list \<Rightarrow> 's \<Rightarrow> bool" where
  "all_allowed run allowed [] s \<longleftrightarrow> True"
| "all_allowed run allowed (c # cs) s \<longleftrightarrow> allowed c s \<and> all_allowed run allowed cs (run c s)"

lemma all_allowed_static:
  "(\<And>c s. allowed c s \<longleftrightarrow> P c) \<Longrightarrow> all_allowed run allowed cs s \<longleftrightarrow> (\<forall>c\<in>set cs. P c)"
  by (induction cs arbitrary: s) auto

locale guarded_calls =
  fixes run :: "'c \<Rightarrow> 's \<Rightarrow> 's"
    and allowed :: "'c \<Rightarrow> 's \<Rightarrow> bool"
    and rel :: "'s \<Rightarrow> 's \<Rightarrow> bool"
  assumes rel_refl: "rel s s"
    and rel_trans: "rel s t \<Longrightarrow> rel t u \<Longrightarrow> rel s u"
    and rel_call: "allowed c s \<Longrightarrow> rel s (run c s)"
begin

lemma rel_calls: "all_allowed run allowed cs s \<Longrightarrow> rel s (fold run cs s)"
proof (induction cs arbitrary: s)
  case Nil
  then show ?case by (simp add: rel_refl)
next
  case (Cons c cs)
  then have "rel s (run c s)" "rel (run c s) (fold run cs (run c s))" by (simp_all add: rel_call)
  then show ?case using rel_trans by simp
qed

end

locale invariant_calls =
  fixes run :: "'c \<Rightarrow> 's \<Rightarrow> 's"
    and inv :: "'s \<Rightarrow> bool"
  assumes inv_call: "inv s \<Longrightarrow> inv (run c s)"

sublocale invariant_calls \<subseteq> kept: guarded_calls run "\<lambda>_ _. True" "\<lambda>s t. inv s \<longrightarrow> inv t"
  by unfold_locales (auto simp: inv_call)

context invariant_calls
begin

lemma inv_calls: "inv s \<Longrightarrow> inv (fold run cs s)"
  using kept.rel_calls [of cs s] all_allowed_static [of "\<lambda>_ _. True" "\<lambda>_. True" run cs s] by simp

end

end
