(* ===== verification/CString.thy ===== *)
theory CString
  imports Prelude
begin

text \<open>
  The C library calls on characters and strings that the programs use: the character classes
  of the "C" locale, \<open>atoi\<close>, \<open>strtok\<close>, and the cut of a \<open>std::string\<close> at its first NUL
  byte that \<open>c_str\<close> followed by a C string function makes. A string is a list of bytes;
  \<open>strtok\<close>'s hidden pointer into the string is passed explicitly. All of this is the C
  standard library, so nothing here is mapped to lines of the repository.
\<close>

definition byte :: "char \<Rightarrow> nat" where "byte c = of_char c"

text \<open>\<open>isspace\<close>, \<open>isprint\<close>, \<open>isdigit\<close> in the "C" locale; bytes from 128 on (negative as
  \<open>char\<close>) belong to no class.\<close>

definition isspace :: "char \<Rightarrow> bool" where
  "isspace c \<longleftrightarrow> byte c = 32 \<or> (9 \<le> byte c \<and> byte c \<le> 13)"

definition isprint :: "char \<Rightarrow> bool" where
  "isprint c \<longleftrightarrow> 32 \<le> byte c \<and> byte c \<le> 126"

definition isdigit :: "char \<Rightarrow> bool" where
  "isdigit c \<longleftrightarrow> 48 \<le> byte c \<and> byte c \<le> 57"

definition NUL :: char where "NUL = CHR 0x00"

definition c_str :: "string \<Rightarrow> string" where
  "c_str s = takeWhile (\<lambda>c. c \<noteq> NUL) s"

section \<open>atoi\<close>

definition digits_value :: "string \<Rightarrow> int" where
  "digits_value ds = foldl (\<lambda>v d. 10 * v + (int (byte d) - 48)) 0 ds"

definition clamp_int :: "int \<Rightarrow> int" where
  "clamp_int v = max INT_MIN (min INT_MAX v)"

text \<open>
  \<open>atoi\<close> is \<open>(int) strtol(s, NULL, 10)\<close>: leading white space, an optional sign, digits up
  to the first other character; out of range, \<open>strtol\<close> returns the nearest \<open>long\<close>.
\<close>

definition atoi :: "string \<Rightarrow> int" where
  "atoi s =
     (let t = dropWhile isspace (c_str s);
          u = (case t of c # cs \<Rightarrow> if c = CHR ''-'' \<or> c = CHR ''+'' then cs else t | [] \<Rightarrow> []);
          v = digits_value (takeWhile isdigit u)
      in clamp_int (if t \<noteq> [] \<and> hd t = CHR ''-'' then - v else v))"

lemma in_int_clamp [simp]: "in_int (clamp_int v)"
  by (auto simp: clamp_int_def in_int_def INT_MIN_def INT_MAX_def)

lemma in_int_atoi [simp]: "in_int (atoi s)"
  by (simp add: atoi_def Let_def)

section \<open>strtok\<close>

text \<open>
  One call: skip delimiters; \<open>None\<close> (NULL) at the end of the string, otherwise the token and
  the rest after the delimiter that ended it.
\<close>

definition strtok :: "string \<Rightarrow> string \<Rightarrow> (string \<times> string) option" where
  "strtok delim s =
     (let t = dropWhile (\<lambda>c. c \<in> set delim) s
      in if t = [] then None
         else Some (takeWhile (\<lambda>c. c \<notin> set delim) t, tl (dropWhile (\<lambda>c. c \<notin> set delim) t)))"

lemma length_tl_less: "xs \<noteq> [] \<Longrightarrow> length ys \<le> length xs \<Longrightarrow> length (tl ys) < length xs"
  by (cases ys) auto

lemma strtok_shorter:
  assumes "strtok delim s = Some (tok, rest)"
  shows "length rest < length s"
proof -
  let ?t = "dropWhile (\<lambda>c. c \<in> set delim) s"
  from assms have "?t \<noteq> []" "rest = tl (dropWhile (\<lambda>c. c \<notin> set delim) ?t)"
    by (simp_all add: strtok_def Let_def split: if_split_asm)
  then have "length rest < length ?t" using length_tl_less [OF _ length_dropWhile_le] by blast
  also have "\<dots> \<le> length s" by (rule length_dropWhile_le)
  finally show ?thesis .
qed

text \<open>All the tokens of a string: \<open>strtok\<close> until NULL.\<close>

function tokens :: "string \<Rightarrow> string \<Rightarrow> string list" where
  "tokens delim s = (case strtok delim s of None \<Rightarrow> [] | Some (tok, rest) \<Rightarrow> tok # tokens delim rest)"
  by pat_completeness auto
termination
  by (relation "measure (length \<circ> snd)") (auto dest: strtok_shorter)

declare tokens.simps [simp del]

lemma strtok_token:
  assumes "strtok delim s = Some (tok, rest)"
  shows "tok \<noteq> []" "set tok \<inter> set delim = {}"
  using assms hd_dropWhile [of "\<lambda>c. c \<in> set delim" s]
  by (auto simp: strtok_def Let_def takeWhile_eq_Nil_iff split: if_splits dest: set_takeWhileD)

lemma tokens_clean: "tok \<in> set (tokens delim s) \<Longrightarrow> tok \<noteq> [] \<and> set tok \<inter> set delim = {}"
proof (induction delim s rule: tokens.induct)
  case (1 delim s)
  show ?case
  proof (cases "strtok delim s")
    case None
    with "1.prems" show ?thesis by (simp add: tokens.simps [of delim s])
  next
    case (Some p)
    obtain t rest where p: "p = (t, rest)" by (cases p)
    with Some "1.prems" have "tok = t \<or> tok \<in> set (tokens delim rest)"
      by (simp add: tokens.simps [of delim s])
    then show ?thesis
    proof
      assume "tok = t" with strtok_token [of delim s t rest] Some p show ?thesis by simp
    next
      assume "tok \<in> set (tokens delim rest)"
      with "1.IH" [OF Some p [symmetric]] show ?thesis .
    qed
  qed
qed

lemma tokens_Nil_iff: "tokens delim s = [] \<longleftrightarrow> set s \<subseteq> set delim"
  by (subst tokens.simps) (auto simp: strtok_def Let_def split: option.splits)

end
