(* ===== verification/Shell.thy ===== *)
theory Shell
  imports Complex_Main CString "HOL-Library.Multiset"
begin

text \<open>
  The shell of \<open>project1\<close>: the parsing of a line into the five slots of \<open>argvNew\<close>, the built-in
  commands, the list of background jobs, and the main loop as a step relation over the shell and the
  table of its children. \<open>fork\<close>, \<open>wait\<close> and \<open>waitpid\<close> are as POSIX describes them: a child is running or
  has exited until it is waited for, \<open>wait\<close> takes any child that has exited, \<open>waitpid\<close> with WNOHANG
  the given one if it has. A child exits at any time, whether \<open>execvp\<close> succeeded or not.
\<close>

section \<open>Parsing\<close>

definition ARGV_SLOTS :: nat where "ARGV_SLOTS = 5"

text \<open>The slots written, in order; the last one is NULL. \<open>None\<close> is \<open>return 1\<close>.\<close>

definition shellLineSetup :: "string \<Rightarrow> string option list option" where
  "shellLineSetup inStr =
     (case tokens '' '' (c_str inStr) of
        [] \<Rightarrow> None
      | part # parts \<Rightarrow>
          let filePath = (if part = ''cd'' then part
                          else if part = ''jobs'' then part
                          else ''/bin/'' @ part)
          in Some (Some filePath # map Some parts @ [None]))"

text \<open>The loop over \<open>i = 1 .. argc - 2\<close> between the program and the final NULL.\<close>

definition commandLineSetup :: "string list \<Rightarrow> string option list" where
  "commandLineSetup argv =
     Some (argv ! 1) # map (\<lambda>i. Some (argv ! (i + 1))) [1..<length argv - 1] @ [None]"

text \<open>What the main loop does with a line: \<open>at\<close> throws on an empty one.\<close>

datatype command =
    Throws                                       \<comment> \<open>\<open>std::out_of_range\<close>\<close>
  | Overrun                                      \<comment> \<open>a write beyond \<open>argvNew\<close>\<close>
  | Ignored
  | Exit
  | Cd "string option"
  | Jobs
  | Run "string option list" bool string         \<comment> \<open>arguments, in the background, the line\<close>

definition read_line :: "string \<Rightarrow> command" where
  "read_line line =
     (if line = [] then Throws
      else
        let isBackground = (List.last line = CHR ''&'');
            inStr = (if isBackground then butlast line else line)
        in case shellLineSetup inStr of
             None \<Rightarrow> Ignored
           | Some argvNew \<Rightarrow>
               if length argvNew > ARGV_SLOTS then Overrun
               else if inStr = ''exit'' then Exit
               else if argvNew ! 0 = Some ''cd'' then Cd (argvNew ! 1)
               else if argvNew ! 0 = Some ''jobs'' then Jobs
               else Run argvNew isBackground inStr)"

section \<open>Statistics\<close>

text \<open>What is printed after a process, a \<open>double\<close> as a real number.\<close>

record timeval =
  tv_sec :: int
  tv_usec :: int

record rusage =
  ru_utime :: timeval
  ru_stime :: timeval
  ru_nivcsw :: int
  ru_nvcsw :: int
  ru_majflt :: int
  ru_minflt :: int

record stats =
  shown :: timeval     \<comment> \<open>the user time, in seconds and microseconds\<close>
  userTime :: real
  systemTime :: real
  wallClockTime :: real
  involuntary :: int
  voluntary :: int
  pagefaults :: int
  reclaims :: int

definition ms_of :: "timeval \<Rightarrow> real" where
  "ms_of tim = real_of_int (tv_sec tim) * 1000 + real_of_int (tv_usec tim) / 1000"

definition collectData :: "timeval \<Rightarrow> timeval \<Rightarrow> rusage \<Rightarrow> rusage \<Rightarrow> stats" where
  "collectData initialClockTime finalClockTime ruInitial ruFinal =
     \<lparr>shown = ru_utime ruFinal, userTime = ms_of (ru_utime ruFinal), systemTime = ms_of (ru_stime ruFinal),
      wallClockTime =
        real_of_int (tv_sec finalClockTime - tv_sec initialClockTime) * 1000 +
        real_of_int (tv_usec finalClockTime - tv_usec initialClockTime) / 1000,
      involuntary = ru_nivcsw ruFinal - ru_nivcsw ruInitial,
      voluntary = ru_nvcsw ruFinal - ru_nvcsw ruInitial,
      pagefaults = ru_majflt ruFinal - ru_majflt ruInitial,
      reclaims = ru_minflt ruFinal - ru_minflt ruInitial\<rparr>"

section \<open>The running shell\<close>

datatype kstat = Running | Exited

datatype out =
    Started nat int
  | Completed nat int string
  | Stats stats
  | Job nat int string
  | Cd_failed string

datatype after = After_fork int bool string | After_exit

datatype phase =
    Prompt
  | Fork "string option list" bool string
  | Sweep nat after      \<comment> \<open>in \<open>checkFinishedProcesses\<close>, with so many processes to check\<close>
  | Wait                 \<comment> \<open>before \<open>wait(0)\<close>\<close>
  | Exit_test            \<comment> \<open>the test of the loop of \<open>exit\<close>\<close>
  | Done                 \<comment> \<open>\<open>shellMode\<close> has returned 0\<close>
  | Fork_error           \<comment> \<open>\<open>exit(1)\<close>\<close>
  | Thrown
  | Overrun_argv

record shell =
  processes :: "(int \<times> string) list"
  kids :: "int \<Rightarrow> kstat option"
  phase :: phase
  cwd :: string
  outs :: "out list"

definition shell_init :: "string \<Rightarrow> shell" where
  "shell_init dir = \<lparr>processes = [], kids = (\<lambda>_. None), phase = Prompt, cwd = dir, outs = []\<rparr>"

definition say :: "out list \<Rightarrow> shell \<Rightarrow> shell" where
  "say os s = s\<lparr>outs := outs s @ os\<rparr>"

text \<open>\<open>chd\<close> is \<open>chdir\<close>, from the working directory: the new one or failure. \<open>home\<close> is \<open>getenv("HOME")\<close>; where it
  is not set, the call is \<open>chdir(NULL)\<close>, which fails, and the answer is not looked at.\<close>

definition change_dir :: "(string \<Rightarrow> string \<Rightarrow> string option) \<Rightarrow> string option \<Rightarrow> string option \<Rightarrow> shell \<Rightarrow> shell" where
  "change_dir chd home directory s =
     (case directory of
        Some d \<Rightarrow> (case chd (cwd s) d of
                     None \<Rightarrow> say [Cd_failed d] s
                   | Some dir \<Rightarrow> s\<lparr>cwd := dir\<rparr>)
      | None \<Rightarrow>
          (case home of
             None \<Rightarrow> s
           | Some h \<Rightarrow> (case chd (cwd s) h of None \<Rightarrow> s | Some dir \<Rightarrow> s\<lparr>cwd := dir\<rparr>)))"

definition printJobs :: "shell \<Rightarrow> shell" where
  "printJobs s =
     say (map (\<lambda>i. Job (i + 1) (fst (processes s ! i)) (snd (processes s ! i)))
       [0..<length (processes s)]) s"

definition obey :: "(string \<Rightarrow> string \<Rightarrow> string option) \<Rightarrow> string option \<Rightarrow> command \<Rightarrow> shell \<Rightarrow> shell" where
  "obey chd home c s =
     (case c of
        Throws \<Rightarrow> s\<lparr>phase := Thrown\<rparr>
      | Overrun \<Rightarrow> s\<lparr>phase := Overrun_argv\<rparr>
      | Ignored \<Rightarrow> s
      | Exit \<Rightarrow> s\<lparr>phase := Exit_test\<rparr>
      | Cd directory \<Rightarrow> change_dir chd home directory s
      | Jobs \<Rightarrow> printJobs s
      | Run argvNew bg inStr \<Rightarrow> s\<lparr>phase := Fork argvNew bg inStr\<rparr>)"

text \<open>\<open>waitpid(pid, &status, WNOHANG)\<close>: whether it returns \<open>pid\<close>, and the children afterwards.\<close>

definition waitpid_nohang :: "int \<Rightarrow> (int \<Rightarrow> kstat option) \<Rightarrow> bool \<times> (int \<Rightarrow> kstat option)" where
  "waitpid_nohang pid K = (if K pid = Some Exited then (True, K(pid := None)) else (False, K))"

text \<open>The body of the loop of \<open>checkFinishedProcesses\<close> for index \<open>i\<close>.\<close>

definition check_process :: "stats \<Rightarrow> nat \<Rightarrow> shell \<Rightarrow> shell" where
  "check_process st i s =
     (let (pid, name) = processes s ! i;
          (finished, K) = waitpid_nohang pid (kids s)
      in if finished
         then say [Completed (i + 1) pid name, Stats st]
                (s\<lparr>kids := K, processes := take i (processes s) @ drop (i + 1) (processes s)\<rparr>)
         else s\<lparr>kids := K\<rparr>)"

inductive shell_step :: "(string \<Rightarrow> string \<Rightarrow> string option) \<Rightarrow> string option \<Rightarrow> shell \<Rightarrow> shell \<Rightarrow> bool"
  for chd :: "string \<Rightarrow> string \<Rightarrow> string option" and home :: "string option" where
  line: "phase s = Prompt \<Longrightarrow> shell_step chd home s (obey chd home (read_line line) s)"
| fork_fails: "phase s = Fork argvNew bg inStr \<Longrightarrow> shell_step chd home s (s\<lparr>phase := Fork_error\<rparr>)"
| forks: "phase s = Fork argvNew bg inStr \<Longrightarrow> 0 < p \<Longrightarrow> kids s p = None \<Longrightarrow>
     shell_step chd home s
       (s\<lparr>kids := (kids s)(p \<mapsto> Running),
          phase := Sweep (length (processes s)) (After_fork p bg inStr)\<rparr>)"
| sweeps: "phase s = Sweep (Suc i) after \<Longrightarrow>
     shell_step chd home s
       ((check_process (collectData t0 t1 r0 r1) i s)\<lparr>phase := Sweep i after\<rparr>)"
| background: "phase s = Sweep 0 (After_fork p True inStr) \<Longrightarrow>
     shell_step chd home s
       (say [Started (length (processes s) + 1) p]
          (s\<lparr>processes := processes s @ [(p, inStr)], phase := Prompt\<rparr>))"
| foreground: "phase s = Sweep 0 (After_fork p False inStr) \<Longrightarrow>
     shell_step chd home s (s\<lparr>phase := Wait\<rparr>)"
| waits: "phase s = Wait \<Longrightarrow> kids s p = Some Exited \<Longrightarrow>
     shell_step chd home s
       (say [Stats (collectData t0 t1 r0 r1)] (s\<lparr>kids := (kids s)(p := None), phase := Prompt\<rparr>))"
| waits_none: "phase s = Wait \<Longrightarrow> \<forall>p. kids s p = None \<Longrightarrow>
     shell_step chd home s (say [Stats (collectData t0 t1 r0 r1)] (s\<lparr>phase := Prompt\<rparr>))"
| exit_returns: "phase s = Exit_test \<Longrightarrow> processes s = [] \<Longrightarrow> shell_step chd home s (s\<lparr>phase := Done\<rparr>)"
| exit_checks: "phase s = Exit_test \<Longrightarrow> processes s \<noteq> [] \<Longrightarrow>
     shell_step chd home s (s\<lparr>phase := Sweep (length (processes s)) After_exit\<rparr>)"
| swept: "phase s = Sweep 0 After_exit \<Longrightarrow> shell_step chd home s (s\<lparr>phase := Exit_test\<rparr>)"
| child_exits: "kids s p = Some Running \<Longrightarrow>
     shell_step chd home s (s\<lparr>kids := (kids s)(p \<mapsto> Exited)\<rparr>)"

text \<open>
  The program with arguments: the value returned, what the child gives to \<open>execvp\<close> (\<open>None\<close> for a
  write beyond its \<open>argvNew\<close>), and what the parent reports after its \<open>wait\<close>. \<open>main\<close> takes the shell
  without arguments; here \<open>None\<close>.
\<close>

definition commandExecution ::
  "bool \<Rightarrow> string list \<Rightarrow> timeval \<Rightarrow> timeval \<Rightarrow> rusage \<Rightarrow> rusage \<Rightarrow>
     int \<times> string option list option \<times> stats option" where
  "commandExecution fork_ok argv t0 t1 r0 r1 =
     (if \<not> fork_ok then (1, None, None)
      else (0, if length (commandLineSetup argv) > ARGV_SLOTS then None else Some (commandLineSetup argv),
            Some (collectData t0 t1 r0 r1)))"

definition doit_main ::
  "bool \<Rightarrow> string list \<Rightarrow> timeval \<Rightarrow> timeval \<Rightarrow> rusage \<Rightarrow> rusage \<Rightarrow>
     (int \<times> string option list option \<times> stats option) option" where
  "doit_main fork_ok argv t0 t1 r0 r1 =
     (if length argv = 1 then None else Some (commandExecution fork_ok argv t0 t1 r0 r1))"

section \<open>The accounts\<close>

fun started :: "out \<Rightarrow> int list" where
  "started (Started n p) = [p]"
| "started _ = []"

fun completed :: "out \<Rightarrow> int list" where
  "completed (Completed n p name) = [p]"
| "completed _ = []"

definition started_pids :: "shell \<Rightarrow> int multiset" where
  "started_pids s = mset (concat (map started (outs s)))"

definition completed_pids :: "shell \<Rightarrow> int multiset" where
  "completed_pids s = mset (concat (map completed (outs s)))"

definition job_pids :: "shell \<Rightarrow> int multiset" where
  "job_pids s = mset (map fst (processes s))"

fun sweep_left :: "phase \<Rightarrow> nat" where
  "sweep_left (Sweep i a) = i"
| "sweep_left _ = 0"

definition shell_inv :: "shell \<Rightarrow> bool" where
  "shell_inv s \<longleftrightarrow> sweep_left (phase s) \<le> length (processes s) \<and>
     started_pids s = job_pids s + completed_pids s \<and>
     (phase s = Done \<longrightarrow> processes s = [])"

lemma say_fields [simp]:
  "processes (say os s) = processes s" "kids (say os s) = kids s" "phase (say os s) = phase s"
  "cwd (say os s) = cwd s" "outs (say os s) = outs s @ os"
  by (simp_all add: say_def)

lemma pids_say [simp]:
  "started_pids (say os s) = started_pids s + mset (concat (map started os))"
  "completed_pids (say os s) = completed_pids s + mset (concat (map completed os))"
  "job_pids (say os s) = job_pids s"
  by (simp_all add: started_pids_def completed_pids_def job_pids_def)

lemma pids_update [simp]:
  "started_pids (s\<lparr>phase := ph\<rparr>) = started_pids s" "completed_pids (s\<lparr>phase := ph\<rparr>) = completed_pids s"
  "job_pids (s\<lparr>phase := ph\<rparr>) = job_pids s"
  "started_pids (s\<lparr>kids := K\<rparr>) = started_pids s" "completed_pids (s\<lparr>kids := K\<rparr>) = completed_pids s"
  "job_pids (s\<lparr>kids := K\<rparr>) = job_pids s"
  "started_pids (s\<lparr>cwd := d\<rparr>) = started_pids s" "completed_pids (s\<lparr>cwd := d\<rparr>) = completed_pids s"
  "job_pids (s\<lparr>cwd := d\<rparr>) = job_pids s"
  "started_pids (s\<lparr>processes := ps\<rparr>) = started_pids s"
  "completed_pids (s\<lparr>processes := ps\<rparr>) = completed_pids s"
  "job_pids (s\<lparr>processes := ps\<rparr>) = mset (map fst ps)"
  by (simp_all add: started_pids_def completed_pids_def job_pids_def)

lemma no_job_events [simp]:
  "concat (map started (map (\<lambda>i. Job (f i) (g i) (h i)) is)) = []"
  "concat (map completed (map (\<lambda>i. Job (f i) (g i) (h i)) is)) = []"
  by (induction "is") simp_all

lemma change_dir_keeps [simp]:
  "phase (change_dir chd home d s) = phase s" "processes (change_dir chd home d s) = processes s"
  "kids (change_dir chd home d s) = kids s"
  "started_pids (change_dir chd home d s) = started_pids s"
  "completed_pids (change_dir chd home d s) = completed_pids s"
  by (simp_all add: change_dir_def split: option.split)

lemma printJobs_keeps [simp]:
  "phase (printJobs s) = phase s" "processes (printJobs s) = processes s" "kids (printJobs s) = kids s"
  "started_pids (printJobs s) = started_pids s" "completed_pids (printJobs s) = completed_pids s"
  by (simp_all add: printJobs_def)

lemma obey_keeps:
  "processes (obey chd home c s) = processes s" "kids (obey chd home c s) = kids s"
  "started_pids (obey chd home c s) = started_pids s"
  "completed_pids (obey chd home c s) = completed_pids s"
  by (simp_all add: obey_def split: command.split)

lemma obey_phase:
  "phase s = Prompt \<Longrightarrow> sweep_left (phase (obey chd home c s)) = 0 \<and> phase (obey chd home c s) \<noteq> Done"
  by (simp add: obey_def split: command.split)

lemma check_process_cases:
  assumes "i < length (processes s)"
  obtains (finished) p name where "processes s ! i = (p, name)" "kids s p = Some Exited"
      "check_process st i s = say [Completed (i + 1) p name, Stats st]
         (s\<lparr>kids := (kids s)(p := None), processes := take i (processes s) @ drop (i + 1) (processes s)\<rparr>)"
    | (not_finished) p name where "processes s ! i = (p, name)" "kids s p \<noteq> Some Exited"
      "check_process st i s = s"
proof -
  obtain p name where p: "processes s ! i = (p, name)" by (cases "processes s ! i")
  show thesis
  proof (cases "kids s p = Some Exited")
    case True
    then show thesis using p by (intro finished [OF p]) (simp_all add: check_process_def waitpid_nohang_def)
  next
    case False
    then show thesis using p by (intro not_finished [OF p]) (simp_all add: check_process_def waitpid_nohang_def)
  qed
qed

lemma mset_remove_nth:
  assumes "i < length xs"
  shows "mset xs = mset (take i xs @ drop (i + 1) xs) + {#xs ! i#}"
proof -
  have "xs = take i xs @ xs ! i # drop (Suc i) xs" using assms by (rule id_take_nth_drop)
  then have "mset xs = mset (take i xs @ xs ! i # drop (Suc i) xs)" by (rule arg_cong)
  then show ?thesis by simp
qed

lemma shell_inv_init: "shell_inv (shell_init dir)"
  by (simp add: shell_inv_def shell_init_def started_pids_def completed_pids_def job_pids_def)

lemma shell_inv_step:
  assumes "shell_step chd home s t" "shell_inv s"
  shows "shell_inv t"
  using assms
proof (induction rule: shell_step.induct)
  case (line s ln)
  then show ?case
    using obey_phase [of s chd home "read_line ln"]
    by (auto simp: shell_inv_def obey_keeps job_pids_def)
next
  case (sweeps s i after t0 t1 r0 r1)
  then have i: "i < length (processes s)" by (simp add: shell_inv_def)
  show ?case
  proof (rule check_process_cases [OF i, of "collectData t0 t1 r0 r1"])
    fix p name
    assume p: "processes s ! i = (p, name)" "check_process (collectData t0 t1 r0 r1) i s =
        say [Completed (i + 1) p name, Stats (collectData t0 t1 r0 r1)]
         (s\<lparr>kids := (kids s)(p := None), processes := take i (processes s) @ drop (i + 1) (processes s)\<rparr>)"
    have "job_pids s = mset (map fst (take i (processes s) @ drop (i + 1) (processes s))) + {#p#}"
      using arg_cong [OF mset_remove_nth [OF i], of "image_mset fst"] p(1)
      by (simp add: job_pids_def)
    then show ?thesis using sweeps.prems i unfolding p(2) shell_inv_def by (auto simp: min_def)
  next
    fix p name assume "check_process (collectData t0 t1 r0 r1) i s = s"
    then show ?thesis using sweeps.prems i by (simp add: shell_inv_def)
  qed
next
  case (background s p inStr)
  then show ?case by (simp add: shell_inv_def job_pids_def)
qed (auto simp: shell_inv_def)

lemma shell_inv_reach:
  "(shell_step chd home)\<^sup>*\<^sup>* (shell_init dir) s \<Longrightarrow> shell_inv s"
  by (induction rule: rtranclp_induct) (auto intro: shell_inv_init shell_inv_step)

section \<open>The loop of exit\<close>

text \<open>In that loop, with a job in the list that \<open>wait\<close> has already taken.\<close>

definition in_exit_loop :: "shell \<Rightarrow> bool" where
  "in_exit_loop s \<longleftrightarrow> phase s = Exit_test \<or> (\<exists>i. phase s = Sweep i After_exit)"

definition lost_job :: "shell \<Rightarrow> bool" where
  "lost_job s \<longleftrightarrow> (\<exists>(p, name)\<in>set (processes s). kids s p = None)"

lemma lost_jobI: "(p, name) \<in> set (processes s) \<Longrightarrow> kids s p = None \<Longrightarrow> lost_job s"
  unfolding lost_job_def by blast

lemma remove_other:
  assumes "x \<in> set xs" "i < length xs" "xs ! i \<noteq> x"
  shows "x \<in> set (take i xs @ drop (i + 1) xs)"
proof -
  have "set xs = set (take i xs @ xs ! i # drop (Suc i) xs)"
    using id_take_nth_drop [OF assms(2)] by simp
  then show ?thesis using assms(1,3) by auto
qed

lemma lost_job_step:
  assumes "shell_step chd home s t" "in_exit_loop s" "lost_job s" "shell_inv s"
  shows "in_exit_loop t \<and> lost_job t"
  using assms
proof (induction rule: shell_step.induct)
  case (sweeps s i after t0 t1 r0 r1)
  then have i: "i < length (processes s)" and a: "after = After_exit"
    by (simp_all add: shell_inv_def in_exit_loop_def)
  obtain q qn where q: "(q, qn) \<in> set (processes s)" "kids s q = None"
    using sweeps.prems(2) by (auto simp: lost_job_def)
  have "lost_job (check_process (collectData t0 t1 r0 r1) i s)"
  proof (rule check_process_cases [OF i, of "collectData t0 t1 r0 r1"])
    fix p name
    assume p: "processes s ! i = (p, name)" "kids s p = Some Exited"
      "check_process (collectData t0 t1 r0 r1) i s =
        say [Completed (i + 1) p name, Stats (collectData t0 t1 r0 r1)]
         (s\<lparr>kids := (kids s)(p := None), processes := take i (processes s) @ drop (i + 1) (processes s)\<rparr>)"
    have "processes s ! i \<noteq> (q, qn)" using p(1,2) q(2) by auto
    from remove_other [OF q(1) i this] show ?thesis
      by (intro lost_jobI [of q qn]) (use q(2) p(3) in simp_all)
  next
    fix p name assume "check_process (collectData t0 t1 r0 r1) i s = s"
    then show ?thesis using sweeps.prems(2) by simp
  qed
  then show ?case using a by (simp add: in_exit_loop_def lost_job_def)
next
  case (child_exits s p)
  obtain q qn where q: "(q, qn) \<in> set (processes s)" "kids s q = None"
    using child_exits.prems(2) by (auto simp: lost_job_def)
  moreover have "q \<noteq> p" using q(2) child_exits.hyps by auto
  ultimately have "lost_job (s\<lparr>kids := (kids s)(p \<mapsto> Exited)\<rparr>)" by (intro lost_jobI [of q qn]) simp_all
  then show ?case using child_exits.prems(1) by (simp add: in_exit_loop_def)
next
  case (exit_returns s)
  then show ?case by (simp add: lost_job_def)
qed (auto simp: in_exit_loop_def lost_job_def)

lemma exit_loop_steps:
  assumes "in_exit_loop s" "lost_job s"
  shows "\<exists>t. shell_step chd home s t"
proof -
  from assms(1) consider "phase s = Exit_test" | "phase s = Sweep 0 After_exit"
    | i where "phase s = Sweep (Suc i) After_exit"
    unfolding in_exit_loop_def by (metis not0_implies_Suc)
  then show ?thesis
  proof cases
    case 1
    moreover have "processes s \<noteq> []" using assms(2) by (auto simp: lost_job_def)
    ultimately show ?thesis using exit_checks by blast
  next
    case 2
    then show ?thesis using swept by blast
  next
    case 3
    then show ?thesis using sweeps by blast
  qed
qed

lemma lost_job_reach:
  assumes "(shell_step chd home)\<^sup>*\<^sup>* s t" "in_exit_loop s" "lost_job s" "shell_inv s"
  shows "in_exit_loop t \<and> lost_job t \<and> shell_inv t"
  using assms(1)
proof (induction rule: rtranclp_induct)
  case base
  then show ?case using assms by blast
next
  case (step t u)
  then show ?case using lost_job_step shell_inv_step by blast
qed

text \<open>One pass over jobs that have all exited empties the list.\<close>

lemma sweep_all:
  assumes "phase s = Sweep (length (processes s)) After_exit" "distinct (map fst (processes s))"
    and "\<forall>(p, name)\<in>set (processes s). kids s p = Some Exited"
  shows "\<exists>t. (shell_step chd home)\<^sup>*\<^sup>* s t \<and> phase t = Sweep 0 After_exit \<and> processes t = [] \<and>
    completed_pids t = completed_pids s + job_pids s"
  using assms
proof (induction "length (processes s)" arbitrary: s)
  case 0
  then have "phase s = Sweep 0 After_exit \<and> processes s = [] \<and>
      completed_pids s = completed_pids s + job_pids s" by (simp add: job_pids_def)
  then show ?case by blast
next
  case (Suc i)
  have i: "i < length (processes s)" using Suc.hyps(2) by simp
  obtain ps p name where ps: "processes s = ps @ [(p, name)]"
    using Suc.hyps(2) by (metis length_Suc_conv_rev surj_pair)
  then have li: "length ps = i" using Suc.hyps(2) by simp
  have at: "processes s ! i = (p, name)"
    using nth_append_length [of ps "(p, name)" "[]"] unfolding ps li [symmetric] .
  define st where "st = collectData \<lparr>tv_sec = 0, tv_usec = 0\<rparr> \<lparr>tv_sec = 0, tv_usec = 0\<rparr>
    \<lparr>ru_utime = \<lparr>tv_sec = 0, tv_usec = 0\<rparr>, ru_stime = \<lparr>tv_sec = 0, tv_usec = 0\<rparr>, ru_nivcsw = 0,
     ru_nvcsw = 0, ru_majflt = 0, ru_minflt = 0\<rparr>
    \<lparr>ru_utime = \<lparr>tv_sec = 0, tv_usec = 0\<rparr>, ru_stime = \<lparr>tv_sec = 0, tv_usec = 0\<rparr>, ru_nivcsw = 0,
     ru_nvcsw = 0, ru_majflt = 0, ru_minflt = 0\<rparr>"
  define s' where "s' = (check_process st i s)\<lparr>phase := Sweep i After_exit\<rparr>"
  have k: "kids s p = Some Exited" using Suc.prems(3) ps by auto
  have c: "check_process st i s = say [Completed (i + 1) p name, Stats st]
      (s\<lparr>kids := (kids s)(p := None), processes := ps\<rparr>)"
    using at k ps li by (simp add: check_process_def waitpid_nohang_def)
  have step: "shell_step chd home s s'"
    unfolding s'_def st_def by (rule sweeps) (use Suc.prems(1) Suc.hyps(2) in simp)
  have "\<exists>t. (shell_step chd home)\<^sup>*\<^sup>* s' t \<and> phase t = Sweep 0 After_exit \<and> processes t = [] \<and>
    completed_pids t = completed_pids s' + job_pids s'"
  proof (rule Suc.hyps(1))
    show "i = length (processes s')" by (simp add: s'_def c li)
    show "phase s' = Sweep (length (processes s')) After_exit" by (simp add: s'_def c li)
    show "distinct (map fst (processes s'))" using Suc.prems(2) ps by (simp add: s'_def c)
    show "\<forall>(q, qn)\<in>set (processes s'). kids s' q = Some Exited"
      using Suc.prems(2,3) ps by (force simp: s'_def c)
  qed
  then obtain t where t: "(shell_step chd home)\<^sup>*\<^sup>* s' t" "phase t = Sweep 0 After_exit" "processes t = []"
    "completed_pids t = completed_pids s' + job_pids s'" by blast
  have "completed_pids s' + job_pids s' = completed_pids s + job_pids s"
    by (simp add: s'_def c job_pids_def ps)
  then show ?case using t converse_rtranclp_into_rtranclp [of "shell_step chd home", OF step t(1)] by metis
qed

section \<open>Properties\<close>

text \<open>
  C14. The shell accounts for its background jobs: in every state it can reach, the jobs announced
  when they were started are those in its list together with those reported as completed, each as
  often; and when \<open>exit\<close> has returned, every job started has been reported as completed.
\<close>

theorem background_jobs_accounted:
  assumes "(shell_step chd home)\<^sup>*\<^sup>* (shell_init dir) s"
  shows "started_pids s = job_pids s + completed_pids s \<and>
    (phase s = Done \<longrightarrow> completed_pids s = started_pids s)"
  using shell_inv_reach [OF assms] by (auto simp: shell_inv_def job_pids_def)

text \<open>
  C15. A job that \<open>wait(0)\<close> has taken makes \<open>exit\<close> wait for ever: when the loop of \<open>exit\<close> is entered with
  a job in the list that is no child any more, whatever happens the loop goes on and never returns.
  The witness shows that this happens: a background job that ends while a foreground command runs.
\<close>

theorem lost_job_hangs_exit:
  assumes "(shell_step chd home)\<^sup>*\<^sup>* (shell_init dir) s" "phase s = Exit_test" "lost_job s"
    and "(shell_step chd home)\<^sup>*\<^sup>* s t"
  shows "phase t \<noteq> Done \<and> lost_job t \<and> (\<exists>u. shell_step chd home t u)"
proof -
  have "in_exit_loop s" using assms(2) by (simp add: in_exit_loop_def)
  from lost_job_reach [OF assms(4) this assms(3) shell_inv_reach [OF assms(1)]]
  have t: "in_exit_loop t" "lost_job t" by blast+
  then show ?thesis using exit_loop_steps by (auto simp: in_exit_loop_def)
qed

text \<open>
  \<open>exit\<close> returns when it can: entered with jobs that are all children that have exited, it
  reports each of them as completed and returns.
\<close>

theorem exit_returns_when_jobs_ended:
  assumes "phase s = Exit_test" "distinct (map fst (processes s))"
    and "\<forall>(p, name)\<in>set (processes s). kids s p = Some Exited"
  shows "\<exists>t. (shell_step chd home)\<^sup>*\<^sup>* s t \<and> phase t = Done \<and>
    completed_pids t = completed_pids s + job_pids s"
proof -
  let ?step = "shell_step chd home"
  have last: "\<exists>u. ?step\<^sup>*\<^sup>* t u \<and> phase u = Done \<and> completed_pids u = completed_pids t"
    if "phase t = Exit_test" "processes t = []" for t
    using exit_returns [OF that, of chd home] by (intro exI [of _ "t\<lparr>phase := Done\<rparr>"]) auto
  show ?thesis
  proof (cases "processes s = []")
    case True
    then show ?thesis using last [OF assms(1)] by (simp add: job_pids_def)
  next
    case False
    let ?s = "s\<lparr>phase := Sweep (length (processes s)) After_exit\<rparr>"
    have "?step s ?s" using assms(1) False by (rule exit_checks)
    moreover obtain t where t: "?step\<^sup>*\<^sup>* ?s t" "phase t = Sweep 0 After_exit" "processes t = []"
      "completed_pids t = completed_pids s + job_pids s"
      using sweep_all [of ?s chd home] assms(2,3) by auto
    moreover have "?step t (t\<lparr>phase := Exit_test\<rparr>)" using t(2) by (rule swept)
    ultimately have "?step\<^sup>*\<^sup>* s (t\<lparr>phase := Exit_test\<rparr>)" by (meson converse_rtranclp_into_rtranclp rtranclp.rtrancl_into_rtrancl)
    moreover obtain u where "?step\<^sup>*\<^sup>* (t\<lparr>phase := Exit_test\<rparr>) u" "phase u = Done"
      "completed_pids u = completed_pids t"
      using last [of "t\<lparr>phase := Exit_test\<rparr>"] t(3) by auto
    ultimately show ?thesis using t(4) rtranclp_trans [of ?step] by metis
  qed
qed

text \<open>What a line gives, by its words.\<close>

lemma read_line_words:
  assumes "line \<noteq> []" "words = tokens '' '' (c_str (if List.last line = CHR ''&'' then butlast line else line))"
  shows "(read_line line = Overrun \<longleftrightarrow> 5 \<le> length words) \<and>
    (\<forall>args bg name. read_line line = Run args bg name \<longrightarrow>
       args = Some (''/bin/'' @ hd words) # map Some (tl words) @ [None] \<and> length args \<le> ARGV_SLOTS)"
proof -
  define inp where "inp = (if List.last line = CHR ''&'' then butlast line else line)"
  note w = assms(2) [folded inp_def]
  have r: "read_line line = (case shellLineSetup inp of None \<Rightarrow> Ignored
     | Some argvNew \<Rightarrow>
         if length argvNew > ARGV_SLOTS then Overrun
         else if inp = ''exit'' then Exit
         else if argvNew ! 0 = Some ''cd'' then Cd (argvNew ! 1)
         else if argvNew ! 0 = Some ''jobs'' then Jobs
         else Run argvNew (List.last line = CHR ''&'') inp)"
    using assms(1) unfolding read_line_def Let_def inp_def by (simp only: if_False)
  show ?thesis
  proof (cases words)
    case Nil
    then have "shellLineSetup inp = None" using w by (simp add: shellLineSetup_def)
    then have "read_line line = Ignored" unfolding r by simp
    then show ?thesis using Nil by simp
  next
    case (Cons p ws)
    have s: "shellLineSetup inp = Some (Some (if p = ''cd'' then p else if p = ''jobs'' then p
        else ''/bin/'' @ p) # map Some ws @ [None])"
      unfolding shellLineSetup_def w [symmetric] Cons Let_def list.case by (rule refl)
    show ?thesis unfolding r s option.case Cons by (auto simp: ARGV_SLOTS_def split: if_splits)
  qed
qed

lemma commandLineSetup_eq:
  assumes "2 \<le> length argv"
  shows "commandLineSetup argv = map Some (tl argv) @ [None]"
proof -
  obtain a b cs where a: "argv = a # b # cs" using assms by (cases argv; cases "tl argv") auto
  have "map (\<lambda>i. Some (argv ! (i + 1))) [1..<length argv - 1] = map Some cs"
  proof -
    have "[1..<length argv - 1] = map Suc [0..<length cs]" unfolding a by (simp add: map_Suc_upt)
    then have "map (\<lambda>i. Some (argv ! (i + 1))) [1..<length argv - 1] =
        map (\<lambda>i. Some (cs ! i)) [0..<length cs]" unfolding a by simp
    also have "\<dots> = map Some (map ((!) cs) [0..<length cs])" by simp
    finally show ?thesis unfolding map_nth .
  qed
  then show ?thesis unfolding commandLineSetup_def a by simp
qed

text \<open>
  C32. The five slots of \<open>argvNew\<close>: a line of the shell overruns them exactly when it has five words
  or more; else a command gets \<open>/bin/\<close> and its first word, the other words and NULL, no word being
  empty or with a space in it; and the program given as arguments gets its arguments and NULL,
  which fit exactly when there are at most four of them.
\<close>

theorem argv_slots:
  assumes "line \<noteq> []" "words = tokens '' '' (c_str (if List.last line = CHR ''&'' then butlast line else line))"
    and "2 \<le> length argv"
  shows "(read_line line = Overrun \<longleftrightarrow> 5 \<le> length words) \<and>
    (\<forall>args bg name. read_line line = Run args bg name \<longrightarrow>
       args = Some (''/bin/'' @ hd words) # map Some (tl words) @ [None] \<and> length args \<le> ARGV_SLOTS \<and>
       (\<forall>w\<in>set words. w \<noteq> [] \<and> CHR '' '' \<notin> set w)) \<and>
    commandLineSetup argv = map Some (tl argv) @ [None] \<and>
    (fst (snd (commandExecution True argv t0 t1 r0 r1)) = None \<longleftrightarrow> 4 < length (tl argv))"
proof -
  have "\<forall>w\<in>set words. w \<noteq> [] \<and> CHR '' '' \<notin> set w"
    unfolding assms(2) using tokens_clean [of _ "'' ''"] by fastforce
  then show ?thesis
    using read_line_words [OF assms(1,2)] commandLineSetup_eq [OF assms(3)]
    by (auto simp: commandExecution_def ARGV_SLOTS_def)
qed

text \<open>A disk without directories, a first job, and a foreground command while it ends.\<close>

abbreviation no_chdir :: "string \<Rightarrow> string \<Rightarrow> string option" where "no_chdir \<equiv> \<lambda>_ _. None"

definition zero_time :: timeval where "zero_time = \<lparr>tv_sec = 0, tv_usec = 0\<rparr>"

definition zero_usage :: rusage where
  "zero_usage = \<lparr>ru_utime = zero_time, ru_stime = zero_time, ru_nivcsw = 0, ru_nvcsw = 0,
     ru_majflt = 0, ru_minflt = 0\<rparr>"

definition no_stats :: stats where
  "no_stats = collectData zero_time zero_time zero_usage zero_usage"

definition demo_started :: shell where
  "demo_started = \<lparr>processes = [(1, ''sleep 9'')], kids = (\<lambda>_. None)(1 \<mapsto> Running), phase = Prompt,
     cwd = [], outs = [Started 1 1]\<rparr>"

definition demo_lost :: shell where
  "demo_lost = \<lparr>processes = [(1, ''sleep 9'')], kids = (\<lambda>_. None)(2 \<mapsto> Running), phase = Exit_test,
     cwd = [], outs = [Started 1 1, Stats no_stats]\<rparr>"

lemma demo_lines:
  "read_line ''sleep 9&'' = Run [Some ''/bin/sleep'', Some ''9'', None] True ''sleep 9''"
  "read_line ''ls'' = Run [Some ''/bin/ls'', None] False ''ls''"
  "read_line ''exit'' = Exit"
  by code_simp+

lemma demo_start: "(shell_step no_chdir (Some []))\<^sup>*\<^sup>* (shell_init []) demo_started"
proof -
  let ?step = "shell_step no_chdir (Some [])"
  let ?a = "(shell_init [])\<lparr>phase := Fork [Some ''/bin/sleep'', Some ''9'', None] True ''sleep 9''\<rparr>"
  let ?b = "?a\<lparr>kids := (\<lambda>_. None)(1 \<mapsto> Running), phase := Sweep 0 (After_fork 1 True ''sleep 9'')\<rparr>"
  have "?step (shell_init []) ?a"
    using line [of "shell_init []" no_chdir "Some []" "''sleep 9&''"] demo_lines(1)
    by (simp add: shell_init_def obey_def)
  moreover have "?step ?a ?b"
    using forks [of ?a _ _ _ 1 no_chdir "Some []"] by (simp add: shell_init_def)
  moreover have "?step ?b demo_started"
    using background [of ?b 1 "''sleep 9''" no_chdir "Some []"]
    by (simp add: shell_init_def demo_started_def say_def)
  ultimately show ?thesis by (meson converse_rtranclp_into_rtranclp rtranclp.rtrancl_refl)
qed

lemma demo_run: "(shell_step no_chdir (Some []))\<^sup>*\<^sup>* (shell_init []) demo_lost"
proof -
  let ?step = "shell_step no_chdir (Some [])" and ?s = demo_started
  let ?a = "?s\<lparr>phase := Fork [Some ''/bin/ls'', None] False ''ls''\<rparr>"
  let ?b = "?a\<lparr>kids := (kids ?a)(2 \<mapsto> Running), phase := Sweep 1 (After_fork 2 False ''ls'')\<rparr>"
  let ?c = "?b\<lparr>phase := Sweep 0 (After_fork 2 False ''ls'')\<rparr>"
  let ?d = "?c\<lparr>phase := Wait\<rparr>"
  let ?e = "?d\<lparr>kids := (kids ?d)(1 \<mapsto> Exited)\<rparr>"
  let ?f = "say [Stats no_stats] (?e\<lparr>kids := (kids ?e)(1 := None), phase := Prompt\<rparr>)"
  have k: "kids ?s = (\<lambda>_. None)(1 \<mapsto> Running)" "phase ?s = Prompt" "processes ?s = [(1, ''sleep 9'')]"
    by (simp_all add: demo_started_def)
  have "?step ?s ?a"
    using line [of ?s no_chdir "Some []" "''ls''"] demo_lines(2) k by (simp add: obey_def)
  moreover have "?step ?a ?b" using forks [of ?a "[Some ''/bin/ls'', None]" False "''ls''" 2 no_chdir "Some []"] k by simp
  moreover have "?step ?b ?c"
  proof -
    have "check_process (collectData zero_time zero_time zero_usage zero_usage) 0 ?b = ?b"
      using k by (simp add: check_process_def waitpid_nohang_def)
    then show ?thesis
      using sweeps [of ?b 0 "After_fork 2 False ''ls''" no_chdir "Some []" zero_time zero_time zero_usage
          zero_usage] by simp
  qed
  moreover have "?step ?c ?d" by (rule foreground) simp
  moreover have "?step ?d ?e" by (rule child_exits) (simp add: k)
  moreover have "?step ?e ?f"
    unfolding no_stats_def by (rule waits) (simp_all add: k)
  moreover have "?step ?f demo_lost"
  proof -
    have "(?f\<lparr>phase := Exit_test\<rparr>) = demo_lost"
      by (simp add: say_def demo_lost_def demo_started_def fun_eq_iff)
    then show ?thesis using line [of ?f no_chdir "Some []" "''exit''"] demo_lines(3) by (simp add: obey_def)
  qed
  ultimately show ?thesis using demo_start by (meson rtranclp.rtrancl_into_rtrancl)
qed

lemma demo_lost_job: "phase demo_lost = Exit_test" "lost_job demo_lost"
  by (simp_all add: demo_lost_def lost_job_def)

corollary background_jobs_accounted_witness:
  "started_pids demo_lost = job_pids demo_lost + completed_pids demo_lost \<and> started_pids demo_lost = {#1#}"
  using background_jobs_accounted [OF demo_run] by (simp add: demo_lost_def started_pids_def)

corollary lost_job_hangs_exit_witness:
  "(shell_step no_chdir (Some []))\<^sup>*\<^sup>* (shell_init []) demo_lost \<and>
   \<not> (shell_step no_chdir (Some []))\<^sup>*\<^sup>* demo_lost (demo_lost\<lparr>phase := Done\<rparr>)"
  using lost_job_hangs_exit [OF demo_run demo_lost_job, of "demo_lost\<lparr>phase := Done\<rparr>"] demo_run by auto

corollary exit_returns_when_jobs_ended_witness:
  "\<exists>t. (shell_step no_chdir (Some []))\<^sup>*\<^sup>* (demo_lost\<lparr>kids := \<lambda>_. Some Exited\<rparr>) t \<and> phase t = Done \<and>
     completed_pids t = {#1#}"
  using exit_returns_when_jobs_ended [of "demo_lost\<lparr>kids := \<lambda>_. Some Exited\<rparr>" no_chdir "Some []"]
  by (simp add: demo_lost_def completed_pids_def job_pids_def)

corollary argv_slots_witness:
  "read_line ''a b c d e'' = Overrun \<and> commandLineSetup [''doit'', ''ls'', ''-l''] = [Some ''ls'', Some ''-l'', None]"
proof -
  let ?words = "tokens '' '' (c_str ''a b c d e'')"
  have w: "length ?words = 5" by code_simp
  have "?words = tokens '' '' (c_str (if List.last ''a b c d e'' = CHR ''&'' then butlast ''a b c d e''
      else ''a b c d e''))" by simp
  from argv_slots [OF _ this, of "[''doit'', ''ls'', ''-l'']" zero_time zero_time zero_usage zero_usage] show ?thesis using w by simp
qed

end
