(* ===== verification/Interceptor.thy ===== *)
theory Interceptor
  imports Prelude "HOL-Library.Word" "HOL-Library.Monad_Syntax"
begin

unbundle bit_operations_syntax

text \<open>
  The loadable modules of \<open>project2\<close>: \<open>openclose.c\<close>, \<open>module.c\<close> and \<open>intercept.c\<close> look for the system
  call table in the memory of the kernel, switch the write protection off, put their own functions
  into the table and restore it when they are unloaded. The memory is a map from addresses to words;
  reading where it is undefined, or writing there or to a read-only page while the protection is on,
  is an oops. A function is its address, and what the kernel's own functions do is a parameter. The
  variables that keep the old pointers are words of that memory, which matters: the search may find
  them.
\<close>

section \<open>Memory and the control register\<close>

type_synonym addr = "32 word"

datatype kmsg =
    Found_at addr | Loaded | Unloaded | Dalek | Hello nat | Hello_world | Cleaning_up
  | Opening "32 word" string | Closing "32 word" int

record kernel =
  mem :: "addr \<Rightarrow> 32 word option"
  cr0 :: "32 word"
  klog :: "kmsg list"

definition printk :: "kmsg \<Rightarrow> kernel \<Rightarrow> kernel" where
  "printk m s = s\<lparr>klog := klog s @ [m]\<rparr>"

definition write_word :: "(addr \<Rightarrow> bool) \<Rightarrow> addr \<Rightarrow> 32 word \<Rightarrow> kernel \<Rightarrow> kernel option" where
  "write_word ro a v s =
     (if mem s a = None \<or> ro a \<and> bit (cr0 s) 16 then None else Some (s\<lparr>mem := (mem s)(a \<mapsto> v)\<rparr>))"

definition disable_page_protection :: "kernel \<Rightarrow> kernel" where
  "disable_page_protection s = s\<lparr>cr0 := cr0 s AND NOT 0x10000\<rparr>"

definition enable_page_protection :: "kernel \<Rightarrow> kernel" where
  "enable_page_protection s = s\<lparr>cr0 := cr0 s OR 0x10000\<rparr>"

section \<open>The search\<close>

definition PAGE_OFFSET :: addr where "PAGE_OFFSET = 0xC0000000"

definition NR_open :: addr where "NR_open = 5"
definition NR_close :: addr where "NR_close = 6"
definition NR_cs3013_syscall1 :: addr where "NR_cs3013_syscall1 = 349"
definition NR_cs3013_syscall2 :: addr where "NR_cs3013_syscall2 = 350"

definition slot :: "addr \<Rightarrow> addr \<Rightarrow> addr" where
  "slot sct nr = sct + 4 * nr"

text \<open>
  \<open>unsigned long int offset\<close> has 32 bits here and is compared with \<open>ULLONG_MAX\<close>, the greatest value
  of 64 bits. \<open>Null\<close> is the \<open>return NULL\<close> after the loop; a search that never returns is \<open>None\<close>.
\<close>

datatype search = Found addr | Fault | Null

partial_function (option) table_from :: "(addr \<Rightarrow> 32 word option) \<Rightarrow> 32 word \<Rightarrow> addr \<Rightarrow> search option" where
  "table_from mm sys_close offset =
     (if (ucast offset :: 64 word) < - 1
      then case mm (slot offset NR_close) of
             None \<Rightarrow> Some Fault
           | Some v \<Rightarrow> if v = sys_close then Some (Found offset) else table_from mm sys_close (offset + 4)
      else Some Null)"

definition find_sys_call_table :: "32 word \<Rightarrow> kernel \<Rightarrow> (search \<times> kernel) option" where
  "find_sys_call_table sys_close s =
     (case table_from (mem s) sys_close PAGE_OFFSET of
        None \<Rightarrow> None
      | Some (Found sct) \<Rightarrow> Some (Found sct, printk (Found_at sct) s)
      | Some r \<Rightarrow> Some (r, s))"

section \<open>Loading and unloading\<close>

text \<open>
  What a module replaces: for each system call its number, the address of the new function and
  the address of the variable for the old one.
\<close>

type_synonym hooks = "(addr \<times> addr \<times> addr) list"

definition openclose_hooks :: "addr \<Rightarrow> addr \<Rightarrow> addr \<Rightarrow> addr \<Rightarrow> hooks" where
  "openclose_hooks new1 ref1 new2 ref2 = [(NR_open, new1, ref1), (NR_close, new2, ref2)]"

definition hello_hooks :: "addr \<Rightarrow> addr \<Rightarrow> hooks" where
  "hello_hooks new1 ref1 = [(NR_cs3013_syscall1, new1, ref1)]"

definition intercept_hooks :: "addr \<Rightarrow> addr \<Rightarrow> hooks" where
  "intercept_hooks new2 ref2 = [(NR_cs3013_syscall2, new2, ref2)]"

fun store_refs :: "(addr \<Rightarrow> bool) \<Rightarrow> addr \<Rightarrow> hooks \<Rightarrow> kernel \<Rightarrow> kernel option" where
  "store_refs ro sct [] s = Some s"
| "store_refs ro sct ((nr, new, rf) # hs) s =
     do { old \<leftarrow> mem s (slot sct nr);
          s' \<leftarrow> write_word ro rf old s;
          store_refs ro sct hs s' }"

fun set_slots :: "(addr \<Rightarrow> bool) \<Rightarrow> addr \<Rightarrow> hooks \<Rightarrow> kernel \<Rightarrow> kernel option" where
  "set_slots ro sct [] s = Some s"
| "set_slots ro sct ((nr, new, rf) # hs) s =
     do { s' \<leftarrow> write_word ro (slot sct nr) new s;
          set_slots ro sct hs s' }"

fun restore_slots :: "(addr \<Rightarrow> bool) \<Rightarrow> addr \<Rightarrow> hooks \<Rightarrow> kernel \<Rightarrow> kernel option" where
  "restore_slots ro sct [] s = Some s"
| "restore_slots ro sct ((nr, new, rf) # hs) s =
     do { old \<leftarrow> mem s rf;
          s' \<leftarrow> write_word ro (slot sct nr) old s;
          restore_slots ro sct hs s' }"

text \<open>\<open>Returns\<close> has the value, the module's \<open>sys_call_table\<close> and the state.\<close>

datatype loading = Hangs | Oops | Returns int addr kernel

definition interceptor_start :: "(addr \<Rightarrow> bool) \<Rightarrow> 32 word \<Rightarrow> hooks \<Rightarrow> kernel \<Rightarrow> loading" where
  "interceptor_start ro sys_close hs s =
     (case find_sys_call_table sys_close s of
        None \<Rightarrow> Hangs
      | Some (Fault, s0) \<Rightarrow> Oops
      | Some (Null, s0) \<Rightarrow> Returns (- 1) 0 s0
      | Some (Found sct, s0) \<Rightarrow>
          if sct = 0 then Returns (- 1) 0 s0
          else
            case do { s1 \<leftarrow> store_refs ro sct hs s0;
                      s2 \<leftarrow> set_slots ro sct hs (disable_page_protection s1);
                      Some (printk Loaded (enable_page_protection s2)) } of
              None \<Rightarrow> Oops
            | Some s3 \<Rightarrow> Returns 0 sct s3)"

text \<open>\<open>interceptor_end\<close> with the value of \<open>sys_call_table\<close>.\<close>

definition interceptor_end :: "(addr \<Rightarrow> bool) \<Rightarrow> addr \<Rightarrow> hooks \<Rightarrow> kernel \<Rightarrow> kernel option" where
  "interceptor_end ro sct hs s =
     (if sct = 0 then Some s
      else
        do { s1 \<leftarrow> restore_slots ro sct hs (disable_page_protection s);
             Some (printk Unloaded (enable_page_protection s1)) })"

text \<open>The same functions of \<open>module.c\<close> and \<open>intercept.c\<close>, which replace one call each.\<close>

definition hello_start :: "(addr \<Rightarrow> bool) \<Rightarrow> 32 word \<Rightarrow> addr \<Rightarrow> addr \<Rightarrow> kernel \<Rightarrow> loading" where
  "hello_start ro sys_close new1 ref1 s = interceptor_start ro sys_close (hello_hooks new1 ref1) s"

definition hello_end :: "(addr \<Rightarrow> bool) \<Rightarrow> addr \<Rightarrow> addr \<Rightarrow> addr \<Rightarrow> kernel \<Rightarrow> kernel option" where
  "hello_end ro sct new1 ref1 s = interceptor_end ro sct (hello_hooks new1 ref1) s"

definition intercept_start :: "(addr \<Rightarrow> bool) \<Rightarrow> 32 word \<Rightarrow> addr \<Rightarrow> addr \<Rightarrow> kernel \<Rightarrow> loading" where
  "intercept_start ro sys_close new2 ref2 s = interceptor_start ro sys_close (intercept_hooks new2 ref2) s"

definition intercept_end :: "(addr \<Rightarrow> bool) \<Rightarrow> addr \<Rightarrow> addr \<Rightarrow> addr \<Rightarrow> kernel \<Rightarrow> kernel option" where
  "intercept_end ro sct new2 ref2 s = interceptor_end ro sct (intercept_hooks new2 ref2) s"

section \<open>The functions of openclose.c and module.c\<close>

text \<open>
  \<open>code f x s\<close> is what the kernel's function at address \<open>f\<close> returns and does; the new functions call
  the one in their variable. The \<open>pathname\<close> of \<open>open\<close> is the pointer the caller passes. \<open>user_str a\<close> is what
  \<open>printk\<close> reads for a \<open>%s\<close> at the address \<open>a\<close> of the caller: nobody has checked the address, and \<open>None\<close> is a
  fault in the kernel, an oops.
\<close>

definition new_open ::
  "(addr \<Rightarrow> string option) \<Rightarrow> (addr \<Rightarrow> addr \<times> int \<times> int \<Rightarrow> kernel \<Rightarrow> int \<times> kernel) \<Rightarrow> addr \<Rightarrow>
     32 word \<Rightarrow> addr \<Rightarrow> int \<Rightarrow> int \<Rightarrow> kernel \<Rightarrow> (int \<times> kernel) option" where
  "new_open user_str code ref1 uid pathname flags mode s =
     do { s' \<leftarrow> (if uid \<ge> 1000
                then map_option (\<lambda>name. printk (Opening uid name) s) (user_str pathname) else Some s);
          f \<leftarrow> mem s' ref1;
          Some (code f (pathname, flags, mode) s') }"

definition new_close ::
  "(addr \<Rightarrow> int \<Rightarrow> kernel \<Rightarrow> int \<times> kernel) \<Rightarrow> addr \<Rightarrow> 32 word \<Rightarrow> int \<Rightarrow> kernel \<Rightarrow> (int \<times> kernel) option" where
  "new_close code ref2 uid fd s =
     (let s' = (if uid \<ge> 1000 then printk (Closing uid fd) s else s) in
      do { f \<leftarrow> mem s' ref2; Some (code f fd s') })"

definition new_hello :: "kernel \<Rightarrow> int \<times> kernel" where
  "new_hello s = (0, printk Dalek s)"

text \<open>The two system calls: the function in the table, which may be the one of the module.\<close>

definition do_open ::
  "(addr \<Rightarrow> string option) \<Rightarrow> (addr \<Rightarrow> addr \<times> int \<times> int \<Rightarrow> kernel \<Rightarrow> int \<times> kernel) \<Rightarrow> addr \<Rightarrow> addr \<Rightarrow>
     addr \<Rightarrow> 32 word \<Rightarrow> addr \<Rightarrow> int \<Rightarrow> int \<Rightarrow> kernel \<Rightarrow> (int \<times> kernel) option" where
  "do_open user_str code table new1 ref1 uid pathname flags mode s =
     do { f \<leftarrow> mem s (slot table NR_open);
          if f = new1 then new_open user_str code ref1 uid pathname flags mode s
          else Some (code f (pathname, flags, mode) s) }"

definition do_close ::
  "(addr \<Rightarrow> int \<Rightarrow> kernel \<Rightarrow> int \<times> kernel) \<Rightarrow> addr \<Rightarrow> addr \<Rightarrow> addr \<Rightarrow> 32 word \<Rightarrow> int \<Rightarrow> kernel \<Rightarrow>
     (int \<times> kernel) option" where
  "do_close code table new2 ref2 uid fd s =
     do { f \<leftarrow> mem s (slot table NR_close);
          if f = new2 then new_close code ref2 uid fd s else Some (code f fd s) }"

section \<open>The search\<close>

lemma offset_below: "(ucast (a :: addr) :: 64 word) < - 1"
proof -
  have "uint (ucast a :: 64 word) < 2 ^ 32"
    using uint_bounded [of a] by (simp add: unsigned_ucast_eq take_bit_int_eq_self)
  then show ?thesis by (simp add: word_less_def unsigned_minus_1_eq_mask mask_eq_exp_minus_1)
qed

lemma table_from_unfold:
  "table_from mm sc a =
     (case mm (slot a NR_close) of
        None \<Rightarrow> Some Fault
      | Some v \<Rightarrow> if v = sc then Some (Found a) else table_from mm sc (a + 4))"
  by (subst table_from.simps) (simp add: offset_below)

lemma table_from_skips:
  assumes "\<forall>j<k. \<exists>v. mm (slot (a + 4 * of_nat j) NR_close) = Some v \<and> v \<noteq> sc"
  shows "table_from mm sc a = table_from mm sc (a + 4 * of_nat k)"
  using assms
proof (induction k arbitrary: a)
  case (Suc k)
  obtain v where v: "mm (slot a NR_close) = Some v" "v \<noteq> sc" using Suc.prems by fastforce
  have "\<forall>j<k. \<exists>v. mm (slot (a + 4 + 4 * of_nat j) NR_close) = Some v \<and> v \<noteq> sc"
  proof (intro allI impI)
    fix j assume "j < k"
    then have "Suc j < Suc k" by simp
    from Suc.prems [rule_format, OF this]
    show "\<exists>v. mm (slot (a + 4 + 4 * of_nat j) NR_close) = Some v \<and> v \<noteq> sc" by (simp add: algebra_simps)
  qed
  from Suc.IH [OF this] show ?case using v by (simp add: table_from_unfold [of _ _ a] algebra_simps)
qed simp

lemma table_from_finds:
  assumes "\<forall>j<k. \<exists>v. mm (slot (a + 4 * of_nat j) NR_close) = Some v \<and> v \<noteq> sc"
    and "mm (slot (a + 4 * of_nat k) NR_close) = Some sc"
  shows "table_from mm sc a = Some (Found (a + 4 * of_nat k))"
  using table_from_skips [OF assms(1)] assms(2)
  by (simp add: table_from_unfold [of _ _ "a + 4 * of_nat k"])

lemma table_from_faults:
  assumes "\<forall>j<k. \<exists>v. mm (slot (a + 4 * of_nat j) NR_close) = Some v \<and> v \<noteq> sc"
    and "mm (slot (a + 4 * of_nat k) NR_close) = None"
  shows "table_from mm sc a = Some Fault"
  using table_from_skips [OF assms(1)] assms(2)
  by (simp add: table_from_unfold [of _ _ "a + 4 * of_nat k"])

text \<open>What a search that returns has found.\<close>

lemma table_from_result:
  assumes "table_from mm sc a = Some r"
  shows "\<exists>k. (\<forall>j<k. \<exists>v. mm (slot (a + 4 * of_nat j) NR_close) = Some v \<and> v \<noteq> sc) \<and>
     (r = Fault \<and> mm (slot (a + 4 * of_nat k) NR_close) = None \<or>
      r = Found (a + 4 * of_nat k) \<and> mm (slot (a + 4 * of_nat k) NR_close) = Some sc)"
proof (rule table_from.raw_induct [where P = "\<lambda>mm sc a r.
    \<exists>k. (\<forall>j<k. \<exists>v. mm (slot (a + 4 * of_nat j) NR_close) = Some v \<and> v \<noteq> sc) \<and>
     (r = Fault \<and> mm (slot (a + 4 * of_nat k) NR_close) = None \<or>
      r = Found (a + 4 * of_nat k) \<and> mm (slot (a + 4 * of_nat k) NR_close) = Some sc)", OF _ assms])
  fix f :: "(addr \<Rightarrow> 32 word option) \<Rightarrow> 32 word \<Rightarrow> addr \<Rightarrow> search option"
    and mm :: "addr \<Rightarrow> 32 word option" and sc :: "32 word" and a :: addr and r
  let ?Q = "\<lambda>a k. (\<forall>j<k. \<exists>v. mm (slot (a + 4 * of_nat j) NR_close) = Some v \<and> v \<noteq> sc) \<and>
     (r = Fault \<and> mm (slot (a + 4 * of_nat k) NR_close) = None \<or>
      r = Found (a + 4 * of_nat k) \<and> mm (slot (a + 4 * of_nat k) NR_close) = Some sc)"
  assume ih: "\<And>(mm :: addr \<Rightarrow> 32 word option) sc a r. f mm sc a = Some r \<Longrightarrow>
      \<exists>k. (\<forall>j<k. \<exists>v. mm (slot (a + 4 * of_nat j) NR_close) = Some v \<and> v \<noteq> sc) \<and>
     (r = Fault \<and> mm (slot (a + 4 * of_nat k) NR_close) = None \<or>
      r = Found (a + 4 * of_nat k) \<and> mm (slot (a + 4 * of_nat k) NR_close) = Some sc)"
    and r: "(if (ucast a :: 64 word) < - 1
      then case mm (slot a NR_close) of None \<Rightarrow> Some Fault
           | Some v \<Rightarrow> if v = sc then Some (Found a) else f mm sc (a + 4)
      else Some Null) = Some r"
  consider (fault) "mm (slot a NR_close) = None" "r = Fault"
    | (here) "mm (slot a NR_close) = Some sc" "r = Found a"
    | (on) v where "mm (slot a NR_close) = Some v" "v \<noteq> sc" "f mm sc (a + 4) = Some r"
    using r by (auto simp: offset_below split: option.splits if_splits)
  then show "\<exists>k. ?Q a k"
  proof cases
    case fault
    then have "?Q a 0" by simp
    then show ?thesis ..
  next
    case here
    then have "?Q a 0" by simp
    then show ?thesis ..
  next
    case on
    obtain k where k: "?Q (a + 4) k" using ih [OF on(3)] by blast
    have "\<exists>v. mm (slot (a + 4 * of_nat j) NR_close) = Some v \<and> v \<noteq> sc" if j: "j < Suc k" for j
    proof (cases j)
      case 0
      then show ?thesis using on by simp
    next
      case (Suc i)
      then show ?thesis using k j by (auto simp: algebra_simps)
    qed
    then have "?Q a (Suc k)" using k by (simp add: algebra_simps)
    then show ?thesis ..
  qed
qed

text \<open>Addresses of words, and a memory in which exactly one of them holds \<open>sys_close\<close>.\<close>

definition aligned :: "addr \<Rightarrow> bool" where
  "aligned a \<longleftrightarrow> 4 dvd uint a"

definition sole :: "(addr \<Rightarrow> 32 word option) \<Rightarrow> 32 word \<Rightarrow> addr \<Rightarrow> bool" where
  "sole mm sc sct \<longleftrightarrow> aligned sct \<and>
     (\<forall>a. aligned a \<longrightarrow> (\<exists>v. mm a = Some v \<and> (v = sc \<longleftrightarrow> a = slot sct NR_close)))"

lemma dvd_mod_word: "(4 :: int) dvd x mod 4294967296 \<longleftrightarrow> 4 dvd x"
  by (rule dvd_mod_iff) simp

lemma aligned_add: "aligned a \<Longrightarrow> aligned (a + 4 * b)"
  by (simp add: aligned_def uint_word_ariths dvd_mod_word)

lemma aligned_diff: "aligned a \<Longrightarrow> aligned b \<Longrightarrow> aligned (a - b)"
  by (simp add: aligned_def uint_word_ariths dvd_mod_word)

lemma aligned_slot: "aligned a \<Longrightarrow> aligned (slot a nr)"
  by (simp add: slot_def aligned_add)

lemma slot_inj [simp]: "slot a nr = slot b nr \<longleftrightarrow> a = b"
  by (simp add: slot_def)

lemma aligned_reach:
  assumes "aligned a" "aligned b"
  shows "\<exists>k. b = a + 4 * of_nat k"
proof -
  define d where "d = b - a"
  have "4 dvd uint d" using aligned_diff [OF assms(2,1)] by (simp add: aligned_def d_def)
  then obtain m where m: "uint d = 4 * m" by blast
  then have "0 \<le> m" using uint_ge_0 [of d] by linarith
  have "d = of_int (uint d)" by simp
  also have "\<dots> = 4 * of_int m" unfolding m by simp
  also have "\<dots> = 4 * of_nat (nat m)" using \<open>0 \<le> m\<close> by simp
  finally have "b = a + 4 * of_nat (nat m)" by (simp add: d_def algebra_simps)
  then show ?thesis ..
qed

lemma aligned_PAGE_OFFSET: "aligned PAGE_OFFSET"
  by (simp add: aligned_def PAGE_OFFSET_def)

lemma sole_found:
  assumes "sole mm sc sct" "aligned a"
  shows "table_from mm sc a = Some (Found sct)"
proof -
  have t: "aligned sct" using assms(1) by (simp add: sole_def)
  define k where "k = (LEAST k. sct = a + 4 * of_nat k)"
  have k: "sct = a + 4 * of_nat k"
    unfolding k_def by (rule LeastI_ex) (rule aligned_reach [OF assms(2) t])
  have "\<exists>v. mm (slot (a + 4 * of_nat j) NR_close) = Some v \<and> v \<noteq> sc" if "j < k" for j
  proof -
    have "a + 4 * of_nat j \<noteq> sct" using not_less_Least [of j] that unfolding k_def by blast
    moreover have "aligned (slot (a + 4 * of_nat j) NR_close)"
      using assms(2) by (intro aligned_slot aligned_add)
    ultimately show ?thesis using assms(1) unfolding sole_def by (metis slot_inj)
  qed
  moreover have "mm (slot (a + 4 * of_nat k) NR_close) = Some sc"
    using assms(1) aligned_slot [OF t] k unfolding sole_def by metis
  ultimately show ?thesis using table_from_finds [of k mm a sc] k by simp
qed

lemma find_Found:
  "find_sys_call_table sc s = Some (Found sct, s') \<longleftrightarrow>
     table_from (mem s) sc PAGE_OFFSET = Some (Found sct) \<and> s' = printk (Found_at sct) s"
  by (auto simp: find_sys_call_table_def split: option.splits search.splits)

lemma sole_find: "sole (mem s) sc sct \<Longrightarrow> find_sys_call_table sc s = Some (Found sct, printk (Found_at sct) s)"
  by (simp add: find_Found sole_found aligned_PAGE_OFFSET)

lemma find_has_close:
  assumes "find_sys_call_table sc s = Some (Found sct, s')"
  shows "mem s (slot sct NR_close) = Some sc"
  using table_from_result [of "mem s" sc PAGE_OFFSET "Found sct"] assms by (auto simp: find_Found)

text \<open>A search still finds the table when other words have been changed, but not to \<open>sys_close\<close>.\<close>

lemma find_after_changes:
  assumes "find_sys_call_table sc s = Some (Found sct, s0)" "mem t (slot sct NR_close) = Some sc"
    and "\<And>a. mem t a = mem s a \<or> (\<exists>v. mem t a = Some v \<and> v \<noteq> sc)"
  shows "find_sys_call_table sc t = Some (Found sct, printk (Found_at sct) t)"
proof -
  have "table_from (mem s) sc PAGE_OFFSET = Some (Found sct)" using assms(1) by (simp add: find_Found)
  from table_from_result [OF this] obtain k where
    k: "\<forall>j<k. \<exists>v. mem s (slot (PAGE_OFFSET + 4 * of_nat j) NR_close) = Some v \<and> v \<noteq> sc"
      "sct = PAGE_OFFSET + 4 * of_nat k" by auto
  have "\<exists>v. mem t (slot (PAGE_OFFSET + 4 * of_nat j) NR_close) = Some v \<and> v \<noteq> sc" if "j < k" for j
    using k(1) that assms(3) [of "slot (PAGE_OFFSET + 4 * of_nat j) NR_close"] by auto
  then have "table_from (mem t) sc PAGE_OFFSET = Some (Found sct)"
    using table_from_finds [of k "mem t" PAGE_OFFSET sc] k(2) assms(2) by simp
  then show ?thesis by (simp add: find_Found)
qed

section \<open>Loading and unloading\<close>

abbreviation h_nr :: "addr \<times> addr \<times> addr \<Rightarrow> addr" where "h_nr h \<equiv> fst h"
abbreviation h_new :: "addr \<times> addr \<times> addr \<Rightarrow> addr" where "h_new h \<equiv> fst (snd h)"
abbreviation h_ref :: "addr \<times> addr \<times> addr \<Rightarrow> addr" where "h_ref h \<equiv> snd (snd h)"

text \<open>
  The slots of the table and the variables of the module are different words, and the variables
  are writable; the table may be read-only.
\<close>

definition layout_ok :: "(addr \<Rightarrow> bool) \<Rightarrow> addr \<Rightarrow> hooks \<Rightarrow> kernel \<Rightarrow> bool" where
  "layout_ok ro sct hs s \<longleftrightarrow>
     distinct (map (\<lambda>h. slot sct (h_nr h)) hs @ map h_ref hs) \<and>
     (\<forall>h\<in>set hs. mem s (slot sct (h_nr h)) \<noteq> None \<and> mem s (h_ref h) \<noteq> None \<and> \<not> ro (h_ref h))"

lemma store_refs_ok:
  assumes "distinct (map h_ref hs)" "\<forall>h\<in>set hs. \<forall>h'\<in>set hs. h_ref h \<noteq> slot sct (h_nr h')"
    and "\<forall>h\<in>set hs. mem s (slot sct (h_nr h)) \<noteq> None \<and> mem s (h_ref h) \<noteq> None \<and> \<not> ro (h_ref h)"
  shows "\<exists>s'. store_refs ro sct hs s = Some s' \<and> cr0 s' = cr0 s \<and> klog s' = klog s \<and>
    (\<forall>h\<in>set hs. mem s' (h_ref h) = mem s (slot sct (h_nr h))) \<and>
    (\<forall>a. a \<notin> h_ref ` set hs \<longrightarrow> mem s' a = mem s a)"
  using assms
proof (induction hs arbitrary: s)
  case Nil
  then show ?case by simp
next
  case (Cons h hs)
  obtain nr new rf where h: "h = (nr, new, rf)" by (cases h)
  obtain old where old: "mem s (slot sct nr) = Some old" using Cons.prems(3) h by auto
  define s1 where "s1 = s\<lparr>mem := (mem s)(rf \<mapsto> old)\<rparr>"
  have w: "write_word ro rf old s = Some s1"
    using Cons.prems(3) h by (simp add: write_word_def s1_def)
  have "\<exists>s'. store_refs ro sct hs s1 = Some s' \<and> cr0 s' = cr0 s1 \<and> klog s' = klog s1 \<and>
    (\<forall>h\<in>set hs. mem s' (h_ref h) = mem s1 (slot sct (h_nr h))) \<and>
    (\<forall>a. a \<notin> h_ref ` set hs \<longrightarrow> mem s' a = mem s1 a)"
    using Cons.prems by (intro Cons.IH) (auto simp: s1_def)
  then obtain s' where s': "store_refs ro sct hs s1 = Some s'" "cr0 s' = cr0 s1" "klog s' = klog s1"
    "\<forall>h\<in>set hs. mem s' (h_ref h) = mem s1 (slot sct (h_nr h))"
    "\<forall>a. a \<notin> h_ref ` set hs \<longrightarrow> mem s' a = mem s1 a" by blast
  have "mem s' rf = Some old" using s'(5) Cons.prems(1) h by (auto simp: s1_def)
  moreover have "mem s1 (slot sct (h_nr g)) = mem s (slot sct (h_nr g))" if "g \<in> set hs" for g
    using Cons.prems(2) h that by (auto simp: s1_def)
  moreover have "mem s' a = mem s a" if "a \<notin> h_ref ` set (h # hs)" for a
    using s'(5) that h by (auto simp: s1_def)
  ultimately show ?case
    using s' w old h by (intro exI [of _ s']) (auto simp: s1_def)
qed

lemma set_slots_ok:
  assumes "distinct (map (\<lambda>h. slot sct (h_nr h)) hs)" "\<not> bit (cr0 s) 16"
    and "\<forall>h\<in>set hs. mem s (slot sct (h_nr h)) \<noteq> None"
  shows "\<exists>s'. set_slots ro sct hs s = Some s' \<and> cr0 s' = cr0 s \<and> klog s' = klog s \<and>
    (\<forall>h\<in>set hs. mem s' (slot sct (h_nr h)) = Some (h_new h)) \<and>
    (\<forall>a. a \<notin> (\<lambda>h. slot sct (h_nr h)) ` set hs \<longrightarrow> mem s' a = mem s a)"
  using assms
proof (induction hs arbitrary: s)
  case Nil
  then show ?case by simp
next
  case (Cons h hs)
  obtain nr new rf where h: "h = (nr, new, rf)" by (cases h)
  define s1 where "s1 = s\<lparr>mem := (mem s)(slot sct nr \<mapsto> new)\<rparr>"
  have w: "write_word ro (slot sct nr) new s = Some s1"
    using Cons.prems(2,3) h by (simp add: write_word_def s1_def)
  have "\<exists>s'. set_slots ro sct hs s1 = Some s' \<and> cr0 s' = cr0 s1 \<and> klog s' = klog s1 \<and>
    (\<forall>h\<in>set hs. mem s' (slot sct (h_nr h)) = Some (h_new h)) \<and>
    (\<forall>a. a \<notin> (\<lambda>h. slot sct (h_nr h)) ` set hs \<longrightarrow> mem s' a = mem s1 a)"
    using Cons.prems by (intro Cons.IH) (auto simp: s1_def)
  then obtain s' where s': "set_slots ro sct hs s1 = Some s'" "cr0 s' = cr0 s1" "klog s' = klog s1"
    "\<forall>h\<in>set hs. mem s' (slot sct (h_nr h)) = Some (h_new h)"
    "\<forall>a. a \<notin> (\<lambda>h. slot sct (h_nr h)) ` set hs \<longrightarrow> mem s' a = mem s1 a" by blast
  have "mem s' (slot sct nr) = Some new" using s'(5) Cons.prems(1) h by (auto simp: s1_def)
  moreover have "mem s' a = mem s a" if "a \<notin> (\<lambda>h. slot sct (h_nr h)) ` set (h # hs)" for a
    using s'(5) that h by (auto simp: s1_def)
  ultimately show ?case
    using s' w h by (intro exI [of _ s']) (auto simp: s1_def)
qed

lemma restore_slots_ok:
  assumes "distinct (map (\<lambda>h. slot sct (h_nr h)) hs)" "\<not> bit (cr0 s) 16"
    and "\<forall>h\<in>set hs. \<forall>h'\<in>set hs. h_ref h \<noteq> slot sct (h_nr h')"
    and "\<forall>h\<in>set hs. mem s (slot sct (h_nr h)) \<noteq> None \<and> mem s (h_ref h) \<noteq> None"
  shows "\<exists>s'. restore_slots ro sct hs s = Some s' \<and> cr0 s' = cr0 s \<and> klog s' = klog s \<and>
    (\<forall>h\<in>set hs. mem s' (slot sct (h_nr h)) = mem s (h_ref h)) \<and>
    (\<forall>a. a \<notin> (\<lambda>h. slot sct (h_nr h)) ` set hs \<longrightarrow> mem s' a = mem s a)"
  using assms
proof (induction hs arbitrary: s)
  case Nil
  then show ?case by simp
next
  case (Cons h hs)
  obtain nr new rf where h: "h = (nr, new, rf)" by (cases h)
  obtain old where old: "mem s rf = Some old" using Cons.prems(4) h by auto
  define s1 where "s1 = s\<lparr>mem := (mem s)(slot sct nr \<mapsto> old)\<rparr>"
  have w: "write_word ro (slot sct nr) old s = Some s1"
    using Cons.prems(2,4) h by (simp add: write_word_def s1_def)
  have "\<exists>s'. restore_slots ro sct hs s1 = Some s' \<and> cr0 s' = cr0 s1 \<and> klog s' = klog s1 \<and>
    (\<forall>h\<in>set hs. mem s' (slot sct (h_nr h)) = mem s1 (h_ref h)) \<and>
    (\<forall>a. a \<notin> (\<lambda>h. slot sct (h_nr h)) ` set hs \<longrightarrow> mem s' a = mem s1 a)"
    using Cons.prems by (intro Cons.IH) (auto simp: s1_def)
  then obtain s' where s': "restore_slots ro sct hs s1 = Some s'" "cr0 s' = cr0 s1" "klog s' = klog s1"
    "\<forall>h\<in>set hs. mem s' (slot sct (h_nr h)) = mem s1 (h_ref h)"
    "\<forall>a. a \<notin> (\<lambda>h. slot sct (h_nr h)) ` set hs \<longrightarrow> mem s' a = mem s1 a" by blast
  have "mem s' (slot sct nr) = Some old" using s'(5) Cons.prems(1) h by (auto simp: s1_def)
  moreover have "mem s1 (h_ref g) = mem s (h_ref g)" if "g \<in> set hs" for g
    using Cons.prems(3) h that by (auto simp: s1_def)
  moreover have "mem s' a = mem s a" if "a \<notin> (\<lambda>h. slot sct (h_nr h)) ` set (h # hs)" for a
    using s'(5) that h by (auto simp: s1_def)
  ultimately show ?case
    using s' w old h by (intro exI [of _ s']) (auto simp: s1_def)
qed

lemma not_bit_and_not: "bit w n \<Longrightarrow> \<not> bit (x AND NOT w) n" for x w :: "32 word"
  by (auto simp: bit_and_iff bit_not_iff)

lemma and_not_or: "(x AND NOT w) OR w = x OR w" for x w :: "32 word"
  by (rule bit_eqI) (auto simp: bit_and_iff bit_or_iff bit_not_iff)

lemma protection_bits:
  "\<not> bit (cr0 (disable_page_protection s)) 16"
  "cr0 (enable_page_protection (disable_page_protection s)) = cr0 s OR 0x10000"
proof -
  have b: "bit (0x10000 :: 32 word) n \<longleftrightarrow> n = 16" for n
  proof -
    have "(0x10000 :: 32 word) = push_bit 16 1" by simp
    then have "bit (0x10000 :: 32 word) n \<longleftrightarrow> bit (push_bit 16 (1 :: 32 word)) n" by metis
    also have "\<dots> \<longleftrightarrow> n = 16"
      unfolding bit_push_bit_iff bit_1_iff by (auto simp: possible_bit_word)
    finally show ?thesis .
  qed
  show "\<not> bit (cr0 (disable_page_protection s)) 16"
    using not_bit_and_not [OF b [THEN iffD2, OF refl], of "cr0 s"]
    unfolding disable_page_protection_def by simp
  from and_not_or [of "cr0 s" "0x10000"]
  show "cr0 (enable_page_protection (disable_page_protection s)) = cr0 s OR 0x10000"
    unfolding disable_page_protection_def enable_page_protection_def by simp
qed

lemma find_printk [simp]: "mem (printk m s) = mem s" "cr0 (printk m s) = cr0 s"
  "klog (printk m s) = klog s @ [m]"
  by (simp_all add: printk_def)

lemma protection_fields [simp]:
  "mem (disable_page_protection s) = mem s" "klog (disable_page_protection s) = klog s"
  "mem (enable_page_protection s) = mem s" "klog (enable_page_protection s) = klog s"
  by (simp_all add: disable_page_protection_def enable_page_protection_def)

lemma enable_cr0: "cr0 s = cr0 (disable_page_protection t) \<Longrightarrow>
    cr0 (enable_page_protection s) = cr0 t OR 0x10000"
  using protection_bits(2) [of t] by (simp add: enable_page_protection_def)

text \<open>What loading does, when the search has found the table.\<close>

lemma interceptor_start_ok:
  assumes "find_sys_call_table sc s = Some (Found sct, s0)" "sct \<noteq> 0" "layout_ok ro sct hs s"
  shows "\<exists>s1. interceptor_start ro sc hs s = Returns 0 sct s1 \<and> cr0 s1 = cr0 s OR 0x10000 \<and>
    klog s1 = klog s @ [Found_at sct, Loaded] \<and>
    (\<forall>h\<in>set hs. mem s1 (slot sct (h_nr h)) = Some (h_new h) \<and>
       mem s1 (h_ref h) = mem s (slot sct (h_nr h))) \<and>
    (\<forall>a. a \<notin> (\<lambda>h. slot sct (h_nr h)) ` set hs \<longrightarrow> a \<notin> h_ref ` set hs \<longrightarrow> mem s1 a = mem s a)"
proof -
  let ?slots = "\<lambda>h. slot sct (h_nr h)"
  have d: "distinct (map h_ref hs)" "distinct (map ?slots hs)"
    "\<forall>h\<in>set hs. \<forall>h'\<in>set hs. h_ref h \<noteq> ?slots h'"
    "\<forall>h\<in>set hs. mem s (?slots h) \<noteq> None \<and> mem s (h_ref h) \<noteq> None \<and> \<not> ro (h_ref h)"
    using assms(3) unfolding layout_ok_def by auto
  have s0_def: "s0 = printk (Found_at sct) s" using assms(1) by (simp add: find_Found)
  obtain s1 where s1: "store_refs ro sct hs s0 = Some s1" "cr0 s1 = cr0 s0" "klog s1 = klog s0"
    "\<forall>h\<in>set hs. mem s1 (h_ref h) = mem s0 (?slots h)"
    "\<forall>a. a \<notin> h_ref ` set hs \<longrightarrow> mem s1 a = mem s0 a"
    using store_refs_ok [OF d(1,3), of s0 ro] d(4) by (auto simp: s0_def)
  have m1: "mem s1 (?slots h) = mem s (?slots h)" if "h \<in> set hs" for h
  proof -
    have "?slots h \<notin> h_ref ` set hs" using d(3) that by force
    then show ?thesis using s1(5) by (simp add: s0_def)
  qed
  then have "\<forall>h\<in>set hs. mem (disable_page_protection s1) (?slots h) \<noteq> None" using d(4) by simp
  from set_slots_ok [OF d(2) protection_bits(1) this, of ro]
  obtain s2 where s2: "set_slots ro sct hs (disable_page_protection s1) = Some s2"
    "cr0 s2 = cr0 (disable_page_protection s1)" "klog s2 = klog s1"
    "\<forall>h\<in>set hs. mem s2 (?slots h) = Some (h_new h)"
    "\<forall>a. a \<notin> ?slots ` set hs \<longrightarrow> mem s2 a = mem s1 a" by auto
  let ?r = "printk Loaded (enable_page_protection s2)"
  have "interceptor_start ro sc hs s = Returns 0 sct ?r"
    using assms(1,2) s1(1) s2(1) by (simp add: interceptor_start_def)
  moreover have "cr0 ?r = cr0 s OR 0x10000"
    using enable_cr0 [OF s2(2)] s1(2) by (simp add: s0_def)
  moreover have "klog ?r = klog s @ [Found_at sct, Loaded]" using s2(3) s1(3) by (simp add: s0_def)
  moreover have "mem ?r (h_ref h) = mem s (?slots h)" if "h \<in> set hs" for h
  proof -
    have "h_ref h \<notin> ?slots ` set hs" using d(3) that by force
    then show ?thesis using s2(5) s1(4) that by (simp add: s0_def)
  qed
  ultimately show ?thesis using s2(4,5) s1(5) by (auto simp: s0_def)
qed

lemma interceptor_end_ok:
  assumes "sct \<noteq> 0" "layout_ok ro sct hs s"
  shows "\<exists>s1. interceptor_end ro sct hs s = Some s1 \<and> cr0 s1 = cr0 s OR 0x10000 \<and>
    klog s1 = klog s @ [Unloaded] \<and>
    (\<forall>h\<in>set hs. mem s1 (slot sct (h_nr h)) = mem s (h_ref h)) \<and>
    (\<forall>a. a \<notin> (\<lambda>h. slot sct (h_nr h)) ` set hs \<longrightarrow> mem s1 a = mem s a)"
proof -
  let ?slots = "\<lambda>h. slot sct (h_nr h)"
  have d: "distinct (map ?slots hs)" "\<forall>h\<in>set hs. \<forall>h'\<in>set hs. h_ref h \<noteq> ?slots h'"
    "\<forall>h\<in>set hs. mem (disable_page_protection s) (?slots h) \<noteq> None \<and>
       mem (disable_page_protection s) (h_ref h) \<noteq> None"
    using assms(2) unfolding layout_ok_def by auto
  from restore_slots_ok [OF d(1) protection_bits(1) d(2,3), of ro]
  obtain s1 where s1: "restore_slots ro sct hs (disable_page_protection s) = Some s1"
    "cr0 s1 = cr0 (disable_page_protection s)" "klog s1 = klog s"
    "\<forall>h\<in>set hs. mem s1 (?slots h) = mem s (h_ref h)"
    "\<forall>a. a \<notin> ?slots ` set hs \<longrightarrow> mem s1 a = mem s a" by auto
  then show ?thesis using assms(1) enable_cr0 [OF s1(2)] by (simp add: interceptor_end_def)
qed

lemma layout_ok_mapped:
  assumes "layout_ok ro sct hs s" "\<forall>a. mem s a \<noteq> None \<longrightarrow> mem t a \<noteq> None"
  shows "layout_ok ro sct hs t"
  using assms unfolding layout_ok_def by blast

lemma write_word_SomeD:
  "write_word ro a v s = Some s' \<Longrightarrow> b \<noteq> a \<Longrightarrow> mem s' b = mem s b"
  by (auto simp: write_word_def split: if_splits)

text \<open>A module with one function that is loaded has found a table and changed one slot and one variable.\<close>

lemma start_one_hook:
  assumes "interceptor_start ro sc [(nr, new, rf)] s = Returns 0 x s'"
  shows "(\<exists>s0. find_sys_call_table sc s = Some (Found x, s0)) \<and>
    (\<forall>b. b \<noteq> rf \<longrightarrow> b \<noteq> slot x nr \<longrightarrow> mem s' b = mem s b)"
proof -
  obtain r s0 where r: "find_sys_call_table sc s = Some (r, s0)"
    using assms by (auto simp: interceptor_start_def split: option.splits)
  then obtain sct where f: "find_sys_call_table sc s = Some (Found sct, s0)"
    using assms by (cases r) (auto simp: interceptor_start_def)
  then have "sct \<noteq> 0" using assms by (auto simp: interceptor_start_def)
  then obtain s1 s2 old where s: "write_word ro rf old s0 = Some s1" "sct = x"
    "write_word ro (slot sct nr) new (disable_page_protection s1) = Some s2"
    "s' = printk Loaded (enable_page_protection s2)"
    using assms f by (auto simp: interceptor_start_def split: bind_splits option.splits)
  have "mem s' b = mem s b" if "b \<noteq> rf" "b \<noteq> slot x nr" for b
    using write_word_SomeD [OF s(1) that(1)] write_word_SomeD [OF s(3), of b] that s(2,4) f
    by (simp add: find_Found)
  then show ?thesis using f s(2) by blast
qed

text \<open>Loading a module and unloading it.\<close>

lemma start_end_ok:
  assumes "find_sys_call_table sc s = Some (Found sct, s0)" "sct \<noteq> 0" "layout_ok ro sct hs s"
  shows "\<exists>s1 s2. interceptor_start ro sc hs s = Returns 0 sct s1 \<and>
    (\<forall>h\<in>set hs. mem s1 (slot sct (h_nr h)) = Some (h_new h) \<and>
       mem s1 (h_ref h) = mem s (slot sct (h_nr h))) \<and>
    interceptor_end ro sct hs s1 = Some s2 \<and>
    (\<forall>a. a \<notin> h_ref ` set hs \<longrightarrow> mem s2 a = mem s a) \<and>
    cr0 s1 = cr0 s OR 0x10000 \<and> cr0 s2 = cr0 s OR 0x10000"
proof -
  let ?slots = "\<lambda>h. slot sct (h_nr h)"
  from interceptor_start_ok [OF assms]
  obtain s1 where s1: "interceptor_start ro sc hs s = Returns 0 sct s1" "cr0 s1 = cr0 s OR 0x10000"
    "\<forall>h\<in>set hs. mem s1 (?slots h) = Some (h_new h) \<and> mem s1 (h_ref h) = mem s (?slots h)"
    "\<forall>a. a \<notin> ?slots ` set hs \<longrightarrow> a \<notin> h_ref ` set hs \<longrightarrow> mem s1 a = mem s a" by blast
  have "layout_ok ro sct hs s1"
  proof (rule layout_ok_mapped [OF assms(3)], intro allI impI)
    fix a assume a: "mem s a \<noteq> None"
    show "mem s1 a \<noteq> None"
    proof (cases "a \<in> ?slots ` set hs \<or> a \<in> h_ref ` set hs")
      case True
      then obtain h where "h \<in> set hs" "a = ?slots h \<or> a = h_ref h" by blast
      then show ?thesis using s1(3) assms(3) unfolding layout_ok_def by force
    next
      case False
      then show ?thesis using s1(4) a by simp
    qed
  qed
  from interceptor_end_ok [OF assms(2) this]
  obtain s2 where s2: "interceptor_end ro sct hs s1 = Some s2" "cr0 s2 = cr0 s1 OR 0x10000"
    "\<forall>h\<in>set hs. mem s2 (?slots h) = mem s1 (h_ref h)"
    "\<forall>a. a \<notin> ?slots ` set hs \<longrightarrow> mem s2 a = mem s1 a" by blast
  have "mem s2 a = mem s a" if "a \<notin> h_ref ` set hs" for a
  proof (cases "a \<in> ?slots ` set hs")
    case True
    then show ?thesis using s2(3) s1(3) by auto
  next
    case False
    then show ?thesis using s2(4) s1(4) that by simp
  qed
  moreover have "cr0 s2 = cr0 s OR 0x10000" using s2(2) s1(2) by (simp add: or.assoc)
  ultimately show ?thesis using s1 s2(1) by blast
qed

section \<open>Properties\<close>

text \<open>
  C18. The search for the table never gives up: it never comes to its \<open>return NULL\<close>, because a
  32-bit offset is always below \<open>ULLONG_MAX\<close>. From any start, it ends at the first offset whose word
  for \<open>close\<close> is not mapped, with an oops, or holds the address of \<open>sys_close\<close>, with that offset;
  and it runs for ever exactly when every one of these words is mapped and holds something else.
  So, from an aligned start, it finds the table wherever it is if all aligned words of the
  four gigabytes are mapped and only the one of the table holds \<open>sys_close\<close>.
\<close>

theorem search_never_gives_up:
  fixes a :: addr
  defines "word_at \<equiv> \<lambda>k. slot (a + 4 * of_nat k) NR_close"
  shows "table_from mm sc a \<noteq> Some Null \<and>
    (table_from mm sc a = Some (Found t) \<longleftrightarrow>
       (\<exists>k. t = a + 4 * of_nat k \<and> mm (word_at k) = Some sc \<and>
         (\<forall>j<k. \<exists>v. mm (word_at j) = Some v \<and> v \<noteq> sc))) \<and>
    (table_from mm sc a = Some Fault \<longleftrightarrow>
       (\<exists>k. mm (word_at k) = None \<and> (\<forall>j<k. \<exists>v. mm (word_at j) = Some v \<and> v \<noteq> sc))) \<and>
    (table_from mm sc a = None \<longleftrightarrow> (\<forall>k. \<exists>v. mm (word_at k) = Some v \<and> v \<noteq> sc)) \<and>
    (aligned a \<and> sole mm sc sct \<longrightarrow> table_from mm sc a = Some (Found sct))"
proof -
  note R = table_from_result [of mm sc a]
  note F = table_from_finds [of _ mm a sc] table_from_faults [of _ mm a sc]
  have null: "table_from mm sc a \<noteq> Some Null" using R by blast
  have found: "table_from mm sc a = Some (Found t) \<longleftrightarrow>
      (\<exists>k. t = a + 4 * of_nat k \<and> mm (word_at k) = Some sc \<and>
        (\<forall>j<k. \<exists>v. mm (word_at j) = Some v \<and> v \<noteq> sc))" for t
    using R [of "Found t"] F(1) unfolding word_at_def by blast
  have fault: "table_from mm sc a = Some Fault \<longleftrightarrow>
      (\<exists>k. mm (word_at k) = None \<and> (\<forall>j<k. \<exists>v. mm (word_at j) = Some v \<and> v \<noteq> sc))"
    using R [of Fault] F(2) unfolding word_at_def by blast
  have "table_from mm sc a = None \<longleftrightarrow> (\<forall>k. \<exists>v. mm (word_at k) = Some v \<and> v \<noteq> sc)"
  proof
    assume all: "\<forall>k. \<exists>v. mm (word_at k) = Some v \<and> v \<noteq> sc"
    then have no: "mm (word_at k) \<noteq> None \<and> mm (word_at k) \<noteq> Some sc" for k
      by (metis option.distinct(1) option.inject)
    show "table_from mm sc a = None" using R no unfolding word_at_def by (metis not_Some_eq)
  next
    assume none: "table_from mm sc a = None"
    have "\<exists>v. mm (word_at k) = Some v \<and> v \<noteq> sc" for k
    proof (induction k rule: less_induct)
      case (less k)
      then show ?case
        using none F [of k] unfolding word_at_def by (cases "mm (slot (a + 4 * of_nat k) NR_close)") auto
    qed
    then show "\<forall>k. \<exists>v. mm (word_at k) = Some v \<and> v \<noteq> sc" by blast
  qed
  then show ?thesis using null found fault sole_found by blast
qed

text \<open>
  C13. Loading and unloading a module is a round trip, for any of the three: with the table found
  and the module's variables outside it, loading never oopses although the table may be read-only,
  puts the new functions into their slots and the old ones into the variables; unloading then
  restores every word but those variables; and the write protection is on after either, the other
  bits of \<open>cr0\<close> being what they were.
\<close>

theorem load_unload_restores:
  assumes "find_sys_call_table sc s = Some (Found sct, s0)" "sct \<noteq> 0" "layout_ok ro sct hs s"
  shows "\<exists>s1 s2. interceptor_start ro sc hs s = Returns 0 sct s1 \<and>
    (\<forall>h\<in>set hs. mem s1 (slot sct (h_nr h)) = Some (h_new h) \<and>
       mem s1 (h_ref h) = mem s (slot sct (h_nr h))) \<and>
    interceptor_end ro sct hs s1 = Some s2 \<and>
    (\<forall>a. a \<notin> h_ref ` set hs \<longrightarrow> mem s2 a = mem s a) \<and>
    cr0 s1 = cr0 s OR 0x10000 \<and> cr0 s2 = cr0 s OR 0x10000"
  using start_end_ok [OF assms] .

text \<open>
  C20. What \<open>openclose.c\<close> changes. While it is loaded, \<open>close\<close> does and returns what the old
  function does, after one more line in the log when the caller is an ordinary user (\<open>uid\<close> at least
  1000). \<open>open\<close> passes its arguments on likewise, but for an ordinary user it first prints the name
  through the pointer as the caller gave it: where nothing can be read there, the old function would have
  answered with an error, and the new one oopses. After unloading both are the old functions.
\<close>

theorem openclose_transparent:
  fixes uid :: "32 word"
  assumes "find_sys_call_table sc s = Some (Found sct, s0)" "sct \<noteq> 0"
    and "layout_ok ro sct (openclose_hooks new1 ref1 new2 ref2) s"
    and "interceptor_start ro sc (openclose_hooks new1 ref1 new2 ref2) s = Returns 0 sct s1"
    and "interceptor_end ro sct (openclose_hooks new1 ref1 new2 ref2) s1 = Some s2"
    and "new2 \<noteq> sc" "mem s (slot sct NR_open) = Some old" "new1 \<noteq> old"
  shows "do_close code sct new2 ref2 uid fd s1 =
      Some (code sc fd (if uid < 1000 then s1 else printk (Closing uid fd) s1)) \<and>
    do_open user_str code' sct new1 ref1 uid path flags md s1 =
      (if uid < 1000 then Some (code' old (path, flags, md) s1)
       else case user_str path of
              None \<Rightarrow> None
            | Some name \<Rightarrow> Some (code' old (path, flags, md) (printk (Opening uid name) s1))) \<and>
    do_close code sct new2 ref2 uid fd s2 = Some (code sc fd s2) \<and>
    do_open user_str code' sct new1 ref1 uid path flags md s2 = Some (code' old (path, flags, md) s2)"
proof -
  let ?hs = "openclose_hooks new1 ref1 new2 ref2"
  from start_end_ok [OF assms(1-3)] assms(4,5)
  have L: "\<forall>h\<in>set ?hs. mem s1 (slot sct (h_nr h)) = Some (h_new h) \<and>
      mem s1 (h_ref h) = mem s (slot sct (h_nr h))"
    and U: "\<forall>a. a \<notin> h_ref ` set ?hs \<longrightarrow> mem s2 a = mem s a" by auto
  have sc: "mem s (slot sct NR_close) = Some sc" using find_has_close [OF assms(1)] .
  have n: "slot sct NR_close \<notin> h_ref ` set ?hs" "slot sct NR_open \<notin> h_ref ` set ?hs"
    using assms(3) by (auto simp: layout_ok_def openclose_hooks_def)
  have m: "mem s1 (slot sct NR_close) = Some new2" "mem s1 ref2 = Some sc"
    "mem s1 (slot sct NR_open) = Some new1" "mem s1 ref1 = Some old"
    using L sc assms(7) by (auto simp: openclose_hooks_def)
  have "do_close code sct new2 ref2 uid fd s1 =
      Some (code sc fd (if uid < 1000 then s1 else printk (Closing uid fd) s1))"
    using m by (auto simp: do_close_def new_close_def Let_def not_less)
  moreover have "do_open user_str code' sct new1 ref1 uid path flags md s1 =
      (if uid < 1000 then Some (code' old (path, flags, md) s1)
       else case user_str path of
              None \<Rightarrow> None
            | Some name \<Rightarrow> Some (code' old (path, flags, md) (printk (Opening uid name) s1)))"
    using m by (auto simp: do_open_def new_open_def not_less split: option.split)
  moreover have "do_close code sct new2 ref2 uid fd s2 = Some (code sc fd s2)"
    using U n sc assms(6) by (simp add: do_close_def)
  moreover have "do_open user_str code' sct new1 ref1 uid path flags md s2 =
      Some (code' old (path, flags, md) s2)"
    using U n assms(7,8) by (simp add: do_open_def)
  ultimately show ?thesis by blast
qed

text \<open>The word the search finds while \<open>openclose.c\<close> is loaded.\<close>

lemma openclose_moves_sole:
  assumes "sole (mem s) sc sct" "aligned ref2" "new1 \<noteq> sc" "new2 \<noteq> sc"
    and "layout_ok ro sct (openclose_hooks new1 ref1 new2 ref2) s"
    and "\<forall>h\<in>set (openclose_hooks new1 ref1 new2 ref2). mem s1 (slot sct (h_nr h)) = Some (h_new h) \<and>
      mem s1 (h_ref h) = mem s (slot sct (h_nr h))"
    and "\<forall>a. a \<notin> {slot sct NR_open, slot sct NR_close, ref1, ref2} \<longrightarrow> mem s1 a = mem s a"
  shows "sole (mem s1) sc (ref2 - slot 0 NR_close)"
proof -
  let ?fake = "ref2 - slot 0 NR_close"
  have t: "aligned sct" using assms(1) by (simp add: sole_def)
  have words: "\<exists>v. mem s a = Some v \<and> (v = sc \<longleftrightarrow> a = slot sct NR_close)" if "aligned a" for a
    using assms(1) that by (simp add: sole_def)
  have d: "ref1 \<noteq> ref2" "slot sct NR_open \<noteq> slot sct NR_close" "ref2 \<noteq> slot sct NR_close"
    "ref1 \<noteq> slot sct NR_close"
    using assms(5) by (auto simp: layout_ok_def openclose_hooks_def)
  have sc: "mem s (slot sct NR_close) = Some sc" using words [of "slot sct NR_close"] aligned_slot [OF t] by blast
  obtain old where old: "mem s (slot sct NR_open) = Some old" "old \<noteq> sc"
    using words [OF aligned_slot [OF t, of NR_open]] d(2) by blast
  have m: "mem s1 (slot sct NR_close) = Some new2" "mem s1 (slot sct NR_open) = Some new1"
    "mem s1 ref2 = Some sc" "mem s1 ref1 = Some old"
    using assms(6) sc old by (auto simp: openclose_hooks_def)
  have fs: "slot ?fake NR_close = ref2" by (simp add: slot_def)
  have af: "aligned ?fake"
    using aligned_diff [OF assms(2), of "slot 0 NR_close"] aligned_slot [of 0 NR_close]
    by (simp add: aligned_def)
  show ?thesis
    unfolding sole_def
  proof (intro conjI allI impI)
    fix a assume a: "aligned a"
    consider "a = slot sct NR_close" | "a = slot sct NR_open" | "a = ref2" | "a = ref1"
      | (other) "a \<notin> {slot sct NR_open, slot sct NR_close, ref1, ref2}" by blast
    then show "\<exists>v. mem s1 a = Some v \<and> (v = sc \<longleftrightarrow> a = slot ?fake NR_close)"
    proof cases
      case other
      then have "mem s1 a = mem s a" using assms(7) by blast
      then show ?thesis using words [OF a] other fs by auto
    qed (use m d fs assms(3,4) old words [OF a] in auto)
  qed (rule af)
qed

text \<open>
  C19. A module cannot be loaded after \<open>openclose.c\<close>, which takes \<open>sys_close\<close> out of the table: if loading
  \<open>intercept.c\<close> then returns success at all, it has taken something else for the table, and the slot
  of the call it is to replace is unchanged. In a memory in which \<open>sys_close\<close> was only in the table,
  what it takes for the table are the words before the variable of \<open>openclose.c\<close> for the old \<open>close\<close>.
\<close>

theorem openclose_misleads_intercept:
  assumes "find_sys_call_table sc s = Some (Found sct, s0)" "sct \<noteq> 0"
    and "layout_ok ro sct (openclose_hooks new1 ref1 new2 ref2) s" "new1 \<noteq> sc" "new2 \<noteq> sc"
    and "interceptor_start ro sc (openclose_hooks new1 ref1 new2 ref2) s = Returns 0 sct s1"
    and "slot sct NR_cs3013_syscall2 \<notin> {ref, ref1, ref2}"
  shows "(intercept_start ro sc new ref s1 = Returns 0 x s2 \<longrightarrow>
       x \<noteq> sct \<and> mem s2 (slot sct NR_cs3013_syscall2) = mem s (slot sct NR_cs3013_syscall2)) \<and>
    (sole (mem s) sc sct \<and> aligned ref2 \<longrightarrow>
       find_sys_call_table sc s1 =
         Some (Found (ref2 - slot 0 NR_close), printk (Found_at (ref2 - slot 0 NR_close)) s1))"
proof -
  let ?hs = "openclose_hooks new1 ref1 new2 ref2"
  from interceptor_start_ok [OF assms(1-3)] assms(6)
  have L: "\<forall>h\<in>set ?hs. mem s1 (slot sct (h_nr h)) = Some (h_new h) \<and>
      mem s1 (h_ref h) = mem s (slot sct (h_nr h))"
    and F: "\<forall>a. a \<notin> {slot sct NR_open, slot sct NR_close, ref1, ref2} \<longrightarrow> mem s1 a = mem s a"
    by (auto simp: openclose_hooks_def)
  have "slot sct NR_cs3013_syscall2 \<noteq> slot sct NR_open" "slot sct NR_cs3013_syscall2 \<noteq> slot sct NR_close"
    by (simp_all add: slot_def NR_open_def NR_close_def NR_cs3013_syscall2_def)
  then have same: "mem s1 (slot sct NR_cs3013_syscall2) = mem s (slot sct NR_cs3013_syscall2)"
    using F assms(7) by auto
  have "x \<noteq> sct \<and> mem s2 (slot sct NR_cs3013_syscall2) = mem s (slot sct NR_cs3013_syscall2)"
    if "intercept_start ro sc new ref s1 = Returns 0 x s2"
  proof -
    from start_one_hook [of ro sc NR_cs3013_syscall2 new ref s1 x s2] that
    obtain s0' where f: "find_sys_call_table sc s1 = Some (Found x, s0')"
      and k: "\<forall>b. b \<noteq> ref \<longrightarrow> b \<noteq> slot x NR_cs3013_syscall2 \<longrightarrow> mem s2 b = mem s1 b"
      by (auto simp: intercept_start_def intercept_hooks_def)
    have "mem s1 (slot sct NR_close) = Some new2" using L by (auto simp: openclose_hooks_def)
    then have "x \<noteq> sct" using find_has_close [OF f] assms(5) by auto
    then show ?thesis using k same assms(7) by auto
  qed
  moreover have "find_sys_call_table sc s1 =
      Some (Found (ref2 - slot 0 NR_close), printk (Found_at (ref2 - slot 0 NR_close)) s1)"
    if "sole (mem s) sc sct" "aligned ref2"
    by (rule sole_find [OF openclose_moves_sole [OF that assms(4,5,3) L F]])
  ultimately show ?thesis by blast
qed

section \<open>Witnesses\<close>

text \<open>A kernel with its table in a read-only page and a module above it.\<close>

definition demo_table :: addr where "demo_table = 0xC1000000"
definition demo_ro :: "addr \<Rightarrow> bool" where "demo_ro a \<longleftrightarrow> 0xC1000000 \<le> a \<and> a < 0xC2000000"

definition demo_kernel :: kernel where
  "demo_kernel = \<lparr>mem = (\<lambda>_. Some 0)(slot demo_table NR_close \<mapsto> 99), cr0 = 0x80010000, klog = []\<rparr>"

definition demo_hooks :: hooks where
  "demo_hooks = openclose_hooks 11 0xD0000000 12 0xD0000004"

lemma demo_sole: "sole (mem demo_kernel) 99 demo_table"
  by (simp add: sole_def aligned_def demo_kernel_def demo_table_def)

lemma demo_layout: "layout_ok demo_ro demo_table (openclose_hooks 11 0xD0000000 12 0xD0000004) demo_kernel"
  by (simp add: layout_ok_def demo_ro_def demo_kernel_def demo_table_def openclose_hooks_def slot_def
      NR_open_def NR_close_def)

lemma demo_table_pos: "demo_table \<noteq> 0"
  by (simp add: demo_table_def)

lemmas demo_find = sole_find [OF demo_sole]

corollary search_never_gives_up_witness:
  "table_from (mem demo_kernel) 99 PAGE_OFFSET = Some (Found demo_table) \<and>
   table_from (\<lambda>_. Some 0) 99 PAGE_OFFSET = None \<and>
   table_from (\<lambda>_. None) 99 PAGE_OFFSET = Some Fault"
  using search_never_gives_up [of "mem demo_kernel" 99 PAGE_OFFSET demo_table demo_table] demo_sole
    search_never_gives_up [of "\<lambda>_. Some 0" 99 PAGE_OFFSET demo_table demo_table]
    search_never_gives_up [of "\<lambda>_. None" 99 PAGE_OFFSET demo_table demo_table]
  by (auto simp: aligned_PAGE_OFFSET)

corollary load_unload_restores_witness:
  "\<exists>s1 s2. interceptor_start demo_ro 99 demo_hooks demo_kernel = Returns 0 demo_table s1 \<and>
     interceptor_end demo_ro demo_table demo_hooks s1 = Some s2 \<and>
     mem s2 (slot demo_table NR_close) = Some 99"
proof -
  have "slot demo_table NR_close \<notin> h_ref ` set demo_hooks"
    by (simp add: demo_hooks_def openclose_hooks_def slot_def demo_table_def NR_close_def)
  moreover have "mem demo_kernel (slot demo_table NR_close) = Some 99" by (simp add: demo_kernel_def)
  ultimately show ?thesis
    using load_unload_restores [OF demo_find demo_table_pos demo_layout] unfolding demo_hooks_def by metis
qed

lemma demo_loaded:
  "\<exists>s1 s2. interceptor_start demo_ro 99 demo_hooks demo_kernel = Returns 0 demo_table s1 \<and>
     interceptor_end demo_ro demo_table demo_hooks s1 = Some s2"
proof -
  show ?thesis using start_end_ok [OF demo_find demo_table_pos demo_layout] unfolding demo_hooks_def by blast
qed

corollary openclose_transparent_witness:
  "\<exists>s1. interceptor_start demo_ro 99 demo_hooks demo_kernel = Returns 0 demo_table s1 \<and>
     do_close (\<lambda>f fd s. (if f = 99 then 7 else 8, s)) demo_table 12 0xD0000004 1000 3 s1
       = Some (7, printk (Closing 1000 3) s1) \<and>
     do_open (\<lambda>a. if a = 0x8000 then Some ''f'' else None) (\<lambda>f x s. (if f = 0 then 5 else 6, s))
       demo_table 11 0xD0000000 1000 0x8000 0 0 s1 = Some (5, printk (Opening 1000 ''f'') s1) \<and>
     do_open (\<lambda>a. if a = 0x8000 then Some ''f'' else None) (\<lambda>f x s. (if f = 0 then 5 else 6, s))
       demo_table 11 0xD0000000 1000 0xFFFFFFFC 0 0 s1 = None"
proof -
  obtain s1 s2 where s: "interceptor_start demo_ro 99 demo_hooks demo_kernel = Returns 0 demo_table s1"
    "interceptor_end demo_ro demo_table demo_hooks s1 = Some s2" using demo_loaded by blast
  have o: "mem demo_kernel (slot demo_table NR_open) = Some 0"
    by (simp add: demo_kernel_def slot_def NR_open_def NR_close_def demo_table_def)
  note T = openclose_transparent [OF demo_find demo_table_pos demo_layout s [unfolded demo_hooks_def] _ o,
      where code = "\<lambda>f fd s. (if f = 99 then 7 else 8, s)" and uid = 1000 and fd = 3 and
        user_str = "\<lambda>a. if a = 0x8000 then Some ''f'' else None" and
        code' = "\<lambda>f x s. (if f = 0 then 5 else 6, s)" and flags = 0 and md = 0]
  show ?thesis using T [where path = "0x8000"] T [where path = "0xFFFFFFFC"] s(1) by auto
qed

corollary openclose_misleads_intercept_witness:
  "\<exists>s1. interceptor_start demo_ro 99 demo_hooks demo_kernel = Returns 0 demo_table s1 \<and>
     find_sys_call_table 99 s1 = Some (Found (0xD0000004 - 24), printk (Found_at (0xD0000004 - 24)) s1) \<and>
     (\<forall>s2. intercept_start demo_ro 99 13 0xD0000008 s1 \<noteq> Returns 0 demo_table s2)"
proof -
  obtain s1 s2 where s: "interceptor_start demo_ro 99 demo_hooks demo_kernel = Returns 0 demo_table s1"
    "interceptor_end demo_ro demo_table demo_hooks s1 = Some s2" using demo_loaded by blast
  have a: "(11 :: addr) \<noteq> 99" "(12 :: addr) \<noteq> 99"
    "slot demo_table NR_cs3013_syscall2 \<notin> {0xD0000008, 0xD0000000, 0xD0000004}"
    and al: "aligned 0xD0000004"
    by (simp_all add: aligned_def slot_def NR_close_def demo_table_def NR_cs3013_syscall2_def)
  note m = openclose_misleads_intercept [OF demo_find demo_table_pos demo_layout a(1,2)
        s(1) [unfolded demo_hooks_def] a(3), of 13]
  have "find_sys_call_table 99 s1 =
      Some (Found (0xD0000004 - slot 0 NR_close), printk (Found_at (0xD0000004 - slot 0 NR_close)) s1)"
    using m demo_sole al by blast
  moreover have "\<forall>s2. intercept_start demo_ro 99 13 0xD0000008 s1 \<noteq> Returns 0 demo_table s2"
    using m by blast
  ultimately show ?thesis using s(1) by (simp add: slot_def NR_close_def)
qed

end
