(* ===== verification/ProcInfo.thy ===== *)
theory ProcInfo
  imports Prelude "HOL-Library.Word"
begin

text \<open>
  The system call of \<open>project2/intercept.c\<close>: \<open>new_sys_cs3013_syscall2\<close> collects what it says about a
  process from its \<open>task_struct\<close> and from the circular lists of its children and siblings. The lists
  are pointers: each node has a next and a previous one, and the loops are the kernel's
  \<open>list_for_each\<close> and \<open>list_for_each_prev\<close>, which end when they are back at the node they started
  from. A node is taken for the \<open>sibling\<close> node of a task, as \<open>list_entry\<close> does; for the head of the list in
  the parent that is wrong, and what is read there is whatever \<open>task_of\<close> gives.
\<close>

section \<open>Data\<close>

type_synonym node = nat

text \<open>The fields that are read of a task, the times converted to nanoseconds and microseconds.\<close>

record ktask =
  k_pid :: int
  k_start :: "64 word"
  k_utime :: "64 word"
  k_stime :: "64 word"

record links =
  nxt :: "node \<Rightarrow> node"
  prv :: "node \<Rightarrow> node"
  task_of :: "node \<Rightarrow> ktask"

record current =
  c_task :: ktask
  c_state :: int
  c_parent_pid :: int
  c_uid :: "32 word"
  c_children :: node      \<comment> \<open>\<open>&curr_info->children\<close>\<close>
  c_sibling :: node       \<comment> \<open>\<open>&curr_info->sibling\<close>\<close>

record processinfo =
  state :: int
  pid :: int
  parent_pid :: int
  youngest_child :: int
  younger_sibling :: int
  older_sibling :: int
  uid :: "32 word"
  start_time :: "64 word"
  user_time :: "64 word"
  sys_time :: "64 word"
  cutime :: "64 word"
  cstime :: "64 word"

section \<open>The code\<close>

text \<open>The loop of both macros, from \<open>pos\<close> on; a list that does not lead back is an endless loop.\<close>

partial_function (option) list_loop ::
  "(node \<Rightarrow> node) \<Rightarrow> node \<Rightarrow> (node \<Rightarrow> 'a \<Rightarrow> 'a) \<Rightarrow> node \<Rightarrow> 'a \<Rightarrow> 'a option" where
  "list_loop step head body pos acc =
     (if pos = head then Some acc else list_loop step head body (step pos) (body pos acc))"

definition list_for_each :: "links \<Rightarrow> node \<Rightarrow> (node \<Rightarrow> 'a \<Rightarrow> 'a) \<Rightarrow> 'a \<Rightarrow> 'a option" where
  "list_for_each L head body acc = list_loop (nxt L) head body (nxt L head) acc"

definition list_for_each_prev :: "links \<Rightarrow> node \<Rightarrow> (node \<Rightarrow> 'a \<Rightarrow> 'a) \<Rightarrow> 'a \<Rightarrow> 'a option" where
  "list_for_each_prev L head body acc = list_loop (prv L) head body (prv L head) acc"

text \<open>The body of the first two loops, on \<open>cutime\<close>, \<open>cstime\<close>, \<open>tmp_st1\<close> (unsigned) and \<open>tmp_pid1\<close>.\<close>

definition child_body ::
  "links \<Rightarrow> node \<Rightarrow> 64 word \<times> 64 word \<times> 64 word \<times> int \<Rightarrow> 64 word \<times> 64 word \<times> 64 word \<times> int" where
  "child_body L n = (\<lambda>(cu, cs, st1, pid1).
     let t = task_of L n; time_ns = k_start t in
     (cu + k_utime t, cs + k_stime t,
      (if st1 > time_ns then time_ns else st1), (if st1 > time_ns then k_pid t else pid1)))"

text \<open>The body of the last two, on \<open>tmp_st1\<close>, \<open>tmp_pid1\<close>, \<open>tmp_st2\<close>, \<open>tmp_pid2\<close>: the comparison with the
  start time is signed, those with the variables are unsigned.\<close>

definition sibling_body ::
  "links \<Rightarrow> 64 word \<Rightarrow> node \<Rightarrow> 64 word \<times> int \<times> 64 word \<times> int \<Rightarrow> 64 word \<times> int \<times> 64 word \<times> int" where
  "sibling_body L start n = (\<lambda>(st1, pid1, st2, pid2).
     let t = task_of L n; time_ns = k_start t in
     if time_ns <s start \<and> st1 < time_ns then (time_ns, k_pid t, st2, pid2)
     else if start <s time_ns \<and> st2 > time_ns then (st1, pid1, time_ns, k_pid t)
     else (st1, pid1, st2, pid2))"

text \<open>The value returned, and the structure when it could be copied to the user.\<close>

definition new_sys_cs3013_syscall2 ::
  "links \<Rightarrow> current \<Rightarrow> bool \<Rightarrow> (int \<times> processinfo option) option" where
  "new_sys_cs3013_syscall2 L c copy_ok =
     (case list_for_each L (c_children c) (child_body L) (0, 0, - 1, - 1) of
        None \<Rightarrow> None
      | Some acc \<Rightarrow>
     (case list_for_each_prev L (c_children c) (child_body L) acc of
        None \<Rightarrow> None
      | Some (cu, cs, st1, pid1) \<Rightarrow>
     (case list_for_each L (c_sibling c) (sibling_body L (k_start (c_task c))) (0, - 1, - 1, - 1) of
        None \<Rightarrow> None
      | Some acc' \<Rightarrow>
     (case list_for_each_prev L (c_sibling c) (sibling_body L (k_start (c_task c))) acc' of
        None \<Rightarrow> None
      | Some (st1', pid1', st2', pid2') \<Rightarrow>
          let pinfo =
            \<lparr>state = c_state c, pid = k_pid (c_task c), parent_pid = c_parent_pid c,
             youngest_child = pid1, younger_sibling = pid2',
             older_sibling = (if pid1' = 0 then - 1 else pid1'),
             uid = c_uid c, start_time = k_start (c_task c),
             user_time = k_utime (c_task c), sys_time = k_stime (c_task c),
             cutime = cu, cstime = cs\<rparr>
          in Some (if copy_ok then (1, Some pinfo) else (EFAULT, None))))))"

section \<open>Circular lists\<close>

text \<open>From \<open>p\<close> the steps visit \<open>xs\<close> and then the head.\<close>

fun chain :: "(node \<Rightarrow> node) \<Rightarrow> node \<Rightarrow> node list \<Rightarrow> node \<Rightarrow> bool" where
  "chain step p [] head \<longleftrightarrow> p = head"
| "chain step p (x # xs) head \<longleftrightarrow> p = x \<and> x \<noteq> head \<and> chain step (step x) xs head"

definition ring :: "links \<Rightarrow> node \<Rightarrow> node list \<Rightarrow> bool" where
  "ring L head xs \<longleftrightarrow> chain (nxt L) (nxt L head) xs head \<and> chain (prv L) (prv L head) (rev xs) head"

lemma list_loop_chain: "chain step p xs head \<Longrightarrow> list_loop step head body p acc = Some (fold body xs acc)"
proof (induction xs arbitrary: p acc)
  case Nil
  then show ?case by (simp add: list_loop.simps)
next
  case (Cons x xs)
  then show ?case by (subst list_loop.simps) simp
qed

lemma ring_loops:
  assumes "ring L head xs"
  shows "list_for_each L head body acc = Some (fold body xs acc)"
    and "list_for_each_prev L head body acc = Some (fold body (rev xs) acc)"
  using assms by (simp_all add: ring_def list_for_each_def list_for_each_prev_def list_loop_chain)

section \<open>Least and greatest\<close>

text \<open>The four scans, as choices of a task with the least or greatest start time.\<close>

definition scan_min :: "links \<Rightarrow> (64 word \<Rightarrow> bool) \<Rightarrow> node \<Rightarrow> 64 word \<times> int \<Rightarrow> 64 word \<times> int" where
  "scan_min L P n = (\<lambda>(st, p).
     if P (k_start (task_of L n)) \<and> st > k_start (task_of L n)
     then (k_start (task_of L n), k_pid (task_of L n)) else (st, p))"

definition scan_max :: "links \<Rightarrow> (64 word \<Rightarrow> bool) \<Rightarrow> node \<Rightarrow> 64 word \<times> int \<Rightarrow> 64 word \<times> int" where
  "scan_max L P n = (\<lambda>(st, p).
     if P (k_start (task_of L n)) \<and> st < k_start (task_of L n)
     then (k_start (task_of L n), k_pid (task_of L n)) else (st, p))"

lemma scan_min_apply [simp]:
  "scan_min L P n (st, p) =
     (if P (k_start (task_of L n)) \<and> st > k_start (task_of L n)
      then (k_start (task_of L n), k_pid (task_of L n)) else (st, p))"
  by (simp add: scan_min_def)

lemma scan_max_apply [simp]:
  "scan_max L P n (st, p) =
     (if P (k_start (task_of L n)) \<and> st < k_start (task_of L n)
      then (k_start (task_of L n), k_pid (task_of L n)) else (st, p))"
  by (simp add: scan_max_def)

lemma fold_scan_min:
  assumes "fold (scan_min L P) xs (st, p) = (st', p')"
  shows "st' \<le> st \<and> (\<forall>n\<in>set xs. P (k_start (task_of L n)) \<longrightarrow> st' \<le> k_start (task_of L n)) \<and>
    (st' = st \<and> p' = p \<or>
     (\<exists>n\<in>set xs. P (k_start (task_of L n)) \<and> st' = k_start (task_of L n) \<and> st' < st \<and>
        p' = k_pid (task_of L n)))"
  using assms
proof (induction xs arbitrary: st p)
  case (Cons n xs)
  let ?k = "k_start (task_of L n)"
  show ?case
  proof (cases "P ?k \<and> st > ?k")
    case True
    then have "fold (scan_min L P) xs (?k, k_pid (task_of L n)) = (st', p')"
      using Cons.prems by simp
    from Cons.IH [OF this] show ?thesis using True by (auto intro: order.trans less_imp_le)
  next
    case False
    then have "fold (scan_min L P) xs (st, p) = (st', p')"
      using Cons.prems by (auto split: if_splits)
    from Cons.IH [OF this] show ?thesis using False by (auto intro: order.trans)
  qed
qed simp

lemma fold_scan_max:
  assumes "fold (scan_max L P) xs (st, p) = (st', p')"
  shows "st \<le> st' \<and> (\<forall>n\<in>set xs. P (k_start (task_of L n)) \<longrightarrow> k_start (task_of L n) \<le> st') \<and>
    (st' = st \<and> p' = p \<or>
     (\<exists>n\<in>set xs. P (k_start (task_of L n)) \<and> st' = k_start (task_of L n) \<and> st < st' \<and>
        p' = k_pid (task_of L n)))"
  using assms
proof (induction xs arbitrary: st p)
  case (Cons n xs)
  let ?k = "k_start (task_of L n)"
  show ?case
  proof (cases "P ?k \<and> st < ?k")
    case True
    then have "fold (scan_max L P) xs (?k, k_pid (task_of L n)) = (st', p')"
      using Cons.prems by simp
    from Cons.IH [OF this] show ?thesis using True by (auto intro: order.trans less_imp_le)
  next
    case False
    then have "fold (scan_max L P) xs (st, p) = (st', p')"
      using Cons.prems by (auto split: if_splits)
    from Cons.IH [OF this] show ?thesis using False by (auto intro: order.trans)
  qed
qed simp

section \<open>What the loops compute\<close>

lemma fold_child:
  "fold (child_body L) xs (cu, cs, st, p) =
     (cu + (\<Sum>n\<leftarrow>xs. k_utime (task_of L n)), cs + (\<Sum>n\<leftarrow>xs. k_stime (task_of L n)),
      fold (scan_min L (\<lambda>_. True)) xs (st, p))"
  by (induction xs arbitrary: cu cs st p) (simp_all add: child_body_def Let_def)

definition time_ok :: "64 word \<Rightarrow> bool" where
  "time_ok w \<longleftrightarrow> 0 < uint w \<and> uint w < 2 ^ 63"

lemma sless_time_ok:
  assumes "time_ok a" "time_ok b"
  shows "a <s b \<longleftrightarrow> a < b"
proof -
  have "sint a = uint a" "sint b = uint b"
    using assms by (simp_all add: time_ok_def sint_uint signed_take_bit_int_eq_self)
  then show ?thesis by (simp add: word_sless_alt word_less_def)
qed

lemma fold_sibling:
  assumes "time_ok start" "\<forall>n\<in>set xs. time_ok (k_start (task_of L n))"
  shows "fold (sibling_body L start) xs (s1, p1, s2, p2) =
    (fst (fold (scan_max L (\<lambda>k. k < start)) xs (s1, p1)),
     snd (fold (scan_max L (\<lambda>k. k < start)) xs (s1, p1)),
     fold (scan_min L (\<lambda>k. start < k)) xs (s2, p2))"
  using assms(2)
proof (induction xs arbitrary: s1 p1 s2 p2)
  case (Cons n xs)
  let ?k = "k_start (task_of L n)"
  have "?k <s start \<longleftrightarrow> ?k < start" "start <s ?k \<longleftrightarrow> start < ?k"
    using Cons.prems assms(1) sless_time_ok by simp_all
  then show ?case using Cons by (auto simp: sibling_body_def Let_def)
qed simp

text \<open>The call, with its loops replaced by these.\<close>

lemma new_sys_eq:
  assumes "ring L (c_children c) xs" "ring L (c_sibling c) ys"
    and "time_ok (k_start (c_task c))" "\<forall>n\<in>set ys. time_ok (k_start (task_of L n))"
    and "fold (scan_min L (\<lambda>_. True)) (xs @ rev xs) (- 1, - 1) = (st1, youngest)"
    and "fold (scan_max L (\<lambda>k. k < k_start (c_task c))) (ys @ rev ys) (0, - 1) = (st1', older)"
    and "fold (scan_min L (\<lambda>k. k_start (c_task c) < k)) (ys @ rev ys) (- 1, - 1) = (st2', younger)"
  shows "new_sys_cs3013_syscall2 L c copy_ok = Some (if copy_ok then (1, Some
    \<lparr>state = c_state c, pid = k_pid (c_task c), parent_pid = c_parent_pid c,
     youngest_child = youngest, younger_sibling = younger,
     older_sibling = (if older = 0 then - 1 else older),
     uid = c_uid c, start_time = k_start (c_task c),
     user_time = k_utime (c_task c), sys_time = k_stime (c_task c),
     cutime = 2 * (\<Sum>n\<leftarrow>xs. k_utime (task_of L n)),
     cstime = 2 * (\<Sum>n\<leftarrow>xs. k_stime (task_of L n))\<rparr>) else (EFAULT, None))"
proof -
  let ?start = "k_start (c_task c)"
  have two: "(\<Sum>n\<leftarrow>xs @ rev xs. f n) = 2 * (\<Sum>n\<leftarrow>xs. f n)" for f :: "node \<Rightarrow> 64 word"
    by (simp add: rev_map [symmetric] sum_list_rev)
  have "fold (child_body L) (xs @ rev xs) (0, 0, - 1, - 1) =
      (2 * (\<Sum>n\<leftarrow>xs. k_utime (task_of L n)), 2 * (\<Sum>n\<leftarrow>xs. k_stime (task_of L n)), st1, youngest)"
    unfolding fold_child assms(5) two by simp
  then have C: "fold (child_body L) (rev xs) (fold (child_body L) xs (0, 0, - 1, - 1)) =
      (2 * (\<Sum>n\<leftarrow>xs. k_utime (task_of L n)), 2 * (\<Sum>n\<leftarrow>xs. k_stime (task_of L n)), st1, youngest)"
    by (simp only: fold_append comp_apply)
  have "\<forall>n\<in>set (ys @ rev ys). time_ok (k_start (task_of L n))" using assms(4) by simp
  from fold_sibling [OF assms(3) this, of 0 "- 1" "- 1" "- 1"]
  have "fold (sibling_body L ?start) (ys @ rev ys) (0, - 1, - 1, - 1) = (st1', older, st2', younger)"
    unfolding assms(6,7) by simp
  then have D: "fold (sibling_body L ?start) (rev ys) (fold (sibling_body L ?start) ys (0, - 1, - 1, - 1)) =
      (st1', older, st2', younger)"
    by (simp only: fold_append comp_apply)
  show ?thesis
    unfolding new_sys_cs3013_syscall2_def ring_loops [OF assms(1)] ring_loops [OF assms(2)]
      option.case prod.case C D Let_def by (rule refl)
qed

text \<open>What the call says of the process itself and of its oldest child, for any list of siblings it can
  walk through.\<close>

lemma new_sys_youngest:
  assumes "ring L (c_children c) xs" "ring L (c_sibling c) ys"
  obtains info where "new_sys_cs3013_syscall2 L c copy_ok =
      Some (if copy_ok then (1, Some info) else (EFAULT, None))"
    "pid info = k_pid (c_task c)" "parent_pid info = c_parent_pid c"
    "youngest_child info = snd (fold (scan_min L (\<lambda>_. True)) (xs @ rev xs) (- 1, - 1))"
proof -
  obtain st1 y where y: "fold (scan_min L (\<lambda>_. True)) (xs @ rev xs) (- 1, - 1) = (st1, y)" by fastforce
  obtain cu cs where C: "fold (child_body L) (rev xs) (fold (child_body L) xs (0, 0, - 1, - 1)) = (cu, cs, st1, y)"
    using fold_child [of L "xs @ rev xs" 0 0 "- 1" "- 1"] y by (simp add: fold_append)
  obtain s1 p1 s2 p2 where D: "fold (sibling_body L (k_start (c_task c))) (rev ys)
      (fold (sibling_body L (k_start (c_task c))) ys (0, - 1, - 1, - 1)) = (s1, p1, s2, p2)"
    by (metis surj_pair)
  let ?i = "\<lparr>state = c_state c, pid = k_pid (c_task c), parent_pid = c_parent_pid c,
    youngest_child = y, younger_sibling = p2, older_sibling = (if p1 = 0 then - 1 else p1),
    uid = c_uid c, start_time = k_start (c_task c), user_time = k_utime (c_task c),
    sys_time = k_stime (c_task c), cutime = cu, cstime = cs\<rparr>"
  have "new_sys_cs3013_syscall2 L c copy_ok = Some (if copy_ok then (1, Some ?i) else (EFAULT, None))"
    unfolding new_sys_cs3013_syscall2_def ring_loops [OF assms(1)] ring_loops [OF assms(2)]
      option.case prod.case C D Let_def by (rule refl)
  then show thesis by (rule that) (use y in simp_all)
qed

lemma scan_min_result:
  assumes "fold (scan_min L P) (xs @ rev xs) (- 1, - 1) = (st', p')"
    and "\<forall>n\<in>set xs. time_ok (k_start (task_of L n))"
  shows "(\<forall>n\<in>set xs. \<not> P (k_start (task_of L n))) \<and> p' = - 1 \<or>
    (\<exists>n\<in>set xs. P (k_start (task_of L n)) \<and> p' = k_pid (task_of L n) \<and>
      (\<forall>m\<in>set xs. P (k_start (task_of L m)) \<longrightarrow> k_start (task_of L n) \<le> k_start (task_of L m)))"
proof -
  note f = fold_scan_min [OF assms(1)]
  have "\<not> (- 1 :: 64 word) \<le> k" if "time_ok k" for k
    using that by (auto simp: time_ok_def word_le_def unsigned_minus_1_eq_mask mask_eq_exp_minus_1)
  then show ?thesis using f assms(2) by auto
qed

lemma scan_max_result:
  assumes "fold (scan_max L P) (xs @ rev xs) (0, - 1) = (st', p')"
    and "\<forall>n\<in>set xs. time_ok (k_start (task_of L n))"
  shows "(\<forall>n\<in>set xs. \<not> P (k_start (task_of L n))) \<and> p' = - 1 \<or>
    (\<exists>n\<in>set xs. P (k_start (task_of L n)) \<and> p' = k_pid (task_of L n) \<and>
      (\<forall>m\<in>set xs. P (k_start (task_of L m)) \<longrightarrow> k_start (task_of L m) \<le> k_start (task_of L n)))"
proof -
  note f = fold_scan_max [OF assms(1)]
  have "\<not> k \<le> (0 :: 64 word)" if "time_ok k" for k
    using that by (auto simp: time_ok_def word_le_def)
  then show ?thesis using f assms(2) by auto
qed

section \<open>Properties\<close>

text \<open>
  C21. What the call says of the children: with a list of children that is a proper ring, it ends
  and returns 1, or the positive \<open>EFAULT\<close> when the structure cannot be copied; the two CPU times of
  the children are twice their sums, since both passes go over all children; and \<open>youngest_child\<close> is
  -1 without children, else the pid of a child that started first, which is the oldest.
\<close>

theorem procinfo_children:
  assumes "ring L (c_children c) xs" "ring L (c_sibling c) ys"
    and "time_ok (k_start (c_task c))" "\<forall>n\<in>set (xs @ ys). time_ok (k_start (task_of L n))"
  shows "new_sys_cs3013_syscall2 L c False = Some (EFAULT, None) \<and>
    (\<exists>info. new_sys_cs3013_syscall2 L c True = Some (1, Some info) \<and>
       cutime info = 2 * (\<Sum>n\<leftarrow>xs. k_utime (task_of L n)) \<and>
       cstime info = 2 * (\<Sum>n\<leftarrow>xs. k_stime (task_of L n)) \<and>
       (xs = [] \<longrightarrow> youngest_child info = - 1) \<and>
       (xs \<noteq> [] \<longrightarrow> (\<exists>n\<in>set xs. youngest_child info = k_pid (task_of L n) \<and>
          (\<forall>m\<in>set xs. k_start (task_of L n) \<le> k_start (task_of L m)))))"
proof -
  obtain st1 y where y: "fold (scan_min L (\<lambda>_. True)) (xs @ rev xs) (- 1, - 1) = (st1, y)" by fastforce
  obtain st1' o' where o: "fold (scan_max L (\<lambda>k. k < k_start (c_task c))) (ys @ rev ys) (0, - 1) = (st1', o')"
    by fastforce
  obtain st2' z where z: "fold (scan_min L (\<lambda>k. k_start (c_task c) < k)) (ys @ rev ys) (- 1, - 1) = (st2', z)"
    by fastforce
  have t: "\<forall>n\<in>set ys. time_ok (k_start (task_of L n))" "\<forall>n\<in>set xs. time_ok (k_start (task_of L n))"
    using assms(4) by auto
  have "(xs = [] \<longrightarrow> y = - 1) \<and> (xs \<noteq> [] \<longrightarrow> (\<exists>n\<in>set xs. y = k_pid (task_of L n) \<and>
          (\<forall>m\<in>set xs. k_start (task_of L n) \<le> k_start (task_of L m))))"
    using scan_min_result [OF y t(2)] by auto
  then show ?thesis
    using new_sys_eq [OF assms(1-3) t(1) y o z, of True] new_sys_eq [OF assms(1-3) t(1) y o z, of False]
    by simp
qed

text \<open>
  C22. What the call says of the siblings: \<open>ys\<close> being the nodes of the parent's list other than the
  process's own, among them the head of the list, taken for a task. \<open>older_sibling\<close> is the pid of
  the last one started before the process, \<open>younger_sibling\<close> that of the first one started after it,
  and -1 when there is none (also for an older sibling with pid 0).
\<close>

theorem procinfo_siblings:
  assumes "ring L (c_children c) xs" "ring L (c_sibling c) ys"
    and "time_ok (k_start (c_task c))" "\<forall>n\<in>set ys. time_ok (k_start (task_of L n))"
    and "new_sys_cs3013_syscall2 L c True = Some (1, Some info)"
  shows "((\<forall>n\<in>set ys. k_start (c_task c) \<le> k_start (task_of L n)) \<and> older_sibling info = - 1 \<or>
     (\<exists>n\<in>set ys. k_start (task_of L n) < k_start (c_task c) \<and>
        older_sibling info = (if k_pid (task_of L n) = 0 then - 1 else k_pid (task_of L n)) \<and>
        (\<forall>m\<in>set ys. k_start (task_of L m) < k_start (c_task c) \<longrightarrow>
           k_start (task_of L m) \<le> k_start (task_of L n)))) \<and>
    ((\<forall>n\<in>set ys. k_start (task_of L n) \<le> k_start (c_task c)) \<and> younger_sibling info = - 1 \<or>
     (\<exists>n\<in>set ys. k_start (c_task c) < k_start (task_of L n) \<and>
        younger_sibling info = k_pid (task_of L n) \<and>
        (\<forall>m\<in>set ys. k_start (c_task c) < k_start (task_of L m) \<longrightarrow>
           k_start (task_of L n) \<le> k_start (task_of L m))))"
proof -
  obtain st1 y where y: "fold (scan_min L (\<lambda>_. True)) (xs @ rev xs) (- 1, - 1) = (st1, y)" by fastforce
  obtain st1' o' where o: "fold (scan_max L (\<lambda>k. k < k_start (c_task c))) (ys @ rev ys) (0, - 1) = (st1', o')"
    by fastforce
  obtain st2' z where z: "fold (scan_min L (\<lambda>k. k_start (c_task c) < k)) (ys @ rev ys) (- 1, - 1) = (st2', z)"
    by fastforce
  have i: "older_sibling info = (if o' = 0 then - 1 else o')" "younger_sibling info = z"
    using new_sys_eq [OF assms(1-4) y o z, of True] assms(5) by auto
  show ?thesis
    using scan_max_result [OF o assms(4)] scan_min_result [OF z assms(4)] unfolding i not_less by auto
qed

section \<open>Witnesses\<close>

text \<open>A process with two children (nodes 11 and 12 in the list at 10), itself (node 21) the only child
  of its parent (head at 20, read as a task that was never started).\<close>

definition demo_links :: links where
  "demo_links =
     \<lparr>nxt = (\<lambda>n. if n = 10 then 11 else if n = 11 then 12 else if n = 12 then 10
                else if n = 20 then 21 else 20),
      prv = (\<lambda>n. if n = 10 then 12 else if n = 12 then 11 else if n = 11 then 10
                else if n = 20 then 21 else 20),
      task_of = (\<lambda>n. if n = 11 then \<lparr>k_pid = 101, k_start = 500, k_utime = 3, k_stime = 1\<rparr>
                    else if n = 12 then \<lparr>k_pid = 102, k_start = 600, k_utime = 4, k_stime = 2\<rparr>
                    else \<lparr>k_pid = 77, k_start = 9000, k_utime = 0, k_stime = 0\<rparr>)\<rparr>"

definition demo_current :: current where
  "demo_current =
     \<lparr>c_task = \<lparr>k_pid = 100, k_start = 400, k_utime = 9, k_stime = 8\<rparr>, c_state = 0, c_parent_pid = 1,
      c_uid = 1000, c_children = 10, c_sibling = 21\<rparr>"

lemma demo_rings:
  "ring demo_links (c_children demo_current) [11, 12]" "ring demo_links (c_sibling demo_current) [20]"
  "time_ok (k_start (c_task demo_current))"
  "\<forall>n\<in>set ([11, 12] @ [20]). time_ok (k_start (task_of demo_links n))"
  "\<forall>n\<in>set [20]. time_ok (k_start (task_of demo_links n))"
  by (simp_all add: ring_def demo_links_def demo_current_def time_ok_def)

corollary procinfo_children_witness:
  "\<exists>info. new_sys_cs3013_syscall2 demo_links demo_current True = Some (1, Some info) \<and>
     youngest_child info = 101 \<and> cutime info = 14"
proof -
  have "k_start (task_of demo_links 11) = 500" "k_start (task_of demo_links 12) = 600"
    "k_pid (task_of demo_links 11) = 101" "k_utime (task_of demo_links 11) = 3"
    "k_utime (task_of demo_links 12) = 4"
    by (simp_all add: demo_links_def)
  then show ?thesis
    using procinfo_children [OF demo_rings(1-4)] by auto
qed

corollary procinfo_siblings_witness:
  "\<exists>info. new_sys_cs3013_syscall2 demo_links demo_current True = Some (1, Some info) \<and>
     older_sibling info = - 1 \<and> younger_sibling info = 77"
proof -
  obtain st1 y where y: "fold (scan_min demo_links (\<lambda>_. True)) ([11, 12] @ rev [11, 12]) (- 1, - 1) = (st1, y)"
    by fastforce
  obtain st1' o' where o: "fold (scan_max demo_links (\<lambda>k. k < k_start (c_task demo_current)))
    ([20] @ rev [20]) (0, - 1) = (st1', o')" by fastforce
  obtain st2' z where z: "fold (scan_min demo_links (\<lambda>k. k_start (c_task demo_current) < k))
    ([20] @ rev [20]) (- 1, - 1) = (st2', z)" by fastforce
  obtain info where i: "new_sys_cs3013_syscall2 demo_links demo_current True = Some (1, Some info)"
    using new_sys_eq [OF demo_rings(1-3,5) y o z, of True] by simp
  have "k_start (task_of demo_links 20) = 9000" "k_pid (task_of demo_links 20) = 77"
    "k_start (c_task demo_current) = 400"
    by (simp_all add: demo_links_def demo_current_def)
  then show ?thesis
    using procinfo_siblings [OF demo_rings(1-3,5) i] i by simp
qed

end
