(* ===== verification/SyscallTable.thy ===== *)
theory SyscallTable
  imports Interceptor "HOL-Library.Sublist"
begin

text \<open>
  The numbers of the system calls (\<open>preproj2/unistd_32.h\<close>) and the table of their functions
  (\<open>preproj2/syscall_table_32.S\<close>), into which \<open>project2\<close> and \<open>preproj2\<close> put theirs. The functions are names; the
  prefixes \<open>sys_\<close> and \<open>ptregs_\<close> are constructors.
\<close>

section \<open>The header\<close>

definition syscall_numbers1 :: "(string \<times> int) list" where
  "syscall_numbers1 =
    [(''restart_syscall'', 0), (''exit'', 1), (''fork'', 2), (''read'', 3), (''write'', 4), (''open'', 5),
     (''close'', 6), (''waitpid'', 7), (''creat'', 8), (''link'', 9), (''unlink'', 10), (''execve'', 11),
     (''chdir'', 12), (''time'', 13), (''mknod'', 14), (''chmod'', 15), (''lchown'', 16), (''break'', 17),
     (''oldstat'', 18), (''lseek'', 19), (''getpid'', 20), (''mount'', 21), (''umount'', 22),
     (''setuid'', 23), (''getuid'', 24), (''stime'', 25), (''ptrace'', 26), (''alarm'', 27),
     (''oldfstat'', 28), (''pause'', 29), (''utime'', 30), (''stty'', 31), (''gtty'', 32),
     (''access'', 33), (''nice'', 34), (''ftime'', 35), (''sync'', 36), (''kill'', 37), (''rename'', 38),
     (''mkdir'', 39), (''rmdir'', 40), (''dup'', 41), (''pipe'', 42), (''times'', 43), (''prof'', 44),
     (''brk'', 45), (''setgid'', 46), (''getgid'', 47), (''signal'', 48), (''geteuid'', 49),
     (''getegid'', 50), (''acct'', 51), (''umount2'', 52), (''lock'', 53), (''ioctl'', 54),
     (''fcntl'', 55), (''mpx'', 56), (''setpgid'', 57), (''ulimit'', 58), (''oldolduname'', 59),
     (''umask'', 60), (''chroot'', 61), (''ustat'', 62), (''dup2'', 63), (''getppid'', 64),
     (''getpgrp'', 65), (''setsid'', 66), (''sigaction'', 67), (''sgetmask'', 68), (''ssetmask'', 69),
     (''setreuid'', 70), (''setregid'', 71), (''sigsuspend'', 72), (''sigpending'', 73),
     (''sethostname'', 74), (''setrlimit'', 75), (''getrlimit'', 76), (''getrusage'', 77),
     (''gettimeofday'', 78), (''settimeofday'', 79), (''getgroups'', 80), (''setgroups'', 81),
     (''select'', 82), (''symlink'', 83), (''oldlstat'', 84), (''readlink'', 85), (''uselib'', 86),
     (''swapon'', 87), (''reboot'', 88), (''readdir'', 89), (''mmap'', 90), (''munmap'', 91),
     (''truncate'', 92), (''ftruncate'', 93), (''fchmod'', 94), (''fchown'', 95), (''getpriority'', 96),
     (''setpriority'', 97), (''profil'', 98), (''statfs'', 99), (''fstatfs'', 100), (''ioperm'', 101),
     (''socketcall'', 102), (''syslog'', 103), (''setitimer'', 104), (''getitimer'', 105), (''stat'', 106),
     (''lstat'', 107), (''fstat'', 108), (''olduname'', 109), (''iopl'', 110), (''vhangup'', 111),
     (''idle'', 112), (''vm86old'', 113), (''wait4'', 114), (''swapoff'', 115), (''sysinfo'', 116),
     (''ipc'', 117)]"

definition syscall_numbers2 :: "(string \<times> int) list" where
  "syscall_numbers2 =
    [(''fsync'', 118), (''sigreturn'', 119), (''clone'', 120), (''setdomainname'', 121), (''uname'', 122),
     (''modify_ldt'', 123), (''adjtimex'', 124), (''mprotect'', 125), (''sigprocmask'', 126),
     (''create_module'', 127), (''init_module'', 128), (''delete_module'', 129),
     (''get_kernel_syms'', 130), (''quotactl'', 131), (''getpgid'', 132), (''fchdir'', 133),
     (''bdflush'', 134), (''sysfs'', 135), (''personality'', 136), (''afs_syscall'', 137),
     (''setfsuid'', 138), (''setfsgid'', 139), (''_llseek'', 140), (''getdents'', 141),
     (''_newselect'', 142), (''flock'', 143), (''msync'', 144), (''readv'', 145), (''writev'', 146),
     (''getsid'', 147), (''fdatasync'', 148), (''_sysctl'', 149), (''mlock'', 150), (''munlock'', 151),
     (''mlockall'', 152), (''munlockall'', 153), (''sched_setparam'', 154), (''sched_getparam'', 155),
     (''sched_setscheduler'', 156), (''sched_getscheduler'', 157), (''sched_yield'', 158),
     (''sched_get_priority_max'', 159), (''sched_get_priority_min'', 160),
     (''sched_rr_get_interval'', 161), (''nanosleep'', 162), (''mremap'', 163), (''setresuid'', 164),
     (''getresuid'', 165), (''vm86'', 166), (''query_module'', 167), (''poll'', 168),
     (''nfsservctl'', 169), (''setresgid'', 170), (''getresgid'', 171), (''prctl'', 172),
     (''rt_sigreturn'', 173), (''rt_sigaction'', 174), (''rt_sigprocmask'', 175), (''rt_sigpending'', 176),
     (''rt_sigtimedwait'', 177), (''rt_sigqueueinfo'', 178), (''rt_sigsuspend'', 179), (''pread64'', 180),
     (''pwrite64'', 181), (''chown'', 182), (''getcwd'', 183), (''capget'', 184), (''capset'', 185),
     (''sigaltstack'', 186), (''sendfile'', 187), (''getpmsg'', 188), (''putpmsg'', 189), (''vfork'', 190),
     (''ugetrlimit'', 191), (''mmap2'', 192), (''truncate64'', 193), (''ftruncate64'', 194),
     (''stat64'', 195), (''lstat64'', 196), (''fstat64'', 197), (''lchown32'', 198), (''getuid32'', 199),
     (''getgid32'', 200), (''geteuid32'', 201), (''getegid32'', 202), (''setreuid32'', 203),
     (''setregid32'', 204), (''getgroups32'', 205), (''setgroups32'', 206), (''fchown32'', 207),
     (''setresuid32'', 208), (''getresuid32'', 209), (''setresgid32'', 210), (''getresgid32'', 211),
     (''chown32'', 212), (''setuid32'', 213), (''setgid32'', 214), (''setfsuid32'', 215),
     (''setfsgid32'', 216), (''pivot_root'', 217), (''mincore'', 218), (''madvise'', 219),
     (''madvise1'', 219), (''getdents64'', 220), (''fcntl64'', 221), (''gettid'', 224),
     (''readahead'', 225), (''setxattr'', 226), (''lsetxattr'', 227), (''fsetxattr'', 228),
     (''getxattr'', 229), (''lgetxattr'', 230), (''fgetxattr'', 231), (''listxattr'', 232),
     (''llistxattr'', 233), (''flistxattr'', 234), (''removexattr'', 235)]"

definition syscall_numbers3 :: "(string \<times> int) list" where
  "syscall_numbers3 =
    [(''lremovexattr'', 236), (''fremovexattr'', 237), (''tkill'', 238), (''sendfile64'', 239),
     (''futex'', 240), (''sched_setaffinity'', 241), (''sched_getaffinity'', 242),
     (''set_thread_area'', 243), (''get_thread_area'', 244), (''io_setup'', 245), (''io_destroy'', 246),
     (''io_getevents'', 247), (''io_submit'', 248), (''io_cancel'', 249), (''fadvise64'', 250),
     (''exit_group'', 252), (''lookup_dcookie'', 253), (''epoll_create'', 254), (''epoll_ctl'', 255),
     (''epoll_wait'', 256), (''remap_file_pages'', 257), (''set_tid_address'', 258),
     (''timer_create'', 259), (''timer_settime'', 259 + 1), (''timer_gettime'', 259 + 2),
     (''timer_getoverrun'', 259 + 3), (''timer_delete'', 259 + 4), (''clock_settime'', 259 + 5),
     (''clock_gettime'', 259 + 6), (''clock_getres'', 259 + 7), (''clock_nanosleep'', 259 + 8),
     (''statfs64'', 268), (''fstatfs64'', 269), (''tgkill'', 270), (''utimes'', 271),
     (''fadvise64_64'', 272), (''vserver'', 273), (''mbind'', 274), (''get_mempolicy'', 275),
     (''set_mempolicy'', 276), (''mq_open'', 277), (''mq_unlink'', 277 + 1), (''mq_timedsend'', 277 + 2),
     (''mq_timedreceive'', 277 + 3), (''mq_notify'', 277 + 4), (''mq_getsetattr'', 277 + 5),
     (''kexec_load'', 283), (''waitid'', 284), (''add_key'', 286), (''request_key'', 287),
     (''keyctl'', 288), (''ioprio_set'', 289), (''ioprio_get'', 290), (''inotify_init'', 291),
     (''inotify_add_watch'', 292), (''inotify_rm_watch'', 293), (''migrate_pages'', 294),
     (''openat'', 295), (''mkdirat'', 296), (''mknodat'', 297), (''fchownat'', 298), (''futimesat'', 299),
     (''fstatat64'', 300), (''unlinkat'', 301), (''renameat'', 302), (''linkat'', 303),
     (''symlinkat'', 304), (''readlinkat'', 305), (''fchmodat'', 306), (''faccessat'', 307),
     (''pselect6'', 308), (''ppoll'', 309), (''unshare'', 310), (''set_robust_list'', 311),
     (''get_robust_list'', 312), (''splice'', 313), (''sync_file_range'', 314), (''tee'', 315),
     (''vmsplice'', 316), (''move_pages'', 317), (''getcpu'', 318), (''epoll_pwait'', 319),
     (''utimensat'', 320), (''signalfd'', 321), (''timerfd_create'', 322), (''eventfd'', 323),
     (''fallocate'', 324), (''timerfd_settime'', 325), (''timerfd_gettime'', 326), (''signalfd4'', 327),
     (''eventfd2'', 328), (''epoll_create1'', 329), (''dup3'', 330), (''pipe2'', 331),
     (''inotify_init1'', 332), (''preadv'', 333), (''pwritev'', 334), (''rt_tgsigqueueinfo'', 335),
     (''perf_event_open'', 336), (''recvmmsg'', 337), (''fanotify_init'', 338), (''fanotify_mark'', 339),
     (''prlimit64'', 340), (''name_to_handle_at'', 341), (''open_by_handle_at'', 342),
     (''clock_adjtime'', 343), (''syncfs'', 344), (''sendmmsg'', 345), (''setns'', 346),
     (''process_vm_readv'', 347), (''process_vm_writev'', 348), (''cs3013_syscall1'', 349),
     (''cs3013_syscall2'', 350), (''cs3013_syscall3'', 351)]"

definition syscall_numbers :: "(string \<times> int) list" where
  "syscall_numbers = syscall_numbers1 @ syscall_numbers2 @ syscall_numbers3"

definition NR_syscalls :: int where "NR_syscalls = 352"

section \<open>The table\<close>

datatype handler = Sys string | Ptregs string

definition sys_call_entries1 :: "handler list" where
  "sys_call_entries1 =
    [Sys ''restart_syscall'', Sys ''exit'', Ptregs ''fork'', Sys ''read'', Sys ''write'', Sys ''open'',
     Sys ''close'', Sys ''waitpid'', Sys ''creat'', Sys ''link'', Sys ''unlink'', Ptregs ''execve'',
     Sys ''chdir'', Sys ''time'', Sys ''mknod'', Sys ''chmod'', Sys ''lchown16'', Sys ''ni_syscall'',
     Sys ''stat'', Sys ''lseek'', Sys ''getpid'', Sys ''mount'', Sys ''oldumount'', Sys ''setuid16'',
     Sys ''getuid16'', Sys ''stime'', Sys ''ptrace'', Sys ''alarm'', Sys ''fstat'', Sys ''pause'',
     Sys ''utime'', Sys ''ni_syscall'', Sys ''ni_syscall'', Sys ''access'', Sys ''nice'',
     Sys ''ni_syscall'', Sys ''sync'', Sys ''kill'', Sys ''rename'', Sys ''mkdir'', Sys ''rmdir'',
     Sys ''dup'', Sys ''pipe'', Sys ''times'', Sys ''ni_syscall'', Sys ''brk'', Sys ''setgid16'',
     Sys ''getgid16'', Sys ''signal'', Sys ''geteuid16'', Sys ''getegid16'', Sys ''acct'', Sys ''umount'',
     Sys ''ni_syscall'', Sys ''ioctl'', Sys ''fcntl'', Sys ''ni_syscall'', Sys ''setpgid'',
     Sys ''ni_syscall'', Sys ''olduname'', Sys ''umask'', Sys ''chroot'', Sys ''ustat'', Sys ''dup2'',
     Sys ''getppid'', Sys ''getpgrp'', Sys ''setsid'', Sys ''sigaction'', Sys ''sgetmask'',
     Sys ''ssetmask'', Sys ''setreuid16'', Sys ''setregid16'', Sys ''sigsuspend'', Sys ''sigpending'',
     Sys ''sethostname'', Sys ''setrlimit'', Sys ''old_getrlimit'', Sys ''getrusage'',
     Sys ''gettimeofday'', Sys ''settimeofday'', Sys ''getgroups16'', Sys ''setgroups16'',
     Sys ''old_select'', Sys ''symlink'', Sys ''lstat'', Sys ''readlink'', Sys ''uselib'', Sys ''swapon'',
     Sys ''reboot'', Sys ''old_readdir'', Sys ''old_mmap'', Sys ''munmap'', Sys ''truncate'',
     Sys ''ftruncate'', Sys ''fchmod'', Sys ''fchown16'', Sys ''getpriority'', Sys ''setpriority'',
     Sys ''ni_syscall'', Sys ''statfs'', Sys ''fstatfs'', Sys ''ioperm'', Sys ''socketcall'',
     Sys ''syslog'', Sys ''setitimer'', Sys ''getitimer'', Sys ''newstat'', Sys ''newlstat'',
     Sys ''newfstat'', Sys ''uname'', Ptregs ''iopl'', Sys ''vhangup'', Sys ''ni_syscall'',
     Ptregs ''vm86old'', Sys ''wait4'', Sys ''swapoff'', Sys ''sysinfo'', Sys ''ipc'']"

definition sys_call_entries2 :: "handler list" where
  "sys_call_entries2 =
    [Sys ''fsync'', Ptregs ''sigreturn'', Ptregs ''clone'', Sys ''setdomainname'', Sys ''newuname'',
     Sys ''modify_ldt'', Sys ''adjtimex'', Sys ''mprotect'', Sys ''sigprocmask'', Sys ''ni_syscall'',
     Sys ''init_module'', Sys ''delete_module'', Sys ''ni_syscall'', Sys ''quotactl'', Sys ''getpgid'',
     Sys ''fchdir'', Sys ''bdflush'', Sys ''sysfs'', Sys ''personality'', Sys ''ni_syscall'',
     Sys ''setfsuid16'', Sys ''setfsgid16'', Sys ''llseek'', Sys ''getdents'', Sys ''select'',
     Sys ''flock'', Sys ''msync'', Sys ''readv'', Sys ''writev'', Sys ''getsid'', Sys ''fdatasync'',
     Sys ''sysctl'', Sys ''mlock'', Sys ''munlock'', Sys ''mlockall'', Sys ''munlockall'',
     Sys ''sched_setparam'', Sys ''sched_getparam'', Sys ''sched_setscheduler'',
     Sys ''sched_getscheduler'', Sys ''sched_yield'', Sys ''sched_get_priority_max'',
     Sys ''sched_get_priority_min'', Sys ''sched_rr_get_interval'', Sys ''nanosleep'', Sys ''mremap'',
     Sys ''setresuid16'', Sys ''getresuid16'', Ptregs ''vm86'', Sys ''ni_syscall'', Sys ''poll'',
     Sys ''ni_syscall'', Sys ''setresgid16'', Sys ''getresgid16'', Sys ''prctl'', Ptregs ''rt_sigreturn'',
     Sys ''rt_sigaction'', Sys ''rt_sigprocmask'', Sys ''rt_sigpending'', Sys ''rt_sigtimedwait'',
     Sys ''rt_sigqueueinfo'', Sys ''rt_sigsuspend'', Sys ''pread64'', Sys ''pwrite64'', Sys ''chown16'',
     Sys ''getcwd'', Sys ''capget'', Sys ''capset'', Ptregs ''sigaltstack'', Sys ''sendfile'',
     Sys ''ni_syscall'', Sys ''ni_syscall'', Ptregs ''vfork'', Sys ''getrlimit'', Sys ''mmap_pgoff'',
     Sys ''truncate64'', Sys ''ftruncate64'', Sys ''stat64'', Sys ''lstat64'', Sys ''fstat64'',
     Sys ''lchown'', Sys ''getuid'', Sys ''getgid'', Sys ''geteuid'', Sys ''getegid'', Sys ''setreuid'',
     Sys ''setregid'', Sys ''getgroups'', Sys ''setgroups'', Sys ''fchown'', Sys ''setresuid'',
     Sys ''getresuid'', Sys ''setresgid'', Sys ''getresgid'', Sys ''chown'', Sys ''setuid'',
     Sys ''setgid'', Sys ''setfsuid'', Sys ''setfsgid'', Sys ''pivot_root'', Sys ''mincore'',
     Sys ''madvise'', Sys ''getdents64'', Sys ''fcntl64'', Sys ''ni_syscall'', Sys ''ni_syscall'',
     Sys ''gettid'', Sys ''readahead'', Sys ''setxattr'', Sys ''lsetxattr'', Sys ''fsetxattr'',
     Sys ''getxattr'', Sys ''lgetxattr'', Sys ''fgetxattr'', Sys ''listxattr'', Sys ''llistxattr'',
     Sys ''flistxattr'', Sys ''removexattr'']"

definition sys_call_entries3 :: "handler list" where
  "sys_call_entries3 =
    [Sys ''lremovexattr'', Sys ''fremovexattr'', Sys ''tkill'', Sys ''sendfile64'', Sys ''futex'',
     Sys ''sched_setaffinity'', Sys ''sched_getaffinity'', Sys ''set_thread_area'',
     Sys ''get_thread_area'', Sys ''io_setup'', Sys ''io_destroy'', Sys ''io_getevents'',
     Sys ''io_submit'', Sys ''io_cancel'', Sys ''fadvise64'', Sys ''ni_syscall'', Sys ''exit_group'',
     Sys ''lookup_dcookie'', Sys ''epoll_create'', Sys ''epoll_ctl'', Sys ''epoll_wait'',
     Sys ''remap_file_pages'', Sys ''set_tid_address'', Sys ''timer_create'', Sys ''timer_settime'',
     Sys ''timer_gettime'', Sys ''timer_getoverrun'', Sys ''timer_delete'', Sys ''clock_settime'',
     Sys ''clock_gettime'', Sys ''clock_getres'', Sys ''clock_nanosleep'', Sys ''statfs64'',
     Sys ''fstatfs64'', Sys ''tgkill'', Sys ''utimes'', Sys ''fadvise64_64'', Sys ''ni_syscall'',
     Sys ''mbind'', Sys ''get_mempolicy'', Sys ''set_mempolicy'', Sys ''mq_open'', Sys ''mq_unlink'',
     Sys ''mq_timedsend'', Sys ''mq_timedreceive'', Sys ''mq_notify'', Sys ''mq_getsetattr'',
     Sys ''kexec_load'', Sys ''waitid'', Sys ''ni_syscall'', Sys ''add_key'', Sys ''request_key'',
     Sys ''keyctl'', Sys ''ioprio_set'', Sys ''ioprio_get'', Sys ''inotify_init'',
     Sys ''inotify_add_watch'', Sys ''inotify_rm_watch'', Sys ''migrate_pages'', Sys ''openat'',
     Sys ''mkdirat'', Sys ''mknodat'', Sys ''fchownat'', Sys ''futimesat'', Sys ''fstatat64'',
     Sys ''unlinkat'', Sys ''renameat'', Sys ''linkat'', Sys ''symlinkat'', Sys ''readlinkat'',
     Sys ''fchmodat'', Sys ''faccessat'', Sys ''pselect6'', Sys ''ppoll'', Sys ''unshare'',
     Sys ''set_robust_list'', Sys ''get_robust_list'', Sys ''splice'', Sys ''sync_file_range'',
     Sys ''tee'', Sys ''vmsplice'', Sys ''move_pages'', Sys ''getcpu'', Sys ''epoll_pwait'',
     Sys ''utimensat'', Sys ''signalfd'', Sys ''timerfd_create'', Sys ''eventfd'', Sys ''fallocate'',
     Sys ''timerfd_settime'', Sys ''timerfd_gettime'', Sys ''signalfd4'', Sys ''eventfd2'',
     Sys ''epoll_create1'', Sys ''dup3'', Sys ''pipe2'', Sys ''inotify_init1'', Sys ''preadv'',
     Sys ''pwritev'', Sys ''rt_tgsigqueueinfo'', Sys ''perf_event_open'', Sys ''recvmmsg'',
     Sys ''fanotify_init'', Sys ''fanotify_mark'', Sys ''prlimit64'', Sys ''name_to_handle_at'',
     Sys ''open_by_handle_at'', Sys ''clock_adjtime'', Sys ''syncfs'', Sys ''sendmmsg'', Sys ''setns'',
     Sys ''process_vm_readv'', Sys ''process_vm_writev'', Sys ''cs3013_syscall1'', Sys ''cs3013_syscall2'',
     Sys ''cs3013_syscall3'']"

definition sys_call_entries :: "handler list" where
  "sys_call_entries = sys_call_entries1 @ sys_call_entries2 @ sys_call_entries3"

text \<open>
  Which function may serve a call: the one of its name; for calls with 16-bit ids, the one with \<open>16\<close>
  after the name, which leaves the name to the call with \<open>32\<close>; a newer or older function under another
  name; or \<open>sys_ni_syscall\<close> for a call that was removed.
\<close>

definition uid16_calls :: "string list" where
  "uid16_calls =
    [''lchown'', ''setuid'', ''getuid'', ''setgid'', ''getgid'', ''geteuid'', ''getegid'', ''setreuid'',
     ''setregid'', ''getgroups'', ''setgroups'', ''fchown'', ''setfsuid'', ''setfsgid'', ''setresuid'',
     ''getresuid'', ''setresgid'', ''getresgid'', ''chown'']"

definition renamed_calls :: "(string \<times> string) list" where
  "renamed_calls =
    [(''oldstat'', ''stat''), (''umount'', ''oldumount''), (''oldfstat'', ''fstat''),
     (''umount2'', ''umount''), (''oldolduname'', ''olduname''), (''getrlimit'', ''old_getrlimit''),
     (''select'', ''old_select''), (''oldlstat'', ''lstat''), (''readdir'', ''old_readdir''),
     (''mmap'', ''old_mmap''), (''stat'', ''newstat''), (''lstat'', ''newlstat''),
     (''fstat'', ''newfstat''), (''olduname'', ''uname''), (''uname'', ''newuname''),
     (''_llseek'', ''llseek''), (''_newselect'', ''select''), (''_sysctl'', ''sysctl''),
     (''ugetrlimit'', ''getrlimit''), (''mmap2'', ''mmap_pgoff''), (''madvise1'', ''madvise'')]"

definition removed_calls :: "string list" where
  "removed_calls =
    [''break'', ''stty'', ''gtty'', ''ftime'', ''prof'', ''lock'', ''mpx'', ''ulimit'', ''profil'',
     ''idle'', ''create_module'', ''get_kernel_syms'', ''afs_syscall'', ''query_module'', ''nfsservctl'',
     ''getpmsg'', ''putpmsg'', ''vserver'']"

fun serves :: "handler \<Rightarrow> string \<Rightarrow> bool" where
  "serves (Ptregs f) name \<longleftrightarrow> f = name"
| "serves (Sys f) name \<longleftrightarrow>
     (if f = name then True
      else if f = ''ni_syscall'' then name \<in> set removed_calls
      else if f = name @ ''16'' then name \<in> set uid16_calls
      else if name = f @ ''32'' then f \<in> set uid16_calls
      else (name, f) \<in> set renamed_calls)"

text \<open>
  The functions of the system calls \<open>sys.c\<close> defines, but for \<open>gethostname\<close>, what the header calls them,
  and their numbers.
\<close>

definition sys_c_calls :: "(string \<times> string \<times> int) list" where
  "sys_c_calls =
    [(''times'', ''times'', 43), (''setpgid'', ''setpgid'', 57), (''olduname'', ''oldolduname'', 59),
     (''umask'', ''umask'', 60), (''getpgrp'', ''getpgrp'', 65), (''setsid'', ''setsid'', 66),
     (''sethostname'', ''sethostname'', 74), (''setrlimit'', ''setrlimit'', 75),
     (''old_getrlimit'', ''getrlimit'', 76), (''getrusage'', ''getrusage'', 77),
     (''reboot'', ''reboot'', 88), (''getpriority'', ''getpriority'', 96),
     (''setpriority'', ''setpriority'', 97), (''uname'', ''olduname'', 109),
     (''setdomainname'', ''setdomainname'', 121), (''newuname'', ''uname'', 122),
     (''getpgid'', ''getpgid'', 132), (''getsid'', ''getsid'', 147), (''prctl'', ''prctl'', 172),
     (''getrlimit'', ''ugetrlimit'', 191), (''setreuid'', ''setreuid32'', 203),
     (''setregid'', ''setregid32'', 204), (''setresuid'', ''setresuid32'', 208),
     (''getresuid'', ''getresuid32'', 209), (''setresgid'', ''setresgid32'', 210),
     (''getresgid'', ''getresgid32'', 211), (''setuid'', ''setuid32'', 213),
     (''setgid'', ''setgid32'', 214), (''setfsuid'', ''setfsuid32'', 215),
     (''setfsgid'', ''setfsgid32'', 216), (''getcpu'', ''getcpu'', 318),
     (''prlimit64'', ''prlimit64'', 340), (''cs3013_syscall1'', ''cs3013_syscall1'', 349),
     (''cs3013_syscall2'', ''cs3013_syscall2'', 350), (''cs3013_syscall3'', ''cs3013_syscall3'', 351)]"

text \<open>The \<open>__ARCH_WANT_\<close> macros of the header, and the functions of \<open>sys.c\<close> that are compiled only with one.\<close>

definition arch_wants :: "string list" where
  "arch_wants =
    [''IPC_PARSE_VERSION'', ''OLD_READDIR'', ''OLD_STAT'', ''STAT64'', ''SYS_ALARM'',
     ''SYS_GETHOSTNAME'', ''SYS_IPC'', ''SYS_PAUSE'', ''SYS_SGETMASK'', ''SYS_SIGNAL'', ''SYS_TIME'',
     ''SYS_UTIME'', ''SYS_WAITPID'', ''SYS_SOCKETCALL'', ''SYS_FADVISE64'', ''SYS_GETPGRP'',
     ''SYS_LLSEEK'', ''SYS_NICE'', ''SYS_OLD_GETRLIMIT'', ''SYS_OLD_UNAME'', ''SYS_OLD_MMAP'',
     ''SYS_OLD_SELECT'', ''SYS_OLDUMOUNT'', ''SYS_SIGPENDING'', ''SYS_SIGPROCMASK'',
     ''SYS_RT_SIGACTION'', ''SYS_RT_SIGSUSPEND'']"

definition guarded_calls_of_sys_c :: "(string \<times> string) list" where
  "guarded_calls_of_sys_c =
    [(''getpgrp'', ''SYS_GETPGRP''), (''uname'', ''SYS_OLD_UNAME''), (''olduname'', ''SYS_OLD_UNAME''),
     (''gethostname'', ''SYS_GETHOSTNAME''), (''old_getrlimit'', ''SYS_OLD_GETRLIMIT'')]"

lemma guarded_calls_wanted:
  "\<forall>(f, m)\<in>set guarded_calls_of_sys_c. m \<in> set arch_wants \<and>
     (f \<in> fst ` set sys_c_calls \<longleftrightarrow> f \<noteq> ''gethostname'')"
  by code_simp

section \<open>The header and the table agree\<close>

text \<open>
  Both lists are in the order of the numbers, so one walk compares them: \<open>ns\<close> are the numbers from \<open>k\<close> on, \<open>hs\<close>
  the entries from \<open>k\<close> to \<open>l\<close>; \<open>b\<close> says that entry \<open>k\<close> has had a number.
\<close>

fun agree :: "bool \<Rightarrow> int \<Rightarrow> int \<Rightarrow> (string \<times> int) list \<Rightarrow> handler list \<Rightarrow> bool" where
  "agree b k l ns [] \<longleftrightarrow> ns = [] \<and> k = l"
| "agree b k l [] (h # hs) \<longleftrightarrow> (b \<or> h = Sys ''ni_syscall'') \<and> agree False (k + 1) l [] hs"
| "agree b k l ((name, n) # ns) (h # hs) \<longleftrightarrow>
     (if n = k then serves h name \<and> agree True k l ns (h # hs)
      else (b \<or> h = Sys ''ni_syscall'') \<and> agree False (k + 1) l ((name, n) # ns) hs)"

lemma agree1: "agree False 0 118 syscall_numbers1 sys_call_entries1"
  by code_simp

lemma agree2: "agree False 118 236 syscall_numbers2 sys_call_entries2"
  by code_simp

lemma agree3: "agree False 236 NR_syscalls syscall_numbers3 sys_call_entries3"
  by code_simp

text \<open>Entry \<open>n\<close> of a piece that begins at \<open>k\<close>.\<close>

definition entry_from :: "int \<Rightarrow> handler list \<Rightarrow> int \<Rightarrow> handler \<Rightarrow> bool" where
  "entry_from k hs n h \<longleftrightarrow> k \<le> n \<and> n < k + int (length hs) \<and> hs ! nat (n - k) = h"

lemma entry_from_Nil [simp]: "\<not> entry_from k [] n h"
  by (simp add: entry_from_def)

lemma entry_from_Cons: "entry_from k (g # hs) n h \<longleftrightarrow> n = k \<and> g = h \<or> entry_from (k + 1) hs n h"
proof (cases "k < n")
  case True
  then have "nat (n - k) = Suc (nat (n - (k + 1)))" by simp
  then show ?thesis using True by (auto simp: entry_from_def)
next
  case False
  then show ?thesis by (auto simp: entry_from_def)
qed

lemma entry_from_append:
  "entry_from k (gs @ hs) n h \<longleftrightarrow> entry_from k gs n h \<or> entry_from (k + int (length gs)) hs n h"
  by (induction gs arbitrary: k) (auto simp: entry_from_Cons add.assoc add.commute)

lemma in_set_entry_from: "h \<in> set hs \<Longrightarrow> \<exists>m. entry_from k hs m h"
  by (induction hs arbitrary: k) (auto simp: entry_from_Cons)

lemma agree_length: "agree b k l ns hs \<Longrightarrow> l = k + int (length hs)"
  by (induction b k l ns hs rule: agree.induct) (auto split: if_splits)

lemma agree_serves:
  "agree b k l ns hs \<Longrightarrow> (name, n) \<in> set ns \<Longrightarrow> \<exists>h. entry_from k hs n h \<and> serves h name"
  by (induction b k l ns hs rule: agree.induct) (auto simp: entry_from_Cons split: if_splits)

lemma agree_unnumbered:
  "agree b k l ns hs \<Longrightarrow> entry_from k hs n h \<Longrightarrow> n \<notin> snd ` set ns \<Longrightarrow> (b \<and> n = k) \<or> h = Sys ''ni_syscall''"
proof (induction b k l ns hs rule: agree.induct)
  case (2 b k l h' hs)
  then show ?case by (auto simp: entry_from_Cons)
next
  case (3 b k l name m ns h' hs)
  show ?case
  proof (cases "m = k")
    case True
    then show ?thesis using 3 by auto
  next
    case False
    then show ?thesis using 3 by (auto simp: entry_from_Cons)
  qed
qed simp

text \<open>The entries for functions named in \<open>fs\<close>, with their positions.\<close>

fun positions :: "int \<Rightarrow> string list \<Rightarrow> handler list \<Rightarrow> (string \<times> int) list" where
  "positions k fs [] = []"
| "positions k fs (Ptregs f # hs) = positions (k + 1) fs hs"
| "positions k fs (Sys f # hs) =
     (if f \<in> set fs then (f, k) # positions (k + 1) fs hs else positions (k + 1) fs hs)"

lemma set_positions: "(f, n) \<in> set (positions k fs hs) \<longleftrightarrow> f \<in> set fs \<and> entry_from k hs n (Sys f)"
  by (induction k fs hs rule: positions.induct) (auto simp: entry_from_Cons)

lemma positions_append:
  "positions k fs (gs @ hs) = positions k fs gs @ positions (k + int (length gs)) fs hs"
  by (induction k fs gs rule: positions.induct) (auto simp: add.assoc add.commute)

lemmas lengths = agree_length [OF agree1] agree_length [OF agree2] agree_length [OF agree3]

text \<open>One entry for each function of \<open>sys.c\<close>, at its number.\<close>

lemma sys_c_positions1:
  "positions 0 (map fst sys_c_calls) sys_call_entries1 = map (\<lambda>(f, name, n). (f, n)) (take 14 sys_c_calls)"
  by code_simp

lemma sys_c_positions2:
  "positions 118 (map fst sys_c_calls) sys_call_entries2 = map (\<lambda>(f, name, n). (f, n)) (take 16 (drop 14 sys_c_calls))"
  by code_simp

lemma sys_c_positions3:
  "positions 236 (map fst sys_c_calls) sys_call_entries3 = map (\<lambda>(f, name, n). (f, n)) (drop 30 sys_c_calls)"
  by code_simp

lemma sys_c_numbers: "subseq (map snd sys_c_calls) syscall_numbers"
  by code_simp

lemma sys_c_positions:
  "positions 0 (map fst sys_c_calls) sys_call_entries = map (\<lambda>(f, name, n). (f, n)) sys_c_calls"
proof -
  have l: "int (length sys_call_entries1) = 118" "118 + int (length sys_call_entries2) = 236"
    using lengths by simp_all
  have "sys_c_calls = take 14 sys_c_calls @ take 16 (drop 14 sys_c_calls) @ drop 30 sys_c_calls"
    using append_take_drop_id [of 14 sys_c_calls] append_take_drop_id [of 16 "drop 14 sys_c_calls"] by simp
  then show ?thesis
    using l unfolding sys_call_entries_def
    by (metis (no_types, lifting) positions_append add_0 map_append sys_c_positions1 sys_c_positions2
        sys_c_positions3)
qed

text \<open>Two calls a module replaces, for one of which all search, and one that has no entry.\<close>

lemma module_positions1: "positions 0 [''open'', ''close'', ''gethostname''] sys_call_entries1 = [(''open'', 5), (''close'', 6)]"
  by code_simp

lemma module_positions2: "positions 118 [''open'', ''close'', ''gethostname''] sys_call_entries2 = []"
  by code_simp

lemma module_positions3: "positions 236 [''open'', ''close'', ''gethostname''] sys_call_entries3 = []"
  by code_simp

lemma module_positions: "positions 0 [''open'', ''close'', ''gethostname''] sys_call_entries = [(''open'', 5), (''close'', 6)]"
  using lengths module_positions1 module_positions2 module_positions3
  by (simp add: sys_call_entries_def positions_append)

section \<open>The property\<close>

definition entry :: "int \<Rightarrow> handler" where
  "entry n = sys_call_entries ! nat n"

lemma entry_from_entry: "entry_from 0 sys_call_entries n h \<longleftrightarrow> 0 \<le> n \<and> n < NR_syscalls \<and> entry n = h"
proof -
  have "int (length sys_call_entries) = NR_syscalls" using lengths by (simp add: sys_call_entries_def)
  then show ?thesis by (simp add: entry_from_def entry_def)
qed

lemma entry_pieces:
  "entry_from 0 sys_call_entries n h \<longleftrightarrow> entry_from 0 sys_call_entries1 n h \<or>
     entry_from 118 sys_call_entries2 n h \<or> entry_from 236 sys_call_entries3 n h"
  using lengths by (simp add: sys_call_entries_def entry_from_append)

lemma numbers_served:
  assumes "(name, n) \<in> set syscall_numbers"
  shows "0 \<le> n \<and> n < NR_syscalls \<and> serves (entry n) name"
proof -
  have "(name, n) \<in> set syscall_numbers1 \<or> (name, n) \<in> set syscall_numbers2 \<or> (name, n) \<in> set syscall_numbers3"
    using assms by (simp add: syscall_numbers_def)
  then obtain h where "entry_from 0 sys_call_entries n h" "serves h name"
    using agree_serves [OF agree1] agree_serves [OF agree2] agree_serves [OF agree3]
    unfolding entry_pieces by metis
  then show ?thesis by (auto simp: entry_from_entry)
qed

lemma unnumbered_ni:
  assumes "0 \<le> n" "n < NR_syscalls" "n \<notin> snd ` set syscall_numbers"
  shows "entry n = Sys ''ni_syscall''"
proof -
  have n: "n \<notin> snd ` set syscall_numbers1" "n \<notin> snd ` set syscall_numbers2" "n \<notin> snd ` set syscall_numbers3"
    using assms(3) by (auto simp: syscall_numbers_def)
  have "entry_from 0 sys_call_entries n (entry n)" using assms(1,2) by (simp add: entry_from_entry)
  then show ?thesis
    using agree_unnumbered [OF agree1 _ n(1)] agree_unnumbered [OF agree2 _ n(2)]
      agree_unnumbered [OF agree3 _ n(3)]
    unfolding entry_pieces by blast
qed

lemma entry_positions:
  assumes "f \<in> set fs"
  shows "0 \<le> m \<and> m < NR_syscalls \<and> entry m = Sys f \<longleftrightarrow> (f, m) \<in> set (positions 0 fs sys_call_entries)"
  using assms by (simp add: set_positions entry_from_entry)

lemma distinct_sys_c_calls: "distinct (map fst sys_c_calls)"
  by code_simp

lemma sys_c_entry:
  assumes "(f, name, n) \<in> set sys_c_calls"
  shows "(name, n) \<in> set syscall_numbers"
    "0 \<le> m \<Longrightarrow> m < NR_syscalls \<Longrightarrow> entry m = Sys f \<longleftrightarrow> m = n"
proof -
  show "(name, n) \<in> set syscall_numbers"
    using list_emb_set [OF sys_c_numbers, of "(name, n)"] assms by force
  have f: "f \<in> set (map fst sys_c_calls)" using assms by force
  have "(f, m) \<in> set (map (\<lambda>(f, name, n). (f, n)) sys_c_calls) \<longleftrightarrow> m = n"
    using assms distinct_sys_c_calls by (force simp: distinct_map inj_on_def)
  then show "entry m = Sys f \<longleftrightarrow> m = n" if "0 \<le> m" "m < NR_syscalls"
    using entry_positions [OF f, of m] that unfolding sys_c_positions by blast
qed

text \<open>
  C17. The table of system calls is in order with the header of their numbers: it has \<open>NR_syscalls\<close> entries; the
  entry for every number of the header is a function that may serve the call of that name; an entry
  without a number is \<open>sys_ni_syscall\<close>; and each system call of \<open>sys.c\<close> has one entry, at the number of its name, the three added
  ones at 349 to 351. Only \<open>gethostname\<close>, which is compiled like the other calls a macro of the header asks
  for, is nowhere in the table.
\<close>

theorem table_matches_header:
  "int (length sys_call_entries) = NR_syscalls \<and>
   (\<forall>(name, n)\<in>set syscall_numbers. 0 \<le> n \<and> n < NR_syscalls \<and> serves (entry n) name) \<and>
   (\<forall>n. 0 \<le> n \<longrightarrow> n < NR_syscalls \<longrightarrow> n \<notin> snd ` set syscall_numbers \<longrightarrow> entry n = Sys ''ni_syscall'') \<and>
   (\<forall>(f, name, n)\<in>set sys_c_calls. (name, n) \<in> set syscall_numbers \<and>
      (\<forall>m. 0 \<le> m \<longrightarrow> m < NR_syscalls \<longrightarrow> (entry m = Sys f \<longleftrightarrow> m = n))) \<and>
   Sys ''gethostname'' \<notin> set sys_call_entries \<and>
   (\<forall>(f, m)\<in>set guarded_calls_of_sys_c. m \<in> set arch_wants \<and>
      (f \<in> fst ` set sys_c_calls \<longleftrightarrow> f \<noteq> ''gethostname''))"
proof (intro conjI)
  show "\<forall>(f, m)\<in>set guarded_calls_of_sys_c. m \<in> set arch_wants \<and>
      (f \<in> fst ` set sys_c_calls \<longleftrightarrow> f \<noteq> ''gethostname'')" by (rule guarded_calls_wanted)
  show "int (length sys_call_entries) = NR_syscalls" using lengths by (simp add: sys_call_entries_def)
  have "\<not> entry_from 0 sys_call_entries m (Sys ''gethostname'')" for m
    using set_positions [of "''gethostname''" m 0 "[''open'', ''close'', ''gethostname'']" sys_call_entries]
    unfolding module_positions by simp
  then show "Sys ''gethostname'' \<notin> set sys_call_entries" using in_set_entry_from by blast
  show "\<forall>(name, n)\<in>set syscall_numbers. 0 \<le> n \<and> n < NR_syscalls \<and> serves (entry n) name"
    using numbers_served by blast
  show "\<forall>n. 0 \<le> n \<longrightarrow> n < NR_syscalls \<longrightarrow> n \<notin> snd ` set syscall_numbers \<longrightarrow> entry n = Sys ''ni_syscall''"
    using unnumbered_ni by blast
  show "\<forall>(f, name, n)\<in>set sys_c_calls. (name, n) \<in> set syscall_numbers \<and>
      (\<forall>m. 0 \<le> m \<longrightarrow> m < NR_syscalls \<longrightarrow> (entry m = Sys f \<longleftrightarrow> m = n))"
    using sys_c_entry by blast
qed

corollary table_matches_header_witness:
  "entry 350 = Sys ''cs3013_syscall2'' \<and> serves (entry 23) ''setuid'' \<and> entry 122 = Sys ''newuname''"
proof -
  have calls: "\<forall>(f, name, n)\<in>set sys_c_calls. (name, n) \<in> set syscall_numbers \<and>
      (\<forall>m. 0 \<le> m \<longrightarrow> m < NR_syscalls \<longrightarrow> (entry m = Sys f \<longleftrightarrow> m = n))"
    and numbers: "\<forall>(name, n)\<in>set syscall_numbers. 0 \<le> n \<and> n < NR_syscalls \<and> serves (entry n) name"
    by (rule table_matches_header [THEN conjunct2, THEN conjunct2, THEN conjunct2, THEN conjunct1]
        table_matches_header [THEN conjunct2, THEN conjunct1])+
  have "(''cs3013_syscall2'', ''cs3013_syscall2'', 350) \<in> set sys_c_calls"
    "(''newuname'', ''uname'', 122) \<in> set sys_c_calls" by code_simp+
  from bspec [OF calls this(1)] bspec [OF calls this(2)]
  have "entry 350 = Sys ''cs3013_syscall2''" "entry 122 = Sys ''newuname''"
    by (simp_all add: NR_syscalls_def)
  moreover have "(''setuid'', 23) \<in> set syscall_numbers1" by code_simp
  then have "(''setuid'', 23) \<in> set syscall_numbers" by (simp add: syscall_numbers_def)
  from bspec [OF numbers this] have "serves (entry 23) ''setuid''" by simp
  ultimately show ?thesis by blast
qed

section \<open>The table in memory\<close>

text \<open>\<open>code h\<close> is the address of the function \<open>h\<close>.\<close>

definition table_in :: "(handler \<Rightarrow> addr) \<Rightarrow> (addr \<Rightarrow> 32 word option) \<Rightarrow> addr \<Rightarrow> bool" where
  "table_in code mm sct \<longleftrightarrow>
     (\<forall>n. 0 \<le> n \<longrightarrow> n < NR_syscalls \<longrightarrow> mm (slot sct (word_of_int n)) = Some (code (entry n)))"

definition NR_cs3013_syscall3 :: addr where "NR_cs3013_syscall3 = 351"

lemma module_entries: "entry 5 = Sys ''open''" "entry 6 = Sys ''close''"
  "entry 349 = Sys ''cs3013_syscall1''" "entry 350 = Sys ''cs3013_syscall2''"
  "entry 351 = Sys ''cs3013_syscall3''"
proof -
  show "entry 5 = Sys ''open''" "entry 6 = Sys ''close''"
    using entry_positions [of "''open''" "[''open'', ''close'', ''gethostname'']" 5]
      entry_positions [of "''close''" "[''open'', ''close'', ''gethostname'']" 6]
    unfolding module_positions by simp_all
  have "(''cs3013_syscall1'', ''cs3013_syscall1'', 349) \<in> set sys_c_calls"
    "(''cs3013_syscall2'', ''cs3013_syscall2'', 350) \<in> set sys_c_calls"
    "(''cs3013_syscall3'', ''cs3013_syscall3'', 351) \<in> set sys_c_calls" by code_simp+
  then show "entry 349 = Sys ''cs3013_syscall1''" "entry 350 = Sys ''cs3013_syscall2''"
    "entry 351 = Sys ''cs3013_syscall3''"
    using sys_c_entry(2) by (auto simp: NR_syscalls_def)
qed

lemma close_entry: "0 \<le> n \<Longrightarrow> n < NR_syscalls \<Longrightarrow> entry n = Sys ''close'' \<longleftrightarrow> n = 6"
  using entry_positions [of "''close''" "[''open'', ''close'', ''gethostname'']" n]
  unfolding module_positions by auto

lemma table_in_slots:
  assumes "table_in code mm sct"
  shows "mm (slot sct NR_open) = Some (code (Sys ''open''))"
    "mm (slot sct NR_close) = Some (code (Sys ''close''))"
    "mm (slot sct NR_cs3013_syscall1) = Some (code (Sys ''cs3013_syscall1''))"
    "mm (slot sct NR_cs3013_syscall2) = Some (code (Sys ''cs3013_syscall2''))"
    "mm (slot sct NR_cs3013_syscall3) = Some (code (Sys ''cs3013_syscall3''))"
proof -
  have "mm (slot sct (word_of_int n)) = Some (code (entry n))" if "0 \<le> n" "n < 352" for n
    using assms that unfolding table_in_def NR_syscalls_def by blast
  from this [of 5] this [of 6] this [of 349] this [of 350] this [of 351]
  show "mm (slot sct NR_open) = Some (code (Sys ''open''))"
    "mm (slot sct NR_close) = Some (code (Sys ''close''))"
    "mm (slot sct NR_cs3013_syscall1) = Some (code (Sys ''cs3013_syscall1''))"
    "mm (slot sct NR_cs3013_syscall2) = Some (code (Sys ''cs3013_syscall2''))"
    "mm (slot sct NR_cs3013_syscall3) = Some (code (Sys ''cs3013_syscall3''))"
    by (simp_all add: NR_open_def NR_close_def NR_cs3013_syscall1_def NR_cs3013_syscall2_def
        NR_cs3013_syscall3_def module_entries)
qed

end
