(* ===== verification/LoadedModules.thy ===== *)
theory LoadedModules
  imports SyscallTable ProcInfo
begin

text \<open>
  Two of the modules of \<open>project2\<close> together, and the system calls they replace: \<open>cs3013_syscall1\<close> and
  \<open>cs3013_syscall2\<close> of \<open>preproj2/sys.c\<close>, reached through the table, which may hold the function of the kernel
  or the one of \<open>module.c\<close> or \<open>intercept.c\<close>.
\<close>

section \<open>The calls\<close>

definition cs3013_syscall1 :: "kernel \<Rightarrow> int \<times> kernel" where
  "cs3013_syscall1 s = (0, printk (Hello 1) s)"

definition cs3013_syscall2 :: "kernel \<Rightarrow> int \<times> kernel" where
  "cs3013_syscall2 s = (0, printk (Hello 2) s)"

definition cs3013_syscall3 :: "kernel \<Rightarrow> int \<times> kernel" where
  "cs3013_syscall3 s = (0, printk (Hello 3) s)"

text \<open>
  The two calls through the table at \<open>sct\<close>: \<open>old1\<close>, \<open>old2\<close> are the addresses of the kernel's functions,
  \<open>new1\<close>, \<open>new2\<close> those of the modules'. Any other address is a jump into nowhere, \<open>None\<close>. The second
  call returns a value and what it has copied to the user, and may not return.
\<close>

definition do_syscall1 :: "addr \<Rightarrow> addr \<Rightarrow> addr \<Rightarrow> kernel \<Rightarrow> (int \<times> kernel) option" where
  "do_syscall1 sct old1 new1 s =
     do { f \<leftarrow> mem s (slot sct NR_cs3013_syscall1);
          if f = old1 then Some (cs3013_syscall1 s)
          else if f = new1 then Some (new_hello s) else None }"

definition do_syscall2 ::
  "addr \<Rightarrow> addr \<Rightarrow> addr \<Rightarrow> links \<Rightarrow> current \<Rightarrow> bool \<Rightarrow> kernel \<Rightarrow> (int \<times> processinfo option \<times> kernel) option" where
  "do_syscall2 sct old2 new2 L c copy_ok s =
     do { f \<leftarrow> mem s (slot sct NR_cs3013_syscall2);
          if f = old2 then (let (r, s') = cs3013_syscall2 s in Some (r, None, s'))
          else if f = new2 then
            do { (r, info) \<leftarrow> new_sys_cs3013_syscall2 L c copy_ok; Some (r, info, s) }
          else None }"

definition do_syscall3 :: "addr \<Rightarrow> addr \<Rightarrow> kernel \<Rightarrow> (int \<times> kernel) option" where
  "do_syscall3 sct old3 s =
     do { f \<leftarrow> mem s (slot sct NR_cs3013_syscall3);
          if f = old3 then Some (cs3013_syscall3 s) else None }"

text \<open>
  \<open>proj2test.c\<close> makes the three calls and prints what they return; \<open>syscall\<close> of the C library turns the
  numbers of errors into -1. \<open>testCall2\<close> passes no structure: where the call would copy to is whatever the
  register holds, and so is \<open>copy_ok\<close>.
\<close>

definition syscall_result :: "int \<Rightarrow> int" where
  "syscall_result r = (if - 4095 \<le> r \<and> r \<le> - 1 then - 1 else r)"

definition proj2test ::
  "addr \<Rightarrow> (handler \<Rightarrow> addr) \<Rightarrow> addr \<Rightarrow> addr \<Rightarrow> links \<Rightarrow> current \<Rightarrow> bool \<Rightarrow> kernel \<Rightarrow>
     ((int \<times> int \<times> int) \<times> kernel) option" where
  "proj2test sct code new1 new2 L c copy_ok s =
     do { (r1, s1) \<leftarrow> do_syscall1 sct (code (Sys ''cs3013_syscall1'')) new1 s;
          (r2, info, s2) \<leftarrow> do_syscall2 sct (code (Sys ''cs3013_syscall2'')) new2 L c copy_ok s1;
          (r3, s3) \<leftarrow> do_syscall3 sct (code (Sys ''cs3013_syscall3'')) s2;
          Some ((syscall_result r1, syscall_result r2, syscall_result r3), s3) }"

text \<open>\<open>hello.c\<close>, the module that replaces nothing.\<close>

definition hello_init :: "kernel \<Rightarrow> int \<times> kernel" where
  "hello_init s = (0, printk Hello_world s)"

definition hello_cleanup :: "kernel \<Rightarrow> kernel" where
  "hello_cleanup s = printk Cleaning_up s"

text \<open>On a kernel without modules \<open>proj2test\<close> prints three zeros, and the kernel three greetings.\<close>

lemma proj2test_plain:
  assumes "table_in code (mem s) sct"
  shows "proj2test sct code new1 new2 L c copy_ok s =
    Some ((0, 0, 0), printk (Hello 3) (printk (Hello 2) (printk (Hello 1) s)))"
  using table_in_slots(3-5) [OF assms]
  by (simp add: proj2test_def do_syscall1_def do_syscall2_def do_syscall3_def cs3013_syscall1_def
      cs3013_syscall2_def cs3013_syscall3_def syscall_result_def printk_def)

text \<open>With both modules the second number is what the call of \<open>intercept.c\<close> returns.\<close>

lemma proj2test_loaded:
  assumes "mem s (slot sct NR_cs3013_syscall1) = Some new1" "mem s (slot sct NR_cs3013_syscall2) = Some new2"
    and "mem s (slot sct NR_cs3013_syscall3) = Some (code (Sys ''cs3013_syscall3''))"
    and "new1 \<noteq> code (Sys ''cs3013_syscall1'')" "new2 \<noteq> code (Sys ''cs3013_syscall2'')"
  shows "proj2test sct code new1 new2 L c copy_ok s =
    map_option (\<lambda>(r, info). ((0, syscall_result r, 0), printk (Hello 3) (printk Dalek s)))
      (new_sys_cs3013_syscall2 L c copy_ok)"
  using assms
  by (cases "new_sys_cs3013_syscall2 L c copy_ok")
    (auto simp: proj2test_def do_syscall1_def do_syscall2_def do_syscall3_def new_hello_def
      cs3013_syscall3_def syscall_result_def printk_def)

section \<open>Two modules at a time\<close>

text \<open>The layout for both modules gives that for each, also after changes that unmap nothing.\<close>

lemma layout_ok_appendD:
  assumes "layout_ok ro sct (hs @ hs') s"
  shows "layout_ok ro sct hs s" "layout_ok ro sct hs' s"
  using assms unfolding layout_ok_def by auto

lemma start_maps:
  assumes "layout_ok ro sct hs s" "mem s a \<noteq> None"
    and "\<forall>h\<in>set hs. mem t (slot sct (h_nr h)) = Some (h_new h) \<and> mem t (h_ref h) = mem s (slot sct (h_nr h))"
    and "\<forall>a. a \<notin> (\<lambda>h. slot sct (h_nr h)) ` set hs \<longrightarrow> a \<notin> h_ref ` set hs \<longrightarrow> mem t a = mem s a"
  shows "mem t a \<noteq> None"
proof (cases "\<exists>h\<in>set hs. a = slot sct (h_nr h) \<or> a = h_ref h")
  case True
  then show ?thesis using assms(1,3) unfolding layout_ok_def by force
next
  case False
  then show ?thesis using assms(2,4) by auto
qed

abbreviation slots_of :: "addr \<Rightarrow> hooks \<Rightarrow> addr set" where
  "slots_of sct hs \<equiv> (\<lambda>h. slot sct (h_nr h)) ` set hs"

lemma load_two:
  assumes "find_sys_call_table sc s = Some (Found sct, s0)" "sct \<noteq> 0" "layout_ok ro sct (hs @ hs') s"
    and "\<forall>h\<in>set hs. h_new h \<noteq> sc \<and> mem s (slot sct (h_nr h)) \<noteq> Some sc \<and> h_ref h \<noteq> slot sct NR_close"
  shows "\<exists>s1 s2. interceptor_start ro sc hs s = Returns 0 sct s1 \<and>
    interceptor_start ro sc hs' s1 = Returns 0 sct s2 \<and>
    (\<forall>h\<in>set (hs @ hs'). mem s2 (slot sct (h_nr h)) = Some (h_new h) \<and>
       mem s2 (h_ref h) = mem s (slot sct (h_nr h))) \<and>
    (\<forall>a. a \<notin> slots_of sct (hs @ hs') \<longrightarrow> a \<notin> h_ref ` set (hs @ hs') \<longrightarrow> mem s2 a = mem s a)"
proof -
  note l = layout_ok_appendD [OF assms(3)]
  from interceptor_start_ok [OF assms(1,2) l(1)] obtain s1 where s1: "interceptor_start ro sc hs s = Returns 0 sct s1"
    "\<forall>h\<in>set hs. mem s1 (slot sct (h_nr h)) = Some (h_new h) \<and> mem s1 (h_ref h) = mem s (slot sct (h_nr h))"
    "\<forall>a. a \<notin> slots_of sct hs \<longrightarrow> a \<notin> h_ref ` set hs \<longrightarrow> mem s1 a = mem s a" by blast
  have close: "mem s (slot sct NR_close) = Some sc" by (rule find_has_close [OF assms(1)])
  have "mem s1 (slot sct NR_close) = Some sc"
  proof -
    have "slot sct NR_close \<notin> slots_of sct hs" using assms(4) close by auto
    moreover have "slot sct NR_close \<notin> h_ref ` set hs" using assms(4) by auto
    ultimately show ?thesis using s1(3) close by simp
  qed
  moreover have "mem s1 a = mem s a \<or> (\<exists>v. mem s1 a = Some v \<and> v \<noteq> sc)" for a
  proof (cases "a \<in> slots_of sct hs \<or> a \<in> h_ref ` set hs")
    case True
    then obtain h where h: "h \<in> set hs" "a = slot sct (h_nr h) \<or> a = h_ref h" by blast
    then have "mem s (slot sct (h_nr h)) \<noteq> None" using l(1) by (auto simp: layout_ok_def)
    then show ?thesis using h s1(2) assms(4) by auto
  next
    case False
    then show ?thesis using s1(3) by blast
  qed
  ultimately have f: "find_sys_call_table sc s1 = Some (Found sct, printk (Found_at sct) s1)"
    by (rule find_after_changes [OF assms(1)])
  have "layout_ok ro sct hs' s1"
    using layout_ok_mapped [OF l(2)] start_maps [OF l(1) _ s1(2,3)] by blast
  from interceptor_start_ok [OF f assms(2) this] obtain s2 where
    s2: "interceptor_start ro sc hs' s1 = Returns 0 sct s2"
    "\<forall>h\<in>set hs'. mem s2 (slot sct (h_nr h)) = Some (h_new h) \<and> mem s2 (h_ref h) = mem s1 (slot sct (h_nr h))"
    "\<forall>a. a \<notin> slots_of sct hs' \<longrightarrow> a \<notin> h_ref ` set hs' \<longrightarrow> mem s2 a = mem s1 a" by blast
  have apart: "slot sct (h_nr h) \<notin> slots_of sct hs' \<union> h_ref ` set hs'" "h_ref h \<notin> slots_of sct hs' \<union> h_ref ` set hs'"
    if "h \<in> set hs" for h
    using assms(3) that by (auto simp: layout_ok_def)
  have apart': "slot sct (h_nr h) \<notin> slots_of sct hs \<union> h_ref ` set hs" if "h \<in> set hs'" for h
    using assms(3) that by (auto simp: layout_ok_def)
  have "mem s2 (slot sct (h_nr h)) = Some (h_new h) \<and> mem s2 (h_ref h) = mem s (slot sct (h_nr h))"
    if "h \<in> set (hs @ hs')" for h
  proof (cases "h \<in> set hs")
    case True
    then show ?thesis using s1(2) s2(3) apart by simp
  next
    case False
    then have "h \<in> set hs'" using that by simp
    then show ?thesis using s2(2) s1(3) apart' by simp
  qed
  moreover have "mem s2 a = mem s a" if "a \<notin> slots_of sct (hs @ hs')" "a \<notin> h_ref ` set (hs @ hs')" for a
    using that s1(3) s2(3) by (simp add: image_Un)
  ultimately show ?thesis using s1(1) s2(1) by blast
qed

lemma unload_two:
  assumes "sct \<noteq> 0" "layout_ok ro sct (hs @ hs') s"
  shows "\<exists>s1 s2. interceptor_end ro sct hs s = Some s1 \<and> interceptor_end ro sct hs' s1 = Some s2 \<and>
    (\<forall>h\<in>set (hs @ hs'). mem s2 (slot sct (h_nr h)) = mem s (h_ref h)) \<and>
    (\<forall>a. a \<notin> slots_of sct (hs @ hs') \<longrightarrow> mem s2 a = mem s a)"
proof -
  note l = layout_ok_appendD [OF assms(2)]
  from interceptor_end_ok [OF assms(1) l(1)] obtain s1 where s1: "interceptor_end ro sct hs s = Some s1"
    "\<forall>h\<in>set hs. mem s1 (slot sct (h_nr h)) = mem s (h_ref h)"
    "\<forall>a. a \<notin> slots_of sct hs \<longrightarrow> mem s1 a = mem s a" by blast
  have "mem s1 a \<noteq> None" if "mem s a \<noteq> None" for a
  proof (cases "a \<in> slots_of sct hs")
    case True
    then obtain h where "h \<in> set hs" "a = slot sct (h_nr h)" by blast
    then show ?thesis using s1(2) l(1) by (simp add: layout_ok_def)
  next
    case False
    then show ?thesis using s1(3) that by simp
  qed
  then have "layout_ok ro sct hs' s1" using layout_ok_mapped [OF l(2)] by blast
  from interceptor_end_ok [OF assms(1) this] obtain s2 where s2: "interceptor_end ro sct hs' s1 = Some s2"
    "\<forall>h\<in>set hs'. mem s2 (slot sct (h_nr h)) = mem s1 (h_ref h)"
    "\<forall>a. a \<notin> slots_of sct hs' \<longrightarrow> mem s2 a = mem s1 a" by blast
  have "mem s2 (slot sct (h_nr h)) = mem s (h_ref h)" if "h \<in> set (hs @ hs')" for h
  proof (cases "h \<in> set hs")
    case True
    then have "slot sct (h_nr h) \<notin> slots_of sct hs'" using assms(2) by (auto simp: layout_ok_def)
    then show ?thesis using True s1(2) s2(3) by simp
  next
    case False
    then have h: "h \<in> set hs'" using that by simp
    then have "h_ref h \<notin> slots_of sct hs" using assms(2) by (auto simp: layout_ok_def)
    then show ?thesis using h s2(2) s1(3) by simp
  qed
  moreover have "mem s2 a = mem s a" if "a \<notin> slots_of sct (hs @ hs')" for a
    using that s1(3) s2(3) by (simp add: image_Un)
  ultimately show ?thesis using s1(1) s2(1) by blast
qed

section \<open>The property\<close>

text \<open>The state of the calls when both modules are gone.\<close>

definition restored ::
  "addr \<Rightarrow> addr \<Rightarrow> addr \<Rightarrow> addr \<Rightarrow> addr \<Rightarrow> addr \<Rightarrow> addr \<Rightarrow> kernel \<Rightarrow> kernel \<Rightarrow> bool" where
  "restored sct old1 new1 ref1 old2 new2 ref2 s t \<longleftrightarrow>
     (\<forall>a. a \<notin> {ref1, ref2} \<longrightarrow> mem t a = mem s a) \<and>
     do_syscall1 sct old1 new1 t = Some (0, printk (Hello 1) t) \<and>
     (\<forall>L c copy_ok. do_syscall2 sct old2 new2 L c copy_ok t = Some (0, None, printk (Hello 2) t))"

lemma restoredI:
  assumes "\<forall>a. a \<notin> {ref1, ref2} \<longrightarrow> mem t a = mem s a"
    and "mem t (slot sct NR_cs3013_syscall1) = Some old1" "mem t (slot sct NR_cs3013_syscall2) = Some old2"
  shows "restored sct old1 new1 ref1 old2 new2 ref2 s t"
  using assms by (simp add: restored_def do_syscall1_def do_syscall2_def cs3013_syscall1_def cs3013_syscall2_def)

text \<open>Unloading both, in the order of \<open>hs\<close> and \<open>hs'\<close>, when the variables hold what was in the slots.\<close>

lemma unload_restores:
  assumes "sct \<noteq> 0" "layout_ok ro sct (hs @ hs') s2" "h_ref ` set (hs @ hs') = {ref1, ref2}"
    and "slots_of sct (hs @ hs') = {slot sct NR_cs3013_syscall1, slot sct NR_cs3013_syscall2}"
    and "mem s (slot sct NR_cs3013_syscall1) = Some old1" "mem s (slot sct NR_cs3013_syscall2) = Some old2"
    and "\<forall>h\<in>set (hs @ hs'). mem s2 (h_ref h) = mem s (slot sct (h_nr h))"
    and "\<forall>a. a \<notin> slots_of sct (hs @ hs') \<longrightarrow> a \<notin> h_ref ` set (hs @ hs') \<longrightarrow> mem s2 a = mem s a"
  shows "\<exists>s3 s4. interceptor_end ro sct hs s2 = Some s3 \<and> interceptor_end ro sct hs' s3 = Some s4 \<and>
    restored sct old1 new1 ref1 old2 new2 ref2 s s4"
proof -
  from unload_two [OF assms(1,2)] obtain s3 s4 where
    e: "interceptor_end ro sct hs s2 = Some s3" "interceptor_end ro sct hs' s3 = Some s4"
    "\<forall>h\<in>set (hs @ hs'). mem s4 (slot sct (h_nr h)) = mem s2 (h_ref h)"
    "\<forall>a. a \<notin> slots_of sct (hs @ hs') \<longrightarrow> mem s4 a = mem s2 a" by blast
  have slots: "mem s4 a = mem s a" if "a \<in> slots_of sct (hs @ hs')" for a
    using that e(3) assms(7) by auto
  moreover have "mem s4 a = mem s a" if "a \<notin> slots_of sct (hs @ hs')" "a \<notin> {ref1, ref2}" for a
    using that e(4) assms(3,8) by auto
  ultimately have "\<forall>a. a \<notin> {ref1, ref2} \<longrightarrow> mem s4 a = mem s a" by blast
  moreover have "mem s4 (slot sct NR_cs3013_syscall1) = Some old1" "mem s4 (slot sct NR_cs3013_syscall2) = Some old2"
    using slots assms(4-6) by auto
  ultimately show ?thesis using e(1,2) restoredI by blast
qed

lemma load_both:
  assumes "find_sys_call_table sc s = Some (Found sct, s0)" "sct \<noteq> 0"
    and "layout_ok ro sct (hello_hooks new1 ref1 @ intercept_hooks new2 ref2) s" "ref1 \<noteq> slot sct NR_close"
    and "mem s (slot sct NR_cs3013_syscall1) = Some old1" "mem s (slot sct NR_cs3013_syscall2) = Some old2"
    and "sc \<notin> {new1, old1}" "new1 \<noteq> old1" "new2 \<noteq> old2"
  shows "\<exists>s1 s2. hello_start ro sc new1 ref1 s = Returns 0 sct s1 \<and>
    intercept_start ro sc new2 ref2 s1 = Returns 0 sct s2 \<and>
    do_syscall1 sct old1 new1 s2 = Some (0, printk Dalek s2) \<and>
    do_syscall2 sct old2 new2 L c copy_ok s2 =
      map_option (\<lambda>(r, info). (r, info, s2)) (new_sys_cs3013_syscall2 L c copy_ok) \<and>
    mem s2 (slot sct NR_cs3013_syscall1) = Some new1 \<and> mem s2 (slot sct NR_cs3013_syscall2) = Some new2 \<and>
    (\<forall>a. a \<notin> {slot sct NR_cs3013_syscall1, slot sct NR_cs3013_syscall2, ref1, ref2} \<longrightarrow> mem s2 a = mem s a) \<and>
    (\<exists>s3 s4. hello_end ro sct new1 ref1 s2 = Some s3 \<and> intercept_end ro sct new2 ref2 s3 = Some s4 \<and>
       restored sct old1 new1 ref1 old2 new2 ref2 s s4) \<and>
    (\<exists>s3 s4. intercept_end ro sct new2 ref2 s2 = Some s3 \<and> hello_end ro sct new1 ref1 s3 = Some s4 \<and>
       restored sct old1 new1 ref1 old2 new2 ref2 s s4)"
proof -
  let ?h = "hello_hooks new1 ref1" and ?i = "intercept_hooks new2 ref2"
  have "\<forall>h\<in>set ?h. h_new h \<noteq> sc \<and> mem s (slot sct (h_nr h)) \<noteq> Some sc \<and> h_ref h \<noteq> slot sct NR_close"
    using assms(4,5,7) by (auto simp: hello_hooks_def)
  from load_two [OF assms(1-3) this] obtain s1 s2 where
    st: "interceptor_start ro sc ?h s = Returns 0 sct s1" "interceptor_start ro sc ?i s1 = Returns 0 sct s2"
    and on: "\<forall>h\<in>set (?h @ ?i). mem s2 (slot sct (h_nr h)) = Some (h_new h) \<and>
       mem s2 (h_ref h) = mem s (slot sct (h_nr h))"
    and frame: "\<forall>a. a \<notin> slots_of sct (?h @ ?i) \<longrightarrow> a \<notin> h_ref ` set (?h @ ?i) \<longrightarrow> mem s2 a = mem s a"
    by blast
  have l: "layout_ok ro sct (?h @ ?i) s2"
    using layout_ok_mapped [OF assms(3)] start_maps [OF assms(3) _ on frame] by blast
  have l': "layout_ok ro sct (?i @ ?h) s2"
    using l by (auto simp: layout_ok_def hello_hooks_def intercept_hooks_def)
  have refs: "h_ref ` set (?h @ ?i) = {ref1, ref2}" "h_ref ` set (?i @ ?h) = {ref1, ref2}"
    and slots: "slots_of sct (?h @ ?i) = {slot sct NR_cs3013_syscall1, slot sct NR_cs3013_syscall2}"
      "slots_of sct (?i @ ?h) = {slot sct NR_cs3013_syscall1, slot sct NR_cs3013_syscall2}"
    by (auto simp: hello_hooks_def intercept_hooks_def)
  have sym: "set (?i @ ?h) = set (?h @ ?i)" by auto
  have news: "mem s2 (slot sct NR_cs3013_syscall1) = Some new1" "mem s2 (slot sct NR_cs3013_syscall2) = Some new2"
    using on by (auto simp: hello_hooks_def intercept_hooks_def)
  moreover have "\<forall>a. a \<notin> {slot sct NR_cs3013_syscall1, slot sct NR_cs3013_syscall2, ref1, ref2} \<longrightarrow> mem s2 a = mem s a"
    using frame unfolding slots refs by blast
  moreover have "do_syscall1 sct old1 new1 s2 = Some (0, printk Dalek s2)"
    "do_syscall2 sct old2 new2 L c copy_ok s2 =
      map_option (\<lambda>(r, info). (r, info, s2)) (new_sys_cs3013_syscall2 L c copy_ok)"
    using news assms(8,9)
    by (cases "new_sys_cs3013_syscall2 L c copy_ok"; auto simp: do_syscall1_def do_syscall2_def new_hello_def)+
  moreover have "\<exists>s3 s4. interceptor_end ro sct ?h s2 = Some s3 \<and> interceptor_end ro sct ?i s3 = Some s4 \<and>
      restored sct old1 new1 ref1 old2 new2 ref2 s s4"
    using unload_restores [OF assms(2) l refs(1) slots(1) assms(5,6) _ frame] on by blast
  moreover have "\<exists>s3 s4. interceptor_end ro sct ?i s2 = Some s3 \<and> interceptor_end ro sct ?h s3 = Some s4 \<and>
      restored sct old1 new1 ref1 old2 new2 ref2 s s4"
    using unload_restores [OF assms(2) l' refs(2) slots(2) assms(5,6)] on frame unfolding sym by blast
  ultimately show ?thesis
    using st unfolding hello_start_def intercept_start_def hello_end_def intercept_end_def by blast
qed

text \<open>The table is that of \<open>preproj2\<close> again when all but two words outside it are.\<close>

lemma table_restored:
  assumes "table_in code (mem s) sct" "\<forall>a. a \<notin> {ref1, ref2} \<longrightarrow> mem t a = mem s a"
    and "\<forall>n. 0 \<le> n \<longrightarrow> n < NR_syscalls \<longrightarrow> slot sct (word_of_int n) \<notin> {ref1, ref2}"
  shows "table_in code (mem t) sct"
  using assms unfolding table_in_def by simp

text \<open>
  C16. \<open>module.c\<close> and \<open>intercept.c\<close> do not disturb each other. In a memory with the table of \<open>preproj2\<close> that the
  search finds, and the variables of the modules outside the table, both can be loaded; then
  \<open>proj2test\<close> prints 0 for the first and the third call and for the second what the call of \<open>intercept.c\<close>
  returns, or runs for ever with the lists it is given, and the log shows the line of \<open>module.c\<close> and the kernel's
  third greeting. Unloading them in either order restores the memory, but for their variables,
  and with it the table: \<open>proj2test\<close> prints three zeros and the kernel its three greetings.
\<close>

theorem two_modules:
  assumes "find_sys_call_table (code (Sys ''close'')) s = Some (Found sct, s0)" "sct \<noteq> 0"
    and "table_in code (mem s) sct"
    and "layout_ok ro sct (hello_hooks new1 ref1 @ intercept_hooks new2 ref2) s"
    and "\<forall>n. 0 \<le> n \<longrightarrow> n < NR_syscalls \<longrightarrow> slot sct (word_of_int n) \<notin> {ref1, ref2}"
    and "code (Sys ''close'') \<notin> {new1, code (Sys ''cs3013_syscall1'')}"
    and "new1 \<noteq> code (Sys ''cs3013_syscall1'')" "new2 \<noteq> code (Sys ''cs3013_syscall2'')"
  shows "\<exists>s1 s2. hello_start ro (code (Sys ''close'')) new1 ref1 s = Returns 0 sct s1 \<and>
    intercept_start ro (code (Sys ''close'')) new2 ref2 s1 = Returns 0 sct s2 \<and>
    proj2test sct code new1 new2 L c copy_ok s2 =
      map_option (\<lambda>(r, info). ((0, syscall_result r, 0), printk (Hello 3) (printk Dalek s2)))
        (new_sys_cs3013_syscall2 L c copy_ok) \<and>
    (\<forall>s4. (\<exists>s3. hello_end ro sct new1 ref1 s2 = Some s3 \<and> intercept_end ro sct new2 ref2 s3 = Some s4) \<or>
        (\<exists>s3. intercept_end ro sct new2 ref2 s2 = Some s3 \<and> hello_end ro sct new1 ref1 s3 = Some s4) \<longrightarrow>
      (\<forall>a. a \<notin> {ref1, ref2} \<longrightarrow> mem s4 a = mem s a) \<and> table_in code (mem s4) sct \<and>
      proj2test sct code new1 new2 L c copy_ok s4 =
        Some ((0, 0, 0), printk (Hello 3) (printk (Hello 2) (printk (Hello 1) s4)))) \<and>
    (\<exists>s3. hello_end ro sct new1 ref1 s2 = Some s3 \<and> intercept_end ro sct new2 ref2 s3 \<noteq> None) \<and>
    (\<exists>s3. intercept_end ro sct new2 ref2 s2 = Some s3 \<and> hello_end ro sct new1 ref1 s3 \<noteq> None)"
proof -
  note slots = table_in_slots [OF assms(3)]
  have outside: "slot sct n \<notin> {ref1, ref2}" if "uint n < 352" for n
    using assms(5) [rule_format, of "uint n"] that by (simp add: NR_syscalls_def)
  have "ref1 \<noteq> slot sct NR_close" using outside [of NR_close] by (auto simp: NR_close_def)
  from load_both [OF assms(1,2,4) this slots(3,4) assms(6-8)] obtain s1 s2 where
    st: "hello_start ro (code (Sys ''close'')) new1 ref1 s = Returns 0 sct s1"
      "intercept_start ro (code (Sys ''close'')) new2 ref2 s1 = Returns 0 sct s2"
    and on: "mem s2 (slot sct NR_cs3013_syscall1) = Some new1" "mem s2 (slot sct NR_cs3013_syscall2) = Some new2"
      "\<forall>a. a \<notin> {slot sct NR_cs3013_syscall1, slot sct NR_cs3013_syscall2, ref1, ref2} \<longrightarrow> mem s2 a = mem s a"
    and off: "\<exists>s3 s4. hello_end ro sct new1 ref1 s2 = Some s3 \<and> intercept_end ro sct new2 ref2 s3 = Some s4 \<and>
        (\<forall>a. a \<notin> {ref1, ref2} \<longrightarrow> mem s4 a = mem s a)"
      "\<exists>s3 s4. intercept_end ro sct new2 ref2 s2 = Some s3 \<and> hello_end ro sct new1 ref1 s3 = Some s4 \<and>
        (\<forall>a. a \<notin> {ref1, ref2} \<longrightarrow> mem s4 a = mem s a)"
    unfolding restored_def by blast
  have "slot sct NR_cs3013_syscall3 \<notin> {slot sct NR_cs3013_syscall1, slot sct NR_cs3013_syscall2, ref1, ref2}"
    using outside [of NR_cs3013_syscall3, unfolded NR_cs3013_syscall3_def]
    by (auto simp: slot_def NR_cs3013_syscall1_def NR_cs3013_syscall2_def NR_cs3013_syscall3_def)
  then have "mem s2 (slot sct NR_cs3013_syscall3) = Some (code (Sys ''cs3013_syscall3''))"
    using on(3) slots(5) by simp
  note loaded = proj2test_loaded [OF on(1,2) this assms(7,8)]
  have again: "table_in code (mem t) sct \<and> proj2test sct code new1 new2 L c copy_ok t =
        Some ((0, 0, 0), printk (Hello 3) (printk (Hello 2) (printk (Hello 1) t)))"
    if "\<forall>a. a \<notin> {ref1, ref2} \<longrightarrow> mem t a = mem s a" for t
    using table_restored [OF assms(3) that assms(5)] proj2test_plain by blast
  show ?thesis
    by (rule exI [of _ s1], rule exI [of _ s2]) (use st loaded off again in fastforce)
qed

text \<open>
  A kernel with the table in a read-only page, \<open>close\<close> at 99, the two calls at 21 and 22, all other
  functions at 1.
\<close>

definition demo_code :: "handler \<Rightarrow> addr" where
  "demo_code h = (if h = Sys ''close'' then 99 else if h = Sys ''cs3013_syscall1'' then 21
     else if h = Sys ''cs3013_syscall2'' then 22 else 1)"

definition demo_index :: "addr \<Rightarrow> int" where
  "demo_index a = uint (a - demo_table) div 4"

definition demo_kernel2 :: kernel where
  "demo_kernel2 = \<lparr>mem = (\<lambda>a. Some (if aligned a \<and> demo_index a < NR_syscalls
     then demo_code (entry (demo_index a)) else 0)), cr0 = 0x80010000, klog = []\<rparr>"

lemma demo_index_slot: "0 \<le> n \<Longrightarrow> n < NR_syscalls \<Longrightarrow> demo_index (slot demo_table (word_of_int n)) = n"
  by (simp add: demo_index_def slot_def uint_word_ariths uint_word_of_int NR_syscalls_def)

lemma demo_aligned: "aligned (slot demo_table n)"
  by (rule aligned_slot) (simp add: aligned_def demo_table_def)

lemma demo2_table: "table_in demo_code (mem demo_kernel2) demo_table"
  by (simp add: table_in_def demo_kernel2_def demo_index_slot demo_aligned)

lemma demo_code_close: "demo_code h = 99 \<longleftrightarrow> h = Sys ''close''"
  by (simp add: demo_code_def)

lemma demo2_sole: "sole (mem demo_kernel2) 99 demo_table"
proof -
  have "demo_index a = 6 \<longleftrightarrow> a = slot demo_table NR_close" if "aligned a" for a
  proof
    assume i: "demo_index a = 6"
    have "aligned (a - demo_table)" using aligned_diff [OF that, of demo_table] by (simp add: aligned_def demo_table_def)
    then have "uint (a - demo_table) = 24" using i by (auto simp: aligned_def demo_index_def)
    then have "a - demo_table = 24" by (simp add: word_uint_eq_iff)
    then show "a = slot demo_table NR_close" by (simp add: slot_def NR_close_def algebra_simps)
  qed (simp add: demo_index_def slot_def NR_close_def)
  moreover have "0 \<le> demo_index a" for a
    unfolding demo_index_def by (rule pos_imp_zdiv_nonneg_iff [THEN iffD2]) simp_all
  moreover have "demo_index (slot demo_table NR_close) = 6"
    by (simp add: demo_index_def slot_def NR_close_def)
  moreover have "aligned demo_table" by (simp add: aligned_def demo_table_def)
  ultimately show ?thesis
    using close_entry by (auto simp: sole_def demo_kernel2_def demo_code_close NR_syscalls_def)
qed

lemma demo2_layout:
  "layout_ok demo_ro demo_table (hello_hooks 11 0xD0000000 @ intercept_hooks 12 0xD0000004) demo_kernel2"
  by (simp add: layout_ok_def demo_ro_def demo_kernel2_def demo_table_def hello_hooks_def
      intercept_hooks_def slot_def NR_cs3013_syscall1_def NR_cs3013_syscall2_def)

lemma demo_slot_bound: "0 \<le> n \<Longrightarrow> n < NR_syscalls \<Longrightarrow> uint (slot demo_table (word_of_int n)) < 0xD0000000"
  by (simp add: demo_table_def slot_def uint_word_ariths uint_word_of_int NR_syscalls_def)

corollary two_modules_witness:
  "\<exists>s1 s2 s3. hello_start demo_ro 99 11 0xD0000000 demo_kernel2 = Returns 0 demo_table s1 \<and>
     intercept_start demo_ro 99 12 0xD0000004 s1 = Returns 0 demo_table s2 \<and>
     proj2test demo_table demo_code 11 12 demo_links demo_current False s2 =
       Some ((0, syscall_result EFAULT, 0), printk (Hello 3) (printk Dalek s2)) \<and>
     hello_end demo_ro demo_table 11 0xD0000000 s2 = Some s3"
proof -
  have c: "demo_code (Sys ''close'') = 99" "demo_code (Sys ''cs3013_syscall1'') = 21"
    "demo_code (Sys ''cs3013_syscall2'') = 22" by (simp_all add: demo_code_def)
  have a: "\<forall>n. 0 \<le> n \<longrightarrow> n < NR_syscalls \<longrightarrow>
      slot demo_table (word_of_int n) \<notin> {0xD0000000, 0xD0000004}"
    "99 \<notin> {11, 21 :: addr}" "(11 :: addr) \<noteq> 21" "(12 :: addr) \<noteq> 22"
    using demo_slot_bound by force+
  have f: "new_sys_cs3013_syscall2 demo_links demo_current False = Some (EFAULT, None)"
    using new_sys_youngest [OF demo_rings(1,2), of False] by auto
  show ?thesis
    using two_modules [of demo_code, unfolded c, OF sole_find [OF demo2_sole] demo_table_pos demo2_table
        demo2_layout a, of demo_links demo_current False] f by auto
qed

end
