(* ===== verification/UserTests.thy ===== *)
theory UserTests
  imports ProcInfo "HOL-Library.Sublist" "HOL-Library.Multiset"
begin

text \<open>
  The programs of \<open>project2\<close> that try the process information call: \<open>test.c\<close>, and \<open>testnull.c\<close>, which
  differs from it in one argument. \<open>main\<close> forks a child, which forks a child of its own; each of the
  three processes calls system call 350 and prints the structure. A process is the rest of its
  statements with its variables. What the kernel shows the call of the processes is a parameter,
  \<open>view\<close>; \<open>malloc\<close> is taken to succeed, with unknown contents of the memory. What is printed is in
  the order of the calls, as on a terminal; a redirected output is written at the end of each process
  only, so that of a process that is killed may be lost.
\<close>

section \<open>The programs\<close>

datatype program = Test | Testnull

datatype stmt = Fork_pid | Fork_childpid | Test_call bool | Print_info string
  | Waitpid_pid | Waitpid_childpid | Sleep nat | Free_pinfo

text \<open>\<open>Test_call True\<close> passes \<open>pinfo\<close>, \<open>Test_call False\<close> passes \<open>NULL\<close>.\<close>

definition parent_branch :: "stmt list" where
  "parent_branch = [Test_call True, Print_info ''Parent Process begin'', Waitpid_pid]"

definition child_branch :: "stmt list" where
  "child_branch = [Test_call True, Print_info ''Child process'', Waitpid_childpid]"

definition grandchild_branch :: "program \<Rightarrow> stmt list" where
  "grandchild_branch prog =
     [Sleep 4, Test_call (prog = Test), Print_info ''child of child process'']"

definition main_code :: "stmt list" where
  "main_code = [Fork_pid, Free_pinfo]"

record process =
  todo :: "stmt list"
  v_pid :: int
  v_childpid :: int
  pinfo :: processinfo

text \<open>The labels and values \<open>print_info\<close> prints; the \<open>uid\<close> is not among them.\<close>

definition print_info :: "processinfo \<Rightarrow> (string \<times> int) list" where
  "print_info i =
     [(''state'', state i), (''pid'', pid i), (''parent_pid'', parent_pid i),
      (''youngest_child'', youngest_child i), (''younger_sibling'', younger_sibling i),
      (''older_sibling'', older_sibling i), (''start time'', sint (start_time i)),
      (''user time'', sint (user_time i)), (''sys time'', sint (sys_time i)),
      (''cutime'', sint (cutime i)), (''cstime'', sint (cstime i))]"

text \<open>The processes, who forked whom (children not yet waited for, in order), and what has been
  printed: descriptions and values.\<close>

record world =
  procs :: "int \<Rightarrow> process option"
  parent_of :: "int \<Rightarrow> int"
  children :: "int \<Rightarrow> int list"
  printed_info :: "(string \<times> (string \<times> int) list) list"

definition test_init :: "int \<Rightarrow> int \<Rightarrow> processinfo \<Rightarrow> world" where
  "test_init P parent mem =
     \<lparr>procs = [P \<mapsto> \<lparr>todo = main_code, v_pid = 0, v_childpid = 0, pinfo = mem\<rparr>],
      parent_of = (\<lambda>_. 0)(P := parent), children = (\<lambda>_. []), printed_info = []\<rparr>"

definition goes_on :: "world \<Rightarrow> int \<Rightarrow> process \<Rightarrow> world" where
  "goes_on w p pr = w\<lparr>procs := (procs w)(p \<mapsto> pr)\<rparr>"

definition forked :: "world \<Rightarrow> int \<Rightarrow> process \<Rightarrow> int \<Rightarrow> process \<Rightarrow> world" where
  "forked w p pr q qr =
     w\<lparr>procs := (procs w)(p \<mapsto> pr, q \<mapsto> qr), parent_of := (parent_of w)(q := p),
       children := (children w)(p := children w p @ [q], q := [])\<rparr>"

text \<open>The children \<open>waitpid\<close> waits for: the one named, or any for -1.\<close>

definition waited :: "world \<Rightarrow> int \<Rightarrow> int \<Rightarrow> int list" where
  "waited w p t = filter (\<lambda>c. t = - 1 \<or> c = t) (children w p)"

definition has_ended :: "world \<Rightarrow> int \<Rightarrow> bool" where
  "has_ended w p \<longleftrightarrow> (case procs w p of Some pr \<Rightarrow> todo pr = [] | None \<Rightarrow> False)"

text \<open>\<open>waitpid\<close> returns at once when there is no such child, else when one has ended, which is then
  gone from the list of children.\<close>

inductive wait_for :: "world \<Rightarrow> int \<Rightarrow> int \<Rightarrow> world \<Rightarrow> bool" where
  no_child: "waited w p t = [] \<Longrightarrow> wait_for w p t w"
| child_ended: "c \<in> set (waited w p t) \<Longrightarrow> has_ended w c \<Longrightarrow>
    wait_for w p t (w\<lparr>children := (children w)(p := remove1 c (children w p))\<rparr>)"

text \<open>
  \<open>waitpid(childpid, status, 0)\<close> gives the kernel the value of the uninitialised \<open>status\<close> for an address. When a
  child has ended, its status is written there: the process goes on with other values in its
  memory, or is killed for it before its end (in \<open>free\<close>, say). \<open>v_childpid\<close> keeps what \<open>fork\<close> has returned; the
  programs do not read it again. Nothing is written when there was no child.
\<close>

definition overwritten :: "bool \<Rightarrow> stmt list \<Rightarrow> process \<Rightarrow> process \<Rightarrow> bool" where
  "overwritten ended rest pr pr' \<longleftrightarrow>
     pr' = pr\<lparr>todo := rest\<rparr> \<or>
     ended \<and> (\<exists>t\<in>{rest, []}. \<exists>i v. pr' = pr\<lparr>todo := t, pinfo := i, v_pid := v\<rparr>)"

text \<open>
  One step of process \<open>p\<close>. A \<open>fork\<close> that fails returns -1, which the programs take for the pid of a
  child. At its end a process leaves its children to process 1.
\<close>

inductive test_step ::
    "program \<Rightarrow> (world \<Rightarrow> int \<Rightarrow> links \<times> current) \<Rightarrow> world \<Rightarrow> int \<Rightarrow> world \<Rightarrow> bool"
  for prog view where
  fork_pid: "procs w p = Some pr \<Longrightarrow> todo pr = Fork_pid # rest \<Longrightarrow> procs w q = None \<Longrightarrow> 1 < q \<Longrightarrow>
    test_step prog view w p
      (forked w p (pr\<lparr>todo := parent_branch @ rest, v_pid := q\<rparr>)
        q (pr\<lparr>todo := Fork_childpid # rest, v_pid := 0\<rparr>))"
| no_pid: "procs w p = Some pr \<Longrightarrow> todo pr = Fork_pid # rest \<Longrightarrow>
    test_step prog view w p (goes_on w p (pr\<lparr>todo := parent_branch @ rest, v_pid := - 1\<rparr>))"
| fork_childpid: "procs w p = Some pr \<Longrightarrow> todo pr = Fork_childpid # rest \<Longrightarrow> procs w q = None \<Longrightarrow> 1 < q \<Longrightarrow>
    test_step prog view w p
      (forked w p (pr\<lparr>todo := child_branch @ rest, v_childpid := q\<rparr>)
        q (pr\<lparr>todo := grandchild_branch prog @ rest, v_childpid := 0\<rparr>))"
| no_childpid: "procs w p = Some pr \<Longrightarrow> todo pr = Fork_childpid # rest \<Longrightarrow>
    test_step prog view w p (goes_on w p (pr\<lparr>todo := child_branch @ rest, v_childpid := - 1\<rparr>))"
| call: "procs w p = Some pr \<Longrightarrow> todo pr = Test_call valid # rest \<Longrightarrow> view w p = (L, c) \<Longrightarrow>
    new_sys_cs3013_syscall2 L c valid = Some (r, answer) \<Longrightarrow>
    test_step prog view w p
      (goes_on w p (pr\<lparr>todo := rest, pinfo := (case answer of Some i \<Rightarrow> i | None \<Rightarrow> pinfo pr)\<rparr>))"
| print: "procs w p = Some pr \<Longrightarrow> todo pr = Print_info d # rest \<Longrightarrow>
    test_step prog view w p
      ((goes_on w p (pr\<lparr>todo := rest\<rparr>))\<lparr>printed_info := printed_info w @ [(d, print_info (pinfo pr))]\<rparr>)"
| wait_pid: "procs w p = Some pr \<Longrightarrow> todo pr = Waitpid_pid # rest \<Longrightarrow> wait_for w p (v_pid pr) w' \<Longrightarrow>
    test_step prog view w p (goes_on w' p (pr\<lparr>todo := rest\<rparr>))"
| wait_childpid: "procs w p = Some pr \<Longrightarrow> todo pr = Waitpid_childpid # rest \<Longrightarrow>
    wait_for w p (v_childpid pr) w' \<Longrightarrow> overwritten (w' \<noteq> w) rest pr pr' \<Longrightarrow>
    test_step prog view w p (goes_on w' p pr')"
| sleep: "procs w p = Some pr \<Longrightarrow> todo pr = Sleep n # rest \<Longrightarrow>
    test_step prog view w p (goes_on w p (pr\<lparr>todo := rest\<rparr>))"
| free: "procs w p = Some pr \<Longrightarrow> todo pr = [Free_pinfo] \<Longrightarrow>
    test_step prog view w p
      (goes_on (w\<lparr>parent_of := (\<lambda>q. if q \<in> set (children w p) then 1 else parent_of w q),
                 children := (children w)(1 := children w 1 @ children w p, p := [])\<rparr>) p (pr\<lparr>todo := []\<rparr>))"

inductive test_run ::
    "program \<Rightarrow> (world \<Rightarrow> int \<Rightarrow> links \<times> current) \<Rightarrow> world \<Rightarrow> nat \<Rightarrow> world \<Rightarrow> bool"
  for prog view w0 where
  test_start: "test_run prog view w0 0 w0"
| test_next: "test_run prog view w0 k w \<Longrightarrow> test_step prog view w p w' \<Longrightarrow> test_run prog view w0 (Suc k) w'"

text \<open>What the call needs of the kernel: the process itself, its parent, and proper rings, that of the
  children in agreement with who was forked.\<close>

definition shows_tree :: "(world \<Rightarrow> int \<Rightarrow> links \<times> current) \<Rightarrow> bool" where
  "shows_tree view \<longleftrightarrow> (\<forall>w p L c. view w p = (L, c) \<longrightarrow>
     k_pid (c_task c) = p \<and> c_parent_pid c = parent_of w p \<and>
     (\<exists>xs ys. ring L (c_children c) xs \<and> ring L (c_sibling c) ys \<and>
        map (\<lambda>n. k_pid (task_of L n)) xs = children w p \<and> (\<forall>n\<in>set xs. time_ok (k_start (task_of L n)))))"

section \<open>Where the processes are\<close>

type_synonym summary = "int \<times> int \<times> int"

definition summary :: "processinfo \<Rightarrow> summary" where
  "summary i = (pid i, parent_pid i, youngest_child i)"

definition printed_summary :: "string \<times> (string \<times> int) list \<Rightarrow> string \<times> summary" where
  "printed_summary = (\<lambda>(d, rows). (d, the (map_of rows ''pid''), the (map_of rows ''parent_pid''),
     the (map_of rows ''youngest_child'')))"

lemma printed_summary_print [simp]: "printed_summary (d, print_info i) = (d, summary i)"
  by (simp add: printed_summary_def print_info_def summary_def)

definition reports_of :: "world \<Rightarrow> (string \<times> summary) multiset" where
  "reports_of w = image_mset printed_summary (mset (printed_info w))"

text \<open>A process in a branch of the code: before its call the structure is as allocated, and from there until
  it is printed the summary of the structure is \<open>sm\<close>.\<close>

definition in_branch :: "stmt list \<Rightarrow> processinfo \<Rightarrow> summary \<Rightarrow> process \<Rightarrow> bool" where
  "in_branch code mem sm pr \<longleftrightarrow> todo pr \<in> set (suffixes (code @ [Free_pinfo])) \<and>
     (if \<exists>b. Test_call b \<in> set (todo pr) then pinfo pr = mem
      else (\<exists>d. Print_info d \<in> set (todo pr)) \<longrightarrow> summary (pinfo pr) = sm)"

definition said :: "string \<Rightarrow> summary \<Rightarrow> process \<Rightarrow> (string \<times> summary) multiset" where
  "said d sm pr = (if Print_info d \<in> set (todo pr) then {#} else {#(d, sm)#})"

definition third_summary :: "program \<Rightarrow> processinfo \<Rightarrow> int \<Rightarrow> int \<Rightarrow> summary" where
  "third_summary prog mem G C = (if prog = Test then (G, C, - 1) else summary mem)"

abbreviation "saidP \<equiv> said ''Parent Process begin''"
abbreviation "saidC \<equiv> said ''Child process''"
abbreviation "saidG \<equiv> said ''child of child process''"

lemma view_call:
  assumes "shows_tree view" "view w p = (L, c)"
    and "children w p = (if q = - 1 then [] else [q])"
  shows "\<exists>i. summary i = (p, parent_of w p, q) \<and>
    new_sys_cs3013_syscall2 L c valid = Some (if valid then (1, Some i) else (EFAULT, None))"
proof -
  obtain xs ys where r: "ring L (c_children c) xs" "ring L (c_sibling c) ys"
    "map (\<lambda>n. k_pid (task_of L n)) xs = children w p" "\<forall>n\<in>set xs. time_ok (k_start (task_of L n))"
    "k_pid (c_task c) = p" "c_parent_pid c = parent_of w p"
    using assms(1,2) unfolding shows_tree_def by blast
  obtain i where i: "new_sys_cs3013_syscall2 L c valid = Some (if valid then (1, Some i) else (EFAULT, None))"
    "pid i = k_pid (c_task c)" "parent_pid i = c_parent_pid c"
    "youngest_child i = snd (fold (scan_min L (\<lambda>_. True)) (xs @ rev xs) (- 1, - 1))"
    using new_sys_youngest [OF r(1,2)] .
  obtain st y where y: "fold (scan_min L (\<lambda>_. True)) (xs @ rev xs) (- 1, - 1) = (st, y)" by fastforce
  have "y = q"
    using scan_min_result [OF y r(4)] r(3) assms(3) by (cases "q = - 1") auto
  then show ?thesis using i y r(5,6) by (auto simp: summary_def)
qed

lemma view_call_result:
  assumes "shows_tree view" "view w p = (L, c)" "children w p = (if q = - 1 then [] else [q])"
    and "new_sys_cs3013_syscall2 L c valid = Some (r, answer)"
  shows "summary (case answer of Some i \<Rightarrow> i | None \<Rightarrow> mem) =
    (if valid then (p, parent_of w p, q) else summary mem)"
  using view_call [OF assms(1-3), of valid] assms(4) by (auto split: if_splits)

lemmas branch_simps = in_branch_def said_def parent_branch_def child_branch_def grandchild_branch_def
  third_summary_def

inductive_cases wait_forE: "wait_for w p t w'"

lemma reports_more [simp]:
  "reports_of (w\<lparr>printed_info := printed_info w @ [(d, print_info i)]\<rparr>) = add_mset (d, summary i) (reports_of w)"
  "reports_of (goes_on w p pr) = reports_of w" "reports_of (forked w p pr q qr) = reports_of w"
  "reports_of (w\<lparr>children := ch\<rparr>) = reports_of w" "reports_of (w\<lparr>parent_of := pa\<rparr>) = reports_of w"
  by (simp_all add: reports_of_def goes_on_def forked_def)

section \<open>A process after its last fork\<close>

definition waits :: "process \<Rightarrow> bool" where
  "waits a \<longleftrightarrow> Waitpid_pid \<in> set (todo a) \<or> Waitpid_childpid \<in> set (todo a)"

text \<open>A process after its last fork: its branch, the description it prints, its child (-1 for none).\<close>

definition role_of :: "program \<Rightarrow> processinfo \<Rightarrow> int \<Rightarrow> int \<Rightarrow> process \<Rightarrow> stmt list \<Rightarrow> string \<Rightarrow> int \<Rightarrow> summary \<Rightarrow> bool" where
  "role_of prog mem p par a code d q sm \<longleftrightarrow>
     code = parent_branch \<and> d = ''Parent Process begin'' \<and> q = v_pid a \<and> sm = (p, par, q) \<or>
     code = child_branch \<and> d = ''Child process'' \<and> q = v_childpid a \<and> sm = (p, par, q) \<or>
     code = grandchild_branch prog \<and> d = ''child of child process'' \<and> q = - 1 \<and>
       sm = third_summary prog mem p par"

lemma role_of_updates [simp]:
  "role_of prog mem p par (a\<lparr>todo := t\<rparr>) = role_of prog mem p par a"
  "role_of prog mem p par (a\<lparr>pinfo := i\<rparr>) = role_of prog mem p par a"
  by (simp_all add: role_of_def fun_eq_iff)

definition branch_of :: "program \<Rightarrow> processinfo \<Rightarrow> int \<Rightarrow> int \<Rightarrow> process \<Rightarrow> stmt list \<Rightarrow> string \<Rightarrow> int \<Rightarrow> summary \<Rightarrow> bool" where
  "branch_of prog mem p par a code d q sm \<longleftrightarrow>
     (q = - 1 \<or> 1 < q) \<and> in_branch code mem sm a \<and> role_of prog mem p par a code d q sm"

lemma branch_next:
  assumes "branch_of prog mem p par a code d q sm" "todo a = s # rest"
    and "if \<exists>b. Test_call b \<in> set rest then i = mem
      else (\<exists>d. Print_info d \<in> set rest) \<longrightarrow> summary i = sm"
  shows "branch_of prog mem p par (a\<lparr>todo := rest, pinfo := i\<rparr>) code d q sm"
proof -
  have "in_branch code mem sm a" using assms(1) by (simp add: branch_of_def)
  then have "suffix (s # rest) (code @ [Free_pinfo])"
    using assms(2) unfolding in_branch_def in_set_suffixes by metis
  then have "suffix rest (code @ [Free_pinfo])" by (rule suffix_ConsD)
  then have "in_branch code mem sm (a\<lparr>todo := rest, pinfo := i\<rparr>)"
    using assms(3) unfolding in_branch_def in_set_suffixes by simp
  with assms(1) show ?thesis by (simp add: branch_of_def)
qed

lemma branch_same:
  assumes "branch_of prog mem p par a code d q sm" "todo a = s # rest" "\<And>b. s \<noteq> Test_call b"
  shows "branch_of prog mem p par (a\<lparr>todo := rest\<rparr>) code d q sm"
proof -
  have "in_branch code mem sm a" using assms(1) by (simp add: branch_of_def)
  then have "if \<exists>b. Test_call b \<in> set rest then pinfo a = mem
      else (\<exists>d. Print_info d \<in> set rest) \<longrightarrow> summary (pinfo a) = sm"
    using assms(3) by (auto simp: in_branch_def assms(2) split: if_splits)
  from branch_next [OF assms(1,2) this] show ?thesis by simp
qed

lemma branch_call:
  assumes "branch_of prog mem p par a code d q sm" "todo a = Test_call v # rest"
  shows "sm = (if v then (p, par, q) else summary mem)" "\<forall>b. Test_call b \<notin> set rest"
    "q = - 1 \<or> waits a"
  using assms by (auto simp: branch_of_def role_of_def branch_simps waits_def)

lemma branch_print:
  assumes "branch_of prog mem p par a code d q sm" "todo a = Print_info d' # rest"
  shows "d' = d" "summary (pinfo a) = sm" "Print_info d \<notin> set rest"
  using assms by (auto simp: branch_of_def role_of_def branch_simps)

lemma branch_wait:
  assumes "branch_of prog mem p par a code d q sm"
  shows "todo a = Waitpid_pid # rest \<Longrightarrow> q = v_pid a \<and> rest = [Free_pinfo]"
    and "todo a = Waitpid_childpid # rest \<Longrightarrow> q = v_childpid a \<and> rest = [Free_pinfo]"
    and "Fork_pid \<notin> set (todo a)" "Fork_childpid \<notin> set (todo a)"
  using assms by (auto simp: branch_of_def role_of_def branch_simps)

lemma overwritten_branch:
  assumes "branch_of prog mem p par a code d q sm" "todo a = Waitpid_childpid # rest"
    "overwritten e rest a b"
  shows "branch_of prog mem p par b code d q sm" "v_childpid b = v_childpid a"
    "todo b = [Free_pinfo] \<or> todo b = []"
proof -
  have rest: "rest = [Free_pinfo]" using branch_wait(2) [OF assms(1,2)] by simp
  then show v: "v_childpid b = v_childpid a" and t: "todo b = [Free_pinfo] \<or> todo b = []"
    using assms(3) by (auto simp: overwritten_def)
  have "Waitpid_childpid \<in> set (code @ [Free_pinfo])"
    using assms(1,2) set_mono_suffix [of "todo a" "code @ [Free_pinfo]"]
    by (auto simp: branch_of_def in_branch_def in_set_suffixes)
  then have code: "code = child_branch"
    using assms(1) by (auto simp: branch_of_def role_of_def parent_branch_def grandchild_branch_def)
  have "in_branch code mem sm b" using t code by (auto simp: in_branch_def child_branch_def)
  then show "branch_of prog mem p par b code d q sm"
    using assms(1) code v by (auto simp: branch_of_def role_of_def branch_simps)
qed

lemma waits_Cons:
  assumes "todo a = s # rest" "s \<noteq> Waitpid_pid" "s \<noteq> Waitpid_childpid"
  shows "waits (a\<lparr>todo := rest\<rparr>) = waits a" "waits (a\<lparr>todo := rest, pinfo := i\<rparr>) = waits a"
  using assms by (auto simp: waits_def)

text \<open>What a step of such a process changes: \<open>a\<close> to \<open>a'\<close>, the children when it has waited, what is printed.\<close>

definition moved :: "program \<Rightarrow> processinfo \<Rightarrow> int \<Rightarrow> stmt list \<Rightarrow> string \<Rightarrow> int \<Rightarrow> summary \<Rightarrow> world \<Rightarrow> process \<Rightarrow> world \<Rightarrow> process \<Rightarrow> bool" where
  "moved prog mem p code d q sm w a w' a' \<longleftrightarrow>
     procs w' = (procs w)(p \<mapsto> a') \<and> branch_of prog mem p (parent_of w p) a' code d q sm \<and>
     v_childpid a' = v_childpid a \<and> parent_of w' = parent_of w \<and>
     children w' = (children w)(p := (if waits a' then children w p else [])) \<and>
     (waits a' \<or> \<not> waits a \<or> q = - 1 \<or> has_ended w q) \<and> (waits a' \<longrightarrow> waits a) \<and>
     reports_of w' + said d sm a = reports_of w + said d sm a'"

lemma waited_child:
  assumes "wait_for w p q w'" "children w p = (if q \<noteq> - 1 then [q] else [])"
  shows "w' = w\<lparr>children := (children w)(p := [])\<rparr> \<and> (q = - 1 \<or> has_ended w q)"
proof -
  have same: "children w p = [] \<Longrightarrow> w = w\<lparr>children := (children w)(p := [])\<rparr>"
    using fun_upd_triv [of "children w" p] by (cases w) simp
  from assms(1) show ?thesis
  proof cases
    case no_child
    then have "q = - 1" "children w p = []"
      using assms(2) by (auto simp: waited_def split: if_splits)
    with no_child same show ?thesis by simp
  next
    case (child_ended c)
    then show ?thesis using assms(2) by (auto simp: waited_def split: if_splits)
  qed
qed

lemma branch_moves:
  assumes "shows_tree view" "test_step prog view w p w'" "procs w p = Some a" "1 < p"
    and b: "branch_of prog mem p (parent_of w p) a code d q sm"
    and ch: "children w p = (if q \<noteq> - 1 \<and> waits a then [q] else [])"
  shows "\<exists>a'. moved prog mem p code d q sm w a w' a'"
proof -
  have ch': "(children w)(p := (if waits a then children w p else [])) = children w"
    using ch by auto
  show ?thesis using assms(2)
  proof (cases rule: test_step.cases)
    case (call pr v rest L c r answer)
    then have a: "todo a = Test_call v # rest" "pr = a" using assms(3) by simp_all
    note bc = branch_call [OF b a(1)]
    have "summary (case answer of Some i \<Rightarrow> i | None \<Rightarrow> mem) = sm"
      using view_call_result [OF assms(1) call(4) _ call(5), of q mem] ch bc(1,3) by auto
    moreover have "pinfo a = mem"
      using b a(1) by (auto simp: branch_of_def in_branch_def split: if_splits)
    ultimately have "branch_of prog mem p (parent_of w p)
        (a\<lparr>todo := rest, pinfo := (case answer of Some i \<Rightarrow> i | None \<Rightarrow> pinfo a)\<rparr>) code d q sm"
      using bc(2) by (intro branch_next [OF b a(1)]) auto
    then show ?thesis using call(1) [unfolded a(2)] a(1) ch' waits_Cons [OF a(1)]
      by (intro exI [of _ "a\<lparr>todo := rest, pinfo := (case answer of Some i \<Rightarrow> i | None \<Rightarrow> pinfo a)\<rparr>"])
        (simp add: moved_def goes_on_def reports_of_def said_def)
  next
    case (print pr d' rest)
    then have a: "todo a = Print_info d' # rest" "pr = a" using assms(3) by simp_all
    note bp = branch_print [OF b a(1)]
    have "branch_of prog mem p (parent_of w p) (a\<lparr>todo := rest\<rparr>) code d q sm"
      by (rule branch_same [OF b a(1)]) simp
    then show ?thesis using print(1) a bp ch' waits_Cons [OF a(1)]
      by (intro exI [of _ "a\<lparr>todo := rest\<rparr>"]) (simp add: moved_def goes_on_def reports_of_def said_def)
  next
    case (sleep pr n rest)
    then have a: "todo a = Sleep n # rest" "pr = a" using assms(3) by simp_all
    have "branch_of prog mem p (parent_of w p) (a\<lparr>todo := rest\<rparr>) code d q sm"
      by (rule branch_same [OF b a(1)]) simp
    then show ?thesis using sleep(1) a ch' waits_Cons [OF a(1)]
      by (intro exI [of _ "a\<lparr>todo := rest\<rparr>"]) (simp add: moved_def goes_on_def reports_of_def said_def)
  next
    case (wait_pid pr rest w2)
    then have a: "todo a = Waitpid_pid # rest" "pr = a" using assms(3) by simp_all
    note bw = branch_wait(1) [OF b a(1)]
    have "waits a" using a(1) by (simp add: waits_def)
    then have w2: "w2 = w\<lparr>children := (children w)(p := [])\<rparr> \<and> (q = - 1 \<or> has_ended w q)"
      using waited_child [of w p q w2] wait_pid(4) bw ch a(2) by simp
    have "branch_of prog mem p (parent_of w p) (a\<lparr>todo := rest\<rparr>) code d q sm"
      by (rule branch_same [OF b a(1)]) simp
    then show ?thesis using wait_pid(1) a w2 bw
      by (intro exI [of _ "a\<lparr>todo := rest\<rparr>"]) (auto simp: moved_def goes_on_def reports_of_def said_def waits_def)
  next
    case (wait_childpid pr rest w2 pr')
    then have a: "todo a = Waitpid_childpid # rest" "pr = a" using assms(3) by simp_all
    note bw = branch_wait(2) [OF b a(1)]
    have "waits a" using a(1) by (simp add: waits_def)
    then have w2: "w2 = w\<lparr>children := (children w)(p := [])\<rparr> \<and> (q = - 1 \<or> has_ended w q)"
      using waited_child [of w p q w2] wait_childpid(4) bw ch a(2) by simp
    have br: "branch_of prog mem p (parent_of w p) pr' code d q sm"
      "v_childpid pr' = v_childpid a" "todo pr' = [Free_pinfo] \<or> todo pr' = []"
      using overwritten_branch [OF b a(1)] wait_childpid(5) a(2) by blast+
    have "Print_info d \<notin> set (todo a)" using bw a(1) by simp
    then show ?thesis using wait_childpid(1) a w2 bw br
      by (intro exI [of _ pr']) (auto simp: moved_def goes_on_def reports_of_def said_def waits_def)
  next
    case (free pr)
    then have a: "todo a = [Free_pinfo]" "pr = a" using assms(3) by simp_all
    then have "children w p = []" using ch by (simp add: waits_def)
    moreover have "branch_of prog mem p (parent_of w p) (a\<lparr>todo := []\<rparr>) code d q sm"
      by (rule branch_same [OF b a(1)]) simp
    ultimately show ?thesis using free(1) a assms(4)
      by (intro exI [of _ "a\<lparr>todo := []\<rparr>"])
        (auto simp: moved_def goes_on_def reports_of_def said_def waits_def)
  qed (use assms(3) branch_wait(3,4) [OF b] in auto)
qed

section \<open>The three processes\<close>

text \<open>The child that is not waited for yet, and that it is waited for before it is forgotten.\<close>

definition linked :: "world \<Rightarrow> int \<Rightarrow> process \<Rightarrow> int \<Rightarrow> bool" where
  "linked w p a q \<longleftrightarrow> children w p = (if q \<noteq> - 1 \<and> waits a then [q] else []) \<and>
     (q = - 1 \<or> waits a \<or> has_ended w q)"

abbreviation "parentP prog mem P parent a C \<equiv>
  branch_of prog mem P parent a parent_branch ''Parent Process begin'' C (P, parent, C)"
abbreviation "childC prog mem P b C G \<equiv>
  branch_of prog mem C P b child_branch ''Child process'' G (C, P, G)"
abbreviation "grandchildG prog mem C c G \<equiv>
  branch_of prog mem G C c (grandchild_branch prog) ''child of child process'' (- 1) (third_summary prog mem G C)"

text \<open>The forks that have been made, and where the processes are in their branches.\<close>

inductive shape :: "program \<Rightarrow> int \<Rightarrow> int \<Rightarrow> processinfo \<Rightarrow> world \<Rightarrow> bool"
  for prog P parent mem where
  unforked: "procs w = [P \<mapsto> a] \<Longrightarrow> todo a = main_code \<Longrightarrow> pinfo a = mem \<Longrightarrow>
    parent_of w P = parent \<Longrightarrow> children w P = [] \<Longrightarrow> reports_of w = {#} \<Longrightarrow> shape prog P parent mem w"
| alone: "procs w = [P \<mapsto> a] \<Longrightarrow> parentP prog mem P parent a (- 1) \<Longrightarrow>
    parent_of w P = parent \<Longrightarrow> linked w P a (- 1) \<Longrightarrow>
    reports_of w = saidP (P, parent, - 1) a \<Longrightarrow> shape prog P parent mem w"
| child_unforked: "procs w = [P \<mapsto> a, C \<mapsto> b] \<Longrightarrow> distinct [P, C] \<Longrightarrow> 1 < C \<Longrightarrow>
    parentP prog mem P parent a C \<Longrightarrow> parent_of w P = parent \<Longrightarrow> linked w P a C \<Longrightarrow>
    todo b = [Fork_childpid, Free_pinfo] \<Longrightarrow> pinfo b = mem \<Longrightarrow> parent_of w C = P \<Longrightarrow>
    children w C = [] \<Longrightarrow> reports_of w = saidP (P, parent, C) a \<Longrightarrow> shape prog P parent mem w"
| two: "procs w = [P \<mapsto> a, C \<mapsto> b] \<Longrightarrow> distinct [P, C] \<Longrightarrow> 1 < C \<Longrightarrow>
    parentP prog mem P parent a C \<Longrightarrow> parent_of w P = parent \<Longrightarrow> linked w P a C \<Longrightarrow>
    childC prog mem P b C (- 1) \<Longrightarrow> parent_of w C = P \<Longrightarrow> linked w C b (- 1) \<Longrightarrow>
    reports_of w = saidP (P, parent, C) a + saidC (C, P, - 1) b \<Longrightarrow> shape prog P parent mem w"
| three: "procs w = [P \<mapsto> a, C \<mapsto> b, G \<mapsto> c] \<Longrightarrow> distinct [P, C, G] \<Longrightarrow> 1 < C \<Longrightarrow> 1 < G \<Longrightarrow>
    parentP prog mem P parent a C \<Longrightarrow> parent_of w P = parent \<Longrightarrow> linked w P a C \<Longrightarrow>
    childC prog mem P b C G \<Longrightarrow> parent_of w C = P \<Longrightarrow> linked w C b G \<Longrightarrow>
    grandchildG prog mem C c G \<Longrightarrow> parent_of w G = C \<Longrightarrow> linked w G c (- 1) \<Longrightarrow>
    reports_of w = saidP (P, parent, C) a + saidC (C, P, G) b + saidG (third_summary prog mem G C) c \<Longrightarrow>
    shape prog P parent mem w"

section \<open>Every step keeps the shape\<close>

lemma mover:
  assumes "test_step prog view w p w'"
  obtains pr where "procs w p = Some pr" "todo pr \<noteq> []"
  using assms by cases simp_all

lemma mover_running: "test_step prog view w p w' \<Longrightarrow> \<not> has_ended w p"
  by (erule mover) (simp add: has_ended_def)

lemma waits_start [simp]:
  "waits (b\<lparr>todo := t, v_childpid := q\<rparr>) \<longleftrightarrow> Waitpid_pid \<in> set t \<or> Waitpid_childpid \<in> set t"
  by (simp add: waits_def)

lemma unforked_step:
  assumes "1 < P" "test_step prog view w p w'"
    and w: "procs w = [P \<mapsto> a]" "todo a = main_code" "pinfo a = mem"
    "parent_of w P = parent" "children w P = []" "reports_of w = {#}"
  shows "shape prog P parent mem w'"
  using assms(2)
proof (cases rule: test_step.cases)
  case (fork_pid pr rest q)
  then have e: "p = P" "pr = a" "rest = [Free_pinfo]" "q \<noteq> P"
    using w by (auto simp: main_code_def split: if_splits)
  show ?thesis
    by (rule child_unforked [where a = "a\<lparr>todo := parent_branch @ rest, v_pid := q\<rparr>"
         and b = "a\<lparr>todo := Fork_childpid # rest, v_pid := 0\<rparr>" and C = q])
      (use fork_pid w e in \<open>auto simp: forked_def branch_of_def role_of_def branch_simps linked_def waits_def
         reports_of_def\<close>)
next
  case (no_pid pr rest)
  then have e: "p = P" "pr = a" "rest = [Free_pinfo]" using w by (auto simp: main_code_def split: if_splits)
  show ?thesis
    by (rule alone [where a = "a\<lparr>todo := parent_branch @ rest, v_pid := - 1\<rparr>"])
      (use no_pid w e in \<open>auto simp: goes_on_def branch_of_def role_of_def branch_simps linked_def waits_def
         reports_of_def\<close>)
qed (use w in \<open>auto simp: main_code_def split: if_splits\<close>)

lemma movedD:
  assumes "moved prog mem p code d q sm w a w' a'" "linked w p a q"
  shows "procs w' = (procs w)(p \<mapsto> a')" "branch_of prog mem p (parent_of w p) a' code d q sm"
    "parent_of w' = parent_of w" "\<And>x. x \<noteq> p \<Longrightarrow> children w' x = children w x"
    "reports_of w' + said d sm a = reports_of w + said d sm a'"
    "q \<noteq> p \<Longrightarrow> linked w' p a' q"
  using assms by (auto simp: moved_def linked_def has_ended_def)

lemma linked_other:
  assumes "linked w x b r" "x \<noteq> p" "moved prog mem p code d q sm w a w' a'" "\<not> has_ended w p"
  shows "linked w' x b r"
  using assms by (auto simp: moved_def linked_def has_ended_def split: if_splits)

lemma moves:
  assumes "shows_tree view" "1 < p" "test_step prog view w p w'" "procs w p = Some a"
    and "branch_of prog mem p par a code d q sm" "parent_of w p = par" "linked w p a q"
  obtains a' where "moved prog mem p code d q sm w a w' a'"
  using branch_moves [OF assms(1,3,4,2), of mem code d q sm] assms(5-7) by (auto simp: linked_def)

lemma alone_step:
  assumes "1 < P" "shows_tree view" "test_step prog view w p w'"
    and w: "procs w = [P \<mapsto> a]" "parentP prog mem P parent a (- 1)" "parent_of w P = parent"
    "linked w P a (- 1)" "reports_of w = saidP (P, parent, - 1) a"
  shows "shape prog P parent mem w'"
proof -
  obtain pr where "procs w p = Some pr" using mover [OF assms(3)] .
  then have p: "p = P" "procs w P = Some a" using w(1) by (simp_all split: if_splits)
  obtain a' where "moved prog mem P parent_branch ''Parent Process begin'' (- 1) (P, parent, - 1) w a w' a'"
    using moves [OF assms(2,1) assms(3) [unfolded p(1)] p(2) w(2-4)] .
  from movedD [OF this w(4)] show ?thesis
    by (intro alone [where a = a']) (use w assms(1) in auto)
qed

lemma child_unforked_step:
  assumes "1 < P" "shows_tree view" "test_step prog view w p w'"
    and w: "procs w = [P \<mapsto> a, C \<mapsto> b]" "distinct [P, C]" "1 < C" "parentP prog mem P parent a C"
    "parent_of w P = parent" "linked w P a C" "todo b = [Fork_childpid, Free_pinfo]" "pinfo b = mem"
    "parent_of w C = P" "children w C = []" "reports_of w = saidP (P, parent, C) a"
  shows "shape prog P parent mem w'"
proof (cases "p = P")
  case True
  have a: "procs w P = Some a" using w(1,2) by simp
  obtain a' where "moved prog mem P parent_branch ''Parent Process begin'' C (P, parent, C) w a w' a'"
    using moves [OF assms(2,1) assms(3) [unfolded True] a w(4-6)] .
  from movedD [OF this w(6)] show ?thesis
    by (intro child_unforked [where a = a' and b = b and C = C]) (use w in auto)
next
  case False
  then have p: "p = C" using w(1) mover [OF assms(3)] by (metis fun_upd_apply option.distinct(1))
  have "\<not> has_ended w C" using w(1,7) by (simp add: has_ended_def)
  then have wa: "waits a" using w(3,6) by (auto simp: linked_def)
  show ?thesis using assms(3)
  proof (cases rule: test_step.cases)
    case (fork_childpid pr rest q)
    then have e: "pr = b" "rest = [Free_pinfo]" "q \<noteq> P" "q \<noteq> C" using w p by (auto split: if_splits)
    show ?thesis
      by (rule three [where a = a and b = "b\<lparr>todo := child_branch @ rest, v_childpid := q\<rparr>"
           and c = "b\<lparr>todo := grandchild_branch prog @ rest, v_childpid := 0\<rparr>" and C = C and G = q])
        (use fork_childpid w e p wa in \<open>auto simp: forked_def linked_def reports_of_def said_def
          branch_of_def [of _ _ C] branch_of_def [of _ _ q] role_of_def in_branch_def child_branch_def
          grandchild_branch_def third_summary_def\<close>)
  next
    case (no_childpid pr rest)
    then have e: "pr = b" "rest = [Free_pinfo]" using w p by (auto split: if_splits)
    show ?thesis
      by (rule two [where a = a and b = "b\<lparr>todo := child_branch @ rest, v_childpid := - 1\<rparr>" and C = C])
        (use no_childpid w e p wa in \<open>auto simp: goes_on_def linked_def reports_of_def said_def
          branch_of_def [of _ _ C] role_of_def in_branch_def child_branch_def\<close>)
  qed (use w p in \<open>auto split: if_splits\<close>)
qed

lemma two_step:
  assumes "1 < P" "shows_tree view" "test_step prog view w p w'"
    and w: "procs w = [P \<mapsto> a, C \<mapsto> b]" "distinct [P, C]" "1 < C" "parentP prog mem P parent a C"
    "parent_of w P = parent" "linked w P a C" "childC prog mem P b C (- 1)" "parent_of w C = P"
    "linked w C b (- 1)" "reports_of w = saidP (P, parent, C) a + saidC (C, P, - 1) b"
  shows "shape prog P parent mem w'"
proof -
  have pr: "procs w P = Some a" "procs w C = Some b" using w(1,2) by auto
  have upd: "(procs w)(P \<mapsto> a') = [P \<mapsto> a', C \<mapsto> b]" "(procs w)(C \<mapsto> b') = [P \<mapsto> a, C \<mapsto> b']" for a' b'
    using w(1,2) by auto
  note np = mover_running [OF assms(3)]
  show ?thesis
  proof (cases "p = P")
    case True
    obtain a' where m: "moved prog mem P parent_branch ''Parent Process begin'' C (P, parent, C) w a w' a'"
      using moves [OF assms(2,1) assms(3) [unfolded True] pr(1) w(4-6)] .
    have "linked w' C b (- 1)" using linked_other [OF w(9) _ m] np True w(2) by simp
    with movedD [OF m w(6)] show ?thesis
      by (intro two [where a = a' and b = b and C = C]) (use w upd in simp_all)
  next
    case False
    then have p: "p = C" using w(1) mover [OF assms(3)] by (metis fun_upd_apply option.distinct(1))
    obtain b' where m: "moved prog mem C child_branch ''Child process'' (- 1) (C, P, - 1) w b w' b'"
      using moves [OF assms(2) w(3) assms(3) [unfolded p] pr(2) w(7-9)] .
    have "linked w' P a C" using linked_other [OF w(6) _ m] np p w(2) by simp
    with movedD [OF m w(9)] show ?thesis
      by (intro two [where a = a and b = b' and C = C]) (use w upd in simp_all)
  qed
qed

lemma three_step:
  assumes "1 < P" "shows_tree view" "test_step prog view w p w'"
    and w: "procs w = [P \<mapsto> a, C \<mapsto> b, G \<mapsto> c]" "distinct [P, C, G]" "1 < C" "1 < G"
    and P: "parentP prog mem P parent a C" "parent_of w P = parent" "linked w P a C"
    and C: "childC prog mem P b C G" "parent_of w C = P" "linked w C b G"
    and G: "grandchildG prog mem C c G" "parent_of w G = C" "linked w G c (- 1)"
    and out: "reports_of w =
      saidP (P, parent, C) a + saidC (C, P, G) b + saidG (third_summary prog mem G C) c"
  shows "shape prog P parent mem w'"
proof -
  have pr: "procs w P = Some a" "procs w C = Some b" "procs w G = Some c" using w(1,2) by auto
  note np = mover_running [OF assms(3)]
  have upd: "(procs w)(P \<mapsto> a') = [P \<mapsto> a', C \<mapsto> b, G \<mapsto> c]"
    "(procs w)(C \<mapsto> b') = [P \<mapsto> a, C \<mapsto> b', G \<mapsto> c]"
    "(procs w)(G \<mapsto> c') = [P \<mapsto> a, C \<mapsto> b, G \<mapsto> c']" for a' b' c'
    using w(1,2) by auto
  consider "p = P" | "p = C" | "p = G"
    using w(1) mover [OF assms(3)] by (metis fun_upd_apply option.distinct(1))
  then show ?thesis
  proof cases
    case 1
    obtain a' where m: "moved prog mem P parent_branch ''Parent Process begin'' C (P, parent, C) w a w' a'"
      using moves [OF assms(2,1) assms(3) [unfolded 1] pr(1) P] .
    note o = linked_other [OF _ _ m np [unfolded 1]]
    have "linked w' C b G" "linked w' G c (- 1)" using o [OF C(3)] o [OF G(3)] w(2) by simp_all
    with movedD [OF m P(3)] show ?thesis
      by (intro three [where a = a' and b = b and c = c and C = C and G = G]) (use w P C G out upd in simp_all)
  next
    case 2
    obtain b' where m: "moved prog mem C child_branch ''Child process'' G (C, P, G) w b w' b'"
      using moves [OF assms(2) w(3) assms(3) [unfolded 2] pr(2) C] .
    note o = linked_other [OF _ _ m np [unfolded 2]]
    have "linked w' P a C" "linked w' G c (- 1)" using o [OF P(3)] o [OF G(3)] w(2) by simp_all
    with movedD [OF m C(3)] show ?thesis
      by (intro three [where a = a and b = b' and c = c and C = C and G = G]) (use w P C G out upd in simp_all)
  next
    case 3
    obtain c' where m: "moved prog mem G (grandchild_branch prog) ''child of child process'' (- 1)
        (third_summary prog mem G C) w c w' c'"
      using moves [OF assms(2) w(4) assms(3) [unfolded 3] pr(3) G] .
    note o = linked_other [OF _ _ m np [unfolded 3]]
    have "linked w' P a C" "linked w' C b G" using o [OF P(3)] o [OF C(3)] w(2) by simp_all
    with movedD [OF m G(3)] show ?thesis
      by (intro three [where a = a and b = b and c = c' and C = C and G = G]) (use w P C G out upd in simp_all)
  qed
qed

lemma shape_step:
  assumes "shape prog P parent mem w" "1 < P" "shows_tree view" "test_step prog view w p w'"
  shows "shape prog P parent mem w'"
  using assms(1)
proof cases
  case (unforked a)
  then show ?thesis using unforked_step [OF assms(2,4)] by blast
next
  case (alone a)
  from alone_step [OF assms(2-4) alone] show ?thesis .
next
  case (child_unforked a C b)
  from child_unforked_step [OF assms(2-4) child_unforked] show ?thesis .
next
  case (two a C b)
  from two_step [OF assms(2-4) two] show ?thesis .
next
  case (three a C b G c)
  from three_step [OF assms(2-4) three] show ?thesis .
qed

lemma shape_run:
  assumes "test_run prog view (test_init P parent mem) k w" "1 < P" "shows_tree view"
  shows "shape prog P parent mem w"
  using assms(1)
proof induction
  case test_start
  show ?case by (rule unforked) (auto simp: test_init_def reports_of_def)
next
  case (test_next k w p w')
  then show ?case using shape_step assms(2,3) by blast
qed


section \<open>The end of a run\<close>

definition finished :: "world \<Rightarrow> bool" where
  "finished w \<longleftrightarrow> (\<forall>p pr. procs w p = Some pr \<longrightarrow> todo pr = [])"

text \<open>The steps a statement can still lead to, those of a forked process included.\<close>

fun cost :: "stmt \<Rightarrow> nat" where
  "cost Fork_pid = 13" | "cost Fork_childpid = 8" | "cost (Test_call _) = 1" | "cost (Print_info _) = 1"
| "cost Waitpid_pid = 1" | "cost Waitpid_childpid = 1" | "cost (Sleep _) = 1" | "cost Free_pinfo = 1"

definition cost_left :: "process \<Rightarrow> nat" where
  "cost_left pr = (\<Sum>s\<leftarrow>todo pr. cost s)"

definition steps_left :: "world \<Rightarrow> nat" where
  "steps_left w = (\<Sum>p\<in>dom (procs w). cost_left (the (procs w p)))"

lemma steps_left_upd:
  assumes "finite (dom (procs w))" "procs w p = Some pr" "procs w' = (procs w)(p \<mapsto> a)"
  shows "steps_left w' + cost_left pr = steps_left w + cost_left a"
proof -
  let ?D = "dom (procs w)"
  have D: "dom (procs w') = ?D" "p \<in> ?D" using assms(2,3) by auto
  have "steps_left w' = cost_left a + (\<Sum>x\<in>?D - {p}. cost_left (the (procs w x)))"
    using assms(1,3) D by (simp add: steps_left_def sum.remove [of ?D p])
  moreover have "steps_left w = cost_left pr + (\<Sum>x\<in>?D - {p}. cost_left (the (procs w x)))"
    using assms(1,2) D(2) by (simp add: steps_left_def sum.remove [of ?D p])
  ultimately show ?thesis by simp
qed

lemma steps_left_fork:
  assumes "finite (dom (procs w))" "procs w p = Some pr" "procs w q = None"
    and "procs w' = (procs w)(p \<mapsto> a, q \<mapsto> b)"
  shows "steps_left w' + cost_left pr = steps_left w + cost_left a + cost_left b"
proof -
  let ?v = "w\<lparr>procs := (procs w)(p \<mapsto> a)\<rparr>"
  have q: "q \<notin> dom (procs ?v)" "finite (dom (procs ?v))" using assms by auto
  have d: "dom (procs w') = insert q (dom (procs ?v))" using assms(4) by auto
  have "steps_left w' = cost_left b + (\<Sum>x\<in>dom (procs ?v). cost_left (the (procs w' x)))"
    unfolding steps_left_def d sum.insert [OF q(2,1)] by (simp add: assms(4))
  also have "(\<Sum>x\<in>dom (procs ?v). cost_left (the (procs w' x))) = steps_left ?v"
    unfolding steps_left_def by (rule sum.cong) (use q(1) assms(4) in auto)
  finally show ?thesis using steps_left_upd [OF assms(1,2), of ?v a] by simp
qed

lemma fork_last:
  assumes "shape prog P parent mem w" "procs w p = Some pr"
  shows "todo pr = Fork_pid # rest \<Longrightarrow> rest = [Free_pinfo]"
    and "todo pr = Fork_childpid # rest \<Longrightarrow> rest = [Free_pinfo]"
proof -
  have "(Fork_pid \<in> set (todo pr) \<longrightarrow> todo pr = main_code) \<and>
      (Fork_childpid \<in> set (todo pr) \<longrightarrow> todo pr = [Fork_childpid, Free_pinfo])"
    using assms(1)
    by cases (use assms(2) in \<open>auto simp: main_code_def dest: branch_wait(3,4) split: if_splits\<close>)
  then show "todo pr = Fork_pid # rest \<Longrightarrow> rest = [Free_pinfo]"
    and "todo pr = Fork_childpid # rest \<Longrightarrow> rest = [Free_pinfo]"
    by (auto simp: main_code_def)
qed

lemma wait_for_procs [simp]: "wait_for w p t w' \<Longrightarrow> procs w' = procs w"
  by (auto elim: wait_forE)

lemma test_left_step:
  assumes "shape prog P parent mem w" "test_step prog view w p w'"
  shows "steps_left w' < steps_left w"
proof -
  have f: "finite (dom (procs w))" using assms(1) by cases simp_all
  note u = steps_left_upd [OF f] and l = fork_last [OF assms(1)]
  from assms(2) show ?thesis
  proof cases
    case (fork_pid pr rest q)
    have "procs w' = (procs w)(p \<mapsto> pr\<lparr>todo := parent_branch @ rest, v_pid := q\<rparr>,
        q \<mapsto> pr\<lparr>todo := Fork_childpid # rest, v_pid := 0\<rparr>)"
      using fork_pid by (simp add: forked_def)
    from steps_left_fork [OF f fork_pid(2,4) this] show ?thesis
      using l(1) [OF fork_pid(2,3)] fork_pid(3) by (simp add: cost_left_def parent_branch_def)
  next
    case (fork_childpid pr rest q)
    have "procs w' = (procs w)(p \<mapsto> pr\<lparr>todo := child_branch @ rest, v_childpid := q\<rparr>,
        q \<mapsto> pr\<lparr>todo := grandchild_branch prog @ rest, v_childpid := 0\<rparr>)"
      using fork_childpid by (simp add: forked_def)
    from steps_left_fork [OF f fork_childpid(2,4) this] show ?thesis
      using l(2) [OF fork_childpid(2,3)] fork_childpid(3)
      by (simp add: cost_left_def child_branch_def grandchild_branch_def)
  next
    case (no_pid pr rest)
    then show ?thesis
      using u [OF no_pid(2), of w' "pr\<lparr>todo := parent_branch @ rest, v_pid := - 1\<rparr>"]
      by (simp add: goes_on_def cost_left_def parent_branch_def)
  next
    case (no_childpid pr rest)
    then show ?thesis
      using u [OF no_childpid(2), of w' "pr\<lparr>todo := child_branch @ rest, v_childpid := - 1\<rparr>"]
      by (simp add: goes_on_def cost_left_def child_branch_def)
  next
    case (call pr v rest L c r answer)
    then show ?thesis
      using u [OF call(2), of w' "pr\<lparr>todo := rest, pinfo := (case answer of Some i \<Rightarrow> i | None \<Rightarrow> pinfo pr)\<rparr>"]
      by (simp add: goes_on_def cost_left_def)
  next
    case (print pr d rest)
    then show ?thesis using u [OF print(2), of w' "pr\<lparr>todo := rest\<rparr>"] by (simp add: goes_on_def cost_left_def)
  next
    case (wait_pid pr rest w2)
    then show ?thesis using u [OF wait_pid(2), of w' "pr\<lparr>todo := rest\<rparr>"] by (simp add: goes_on_def cost_left_def)
  next
    case (wait_childpid pr rest w2 pr')
    then have "cost_left pr' \<le> (\<Sum>s\<leftarrow>rest. cost s)" by (auto simp: overwritten_def cost_left_def)
    then show ?thesis using u [OF wait_childpid(2), of w' pr'] wait_childpid
      by (simp add: goes_on_def cost_left_def)
  next
    case (sleep pr n rest)
    then show ?thesis using u [OF sleep(2), of w' "pr\<lparr>todo := rest\<rparr>"] by (simp add: goes_on_def cost_left_def)
  next
    case (free pr)
    then show ?thesis using u [OF free(2), of w' "pr\<lparr>todo := []\<rparr>"] by (simp add: goes_on_def cost_left_def)
  qed
qed

lemma run_bound:
  assumes "test_run prog view (test_init P parent mem) k w" "1 < P" "shows_tree view"
  shows "k + steps_left w \<le> 14"
  using assms(1)
proof induction
  case test_start
  show ?case by (simp add: steps_left_def test_init_def cost_left_def main_code_def)
next
  case (test_next k w p w')
  then show ?case using test_left_step [OF shape_run [OF test_next(1) assms(2,3)] test_next(2)] by simp
qed

text \<open>A process in a branch goes on, unless it waits for a child that has not ended.\<close>

lemma branch_progress:
  assumes "shows_tree view" "procs w p = Some a" "branch_of prog mem p par a code d q sm" "linked w p a q"
    and "todo a \<noteq> []" "q = - 1 \<or> has_ended w q"
  shows "\<exists>w'. test_step prog view w p w'"
proof -
  obtain s rest where s: "todo a = s # rest" using assms(5) by (cases "todo a") auto
  obtain L c where v: "view w p = (L, c)" by fastforce
  have wt: "\<exists>w'. wait_for w p q w'" if "waits a"
  proof (cases "q = - 1")
    case True
    then show ?thesis using wait_for.no_child [of w p q] assms(4) by (auto simp: linked_def waited_def)
  next
    case False
    then show ?thesis using wait_for.child_ended [of q w p q] assms(4,6) that
      by (auto simp: linked_def waited_def)
  qed
  show ?thesis
  proof (cases s)
    case (Test_call b)
    then have "children w p = (if q = - 1 then [] else [q])"
      using assms(4) branch_call(3) [OF assms(3)] s by (auto simp: linked_def)
    then obtain r answer where "new_sys_cs3013_syscall2 L c b = Some (r, answer)"
      using view_call [OF assms(1) v, of q b] by (cases b) auto
    then show ?thesis using test_step.call [of w p a b rest view L c r answer prog] assms(2) v s Test_call
      by blast
  next
    case Waitpid_pid
    then obtain w' where "wait_for w p (v_pid a) w'"
      using wt s branch_wait(1) [OF assms(3)] by (auto simp: waits_def)
    then show ?thesis using test_step.wait_pid [OF assms(2)] s Waitpid_pid by blast
  next
    case Waitpid_childpid
    then obtain w' where "wait_for w p (v_childpid a) w'"
      using wt s branch_wait(2) [OF assms(3)] by (auto simp: waits_def)
    then show ?thesis using test_step.wait_childpid [OF assms(2)] s Waitpid_childpid
      unfolding overwritten_def by blast
  next
    case Free_pinfo
    then have "rest = []" using assms(3) s by (auto simp: branch_of_def role_of_def branch_simps)
    then show ?thesis using test_step.free [OF assms(2)] s Free_pinfo by blast
  next
    case (Print_info d')
    then show ?thesis using test_step.print [OF assms(2)] s by blast
  next
    case (Sleep n)
    then show ?thesis using test_step.sleep [OF assms(2)] s by blast
  qed (use s branch_wait(3,4) [OF assms(3)] in simp_all)
qed

lemma shape_progress:
  assumes "shape prog P parent mem w" "shows_tree view" "\<not> finished w"
  shows "\<exists>p w'. test_step prog view w p w'"
  using assms(1)
proof cases
  case (unforked a)
  then have "procs w P = Some a" "todo a = Fork_pid # [Free_pinfo]" by (simp_all add: main_code_def)
  then show ?thesis using no_pid by blast
next
  case (alone a)
  have a: "procs w P = Some a" using alone(1) by simp
  have "todo a \<noteq> []" using assms(3) alone(1) by (auto simp: finished_def split: if_splits)
  with branch_progress [OF assms(2) a alone(2,4)] show ?thesis by blast
next
  case (child_unforked a C b)
  then have "procs w C = Some b" "todo b = Fork_childpid # [Free_pinfo]" by simp_all
  then show ?thesis using no_childpid by blast
next
  case (two a C b)
  have pr: "procs w P = Some a" "procs w C = Some b" using two(1,2) by auto
  have "todo a \<noteq> [] \<or> todo b \<noteq> []" using assms(3) two(1) by (auto simp: finished_def split: if_splits)
  moreover have "todo b \<noteq> [] \<Longrightarrow> ?thesis"
    using branch_progress [OF assms(2) pr(2) two(7,9)] by blast
  moreover have "todo b = [] \<Longrightarrow> todo a \<noteq> [] \<Longrightarrow> ?thesis"
    using branch_progress [OF assms(2) pr(1) two(4,6)] pr(2) by (auto simp: has_ended_def)
  ultimately show ?thesis by blast
next
  case (three a C b G c)
  have pr: "procs w P = Some a" "procs w C = Some b" "procs w G = Some c" using three(1,2) by auto
  have "todo a \<noteq> [] \<or> todo b \<noteq> [] \<or> todo c \<noteq> []"
    using assms(3) three(1) by (auto simp: finished_def split: if_splits)
  moreover have "todo c \<noteq> [] \<Longrightarrow> ?thesis"
    using branch_progress [OF assms(2) pr(3) three(11,13)] by blast
  moreover have "todo c = [] \<Longrightarrow> todo b \<noteq> [] \<Longrightarrow> ?thesis"
    using branch_progress [OF assms(2) pr(2) three(8,10)] pr(3) by (auto simp: has_ended_def)
  moreover have "todo b = [] \<Longrightarrow> todo a \<noteq> [] \<Longrightarrow> ?thesis"
    using branch_progress [OF assms(2) pr(1) three(5,7)] pr(2) by (auto simp: has_ended_def)
  ultimately show ?thesis by blast
qed

lemma run_to_end:
  assumes "test_run prog view (test_init P parent mem) k w" "1 < P" "shows_tree view"
  shows "\<exists>k' w'. test_run prog view (test_init P parent mem) k' w' \<and> finished w'"
  using assms(1)
proof (induction "steps_left w" arbitrary: k w rule: less_induct)
  case less
  note s = shape_run [OF less.prems assms(2,3)]
  show ?case
  proof (cases "finished w")
    case False
    then obtain p w' where st: "test_step prog view w p w'" using shape_progress [OF s assms(3)] by blast
    from less.hyps [OF test_left_step [OF s st] test_next [OF less.prems st]] show ?thesis .
  qed (use less.prems in blast)
qed

text \<open>The pids of the child and of its child, -1 for one that could not be forked.\<close>

definition child_pid :: "world \<Rightarrow> int \<Rightarrow> int" where
  "child_pid w P = v_pid (the (procs w P))"

definition grandchild_pid :: "world \<Rightarrow> int \<Rightarrow> int" where
  "grandchild_pid w P = v_childpid (the (procs w (child_pid w P)))"

lemma branch_vars:
  assumes "parentP prog mem P parent a C"
  shows "v_pid a = C"
  using assms by (auto simp: branch_of_def role_of_def parent_branch_def child_branch_def grandchild_branch_def)

lemma branch_vars':
  assumes "childC prog mem P b C G"
  shows "v_childpid b = G"
  using assms by (auto simp: branch_of_def role_of_def parent_branch_def child_branch_def grandchild_branch_def)

lemma finished_reports:
  assumes "shape prog P parent mem w" "finished w"
  shows "reports_of w = {#(''Parent Process begin'', P, parent, child_pid w P)#} +
    (if child_pid w P = - 1 then {#}
     else {#(''Child process'', child_pid w P, P, grandchild_pid w P)#} +
       (if grandchild_pid w P = - 1 then {#}
        else {#(''child of child process'', third_summary prog mem (grandchild_pid w P) (child_pid w P))#}))"
  using assms(1)
proof cases
  case (alone a)
  then show ?thesis using assms(2) branch_vars [OF alone(2)]
    by (simp add: finished_def said_def child_pid_def)
next
  case (two a C b)
  have pr: "procs w P = Some a" "procs w C = Some b" using two(1,2) by auto
  have "todo a = []" "todo b = []" using assms(2) pr by (simp_all add: finished_def)
  moreover have "child_pid w P = C" "grandchild_pid w P = - 1"
    using pr branch_vars [OF two(4)] branch_vars' [OF two(7)] by (simp_all add: child_pid_def grandchild_pid_def)
  ultimately show ?thesis using two(3,10) by (simp add: said_def)
next
  case (three a C b G c)
  have pr: "procs w P = Some a" "procs w C = Some b" "procs w G = Some c" using three(1,2) by auto
  have "todo a = []" "todo b = []" "todo c = []" using assms(2) pr by (simp_all add: finished_def)
  moreover have "child_pid w P = C" "grandchild_pid w P = G"
    using pr branch_vars [OF three(5)] branch_vars' [OF three(8)] by (simp_all add: child_pid_def grandchild_pid_def)
  ultimately show ?thesis using three(3,4,14) by (simp add: said_def)
next
  case (unforked a)
  then have "procs w P = Some a" "todo a \<noteq> []" by (simp_all add: main_code_def)
  with assms(2) show ?thesis by (simp add: finished_def)
next
  case (child_unforked a C b)
  then have "procs w C = Some b" "todo b \<noteq> []" by simp_all
  with assms(2) show ?thesis by (simp add: finished_def)
qed

section \<open>Property\<close>

text \<open>
  C23. What the test programs show of the call: with a kernel that shows the call the process, its parent
  and its children, any scheduling, forks that may fail, and whatever the second process overwrites when it
  waits with a wild address for its status, a run ends after at most 14 steps
  and is never stuck before. At its end the first process has printed its own pid, its parent's and, as its
  youngest child, the pid of the one child it forked (-1 for a fork that failed, which it takes for a
  child's pid); the child has printed the same of itself; and the third process has printed its own,
  its parent's and -1. In \<open>testnull\<close>, where the third process passes \<open>NULL\<close>, it has printed what was in
  the memory before: the call answers with an error, it does not
  make an empty structure as \<open>README.txt\<close> says.
\<close>

theorem test_programs_report:
  assumes "1 < P" "shows_tree view" "test_run prog view (test_init P parent mem) k w"
  shows "k \<le> 14 \<and> (\<not> finished w \<longrightarrow> (\<exists>p w'. test_step prog view w p w')) \<and>
    (finished w \<longrightarrow> reports_of w = {#(''Parent Process begin'', P, parent, child_pid w P)#} +
       (if child_pid w P = - 1 then {#}
        else {#(''Child process'', child_pid w P, P, grandchild_pid w P)#} +
          (if grandchild_pid w P = - 1 then {#}
           else {#(''child of child process'',
             (if prog = Test then (grandchild_pid w P, child_pid w P, - 1)
              else (pid mem, parent_pid mem, youngest_child mem)))#})))"
  using run_bound [OF assms(3,1,2)] shape_run [OF assms(3,1,2)] shape_progress [OF _ assms(2)]
    finished_reports
  by (fastforce simp: third_summary_def summary_def)

section \<open>Witness\<close>

text \<open>A kernel that keeps the children of a process at the nodes 1, 2 and so on, their head at 0, and the
  process itself as the only child of its parent.\<close>

definition demo_view :: "world \<Rightarrow> int \<Rightarrow> links \<times> current" where
  "demo_view w p =
     (let n = length (children w p) in
      (\<lparr>nxt = (\<lambda>k. if k < n then k + 1 else if k = n then 0 else if k = n + 1 then n + 2 else n + 1),
        prv = (\<lambda>k. if k = 0 then n else if k \<le> n then k - 1 else if k = n + 1 then n + 2 else n + 1),
        task_of = (\<lambda>k. \<lparr>k_pid = (if 1 \<le> k \<and> k \<le> n then children w p ! (k - 1) else 0), k_start = 5,
                        k_utime = 0, k_stime = 0\<rparr>)\<rparr>,
       \<lparr>c_task = \<lparr>k_pid = p, k_start = 5, k_utime = 0, k_stime = 0\<rparr>, c_state = 0,
        c_parent_pid = parent_of w p, c_uid = 1000, c_children = 0, c_sibling = n + 1\<rparr>))"

lemma chain_up:
  assumes "\<And>k. k < n \<Longrightarrow> step k = k + 1" "step n = 0" "i \<le> n"
  shows "chain step (step i) [i + 1..<n + 1] 0"
  using assms(3)
proof (induction "n - i" arbitrary: i)
  case 0
  then have "i = n" by simp
  then show ?case by (simp add: assms(2))
next
  case (Suc d)
  then have "step i = i + 1" "chain step (step (i + 1)) [i + 2..<n + 1] 0"
    using assms(1) Suc.hyps(1) [of "i + 1"] by simp_all
  moreover have "[i + 1..<n + 1] = (i + 1) # [i + 2..<n + 1]" using Suc.hyps(2) by (subst upt_conv_Cons) simp_all
  ultimately show ?case by simp
qed

lemma chain_down:
  assumes "\<And>k. 0 < k \<Longrightarrow> k \<le> n \<Longrightarrow> step k = k - 1" "m \<le> n"
  shows "chain step m (rev [1..<m + 1]) 0"
  using assms(2)
proof (induction m)
  case (Suc m)
  then show ?case using assms(1) [of "Suc m"] by simp
qed simp

lemma demo_view_shows: "shows_tree demo_view"
  unfolding shows_tree_def
proof (intro allI impI)
  fix w p L c
  assume v: "demo_view w p = (L, c)"
  let ?n = "length (children w p)"
  have "chain (nxt L) (nxt L 0) [0 + 1..<?n + 1] 0"
    by (rule chain_up [where i = 0 and n = ?n]) (use v in \<open>auto simp: demo_view_def Let_def\<close>)
  moreover have "chain (prv L) ?n (rev [1..<?n + 1]) 0"
    by (rule chain_down [where n = ?n]) (use v in \<open>auto simp: demo_view_def Let_def\<close>)
  moreover have "prv L 0 = ?n" "c_children c = 0" using v by (auto simp: demo_view_def Let_def)
  ultimately have "ring L (c_children c) [1..<?n + 1]" by (simp add: ring_def)
  moreover have "ring L (c_sibling c) [?n + 2]" using v by (auto simp: ring_def demo_view_def Let_def)
  moreover have "map (\<lambda>k. k_pid (task_of L k)) [1..<?n + 1] = children w p"
  proof -
    have "[1..<?n + 1] = map Suc [0..<?n]" by (simp add: map_Suc_upt del: upt_Suc)
    then have "map (\<lambda>k. k_pid (task_of L k)) [1..<?n + 1] = map (\<lambda>k. k_pid (task_of L (Suc k))) [0..<?n]"
      by (simp only: map_map comp_def)
    also have "\<dots> = map (\<lambda>k. children w p ! k) [0..<?n]" using v by (auto simp: demo_view_def Let_def)
    finally show ?thesis by (simp add: map_nth)
  qed
  moreover have "\<forall>k\<in>set [1..<?n + 1]. time_ok (k_start (task_of L k))"
    using v by (auto simp: demo_view_def Let_def time_ok_def)
  moreover have "k_pid (c_task c) = p" "c_parent_pid c = parent_of w p"
    using v by (auto simp: demo_view_def Let_def)
  ultimately show "k_pid (c_task c) = p \<and> c_parent_pid c = parent_of w p \<and>
     (\<exists>xs ys. ring L (c_children c) xs \<and> ring L (c_sibling c) ys \<and>
        map (\<lambda>n. k_pid (task_of L n)) xs = children w p \<and> (\<forall>n\<in>set xs. time_ok (k_start (task_of L n))))"
    by blast
qed

definition demo_memory :: processinfo where
  "demo_memory = \<lparr>state = 0, pid = 0, parent_pid = 0, youngest_child = 0, younger_sibling = 0,
     older_sibling = 0, uid = 0, start_time = 0, user_time = 0, sys_time = 0, cutime = 0, cstime = 0\<rparr>"

corollary test_programs_report_witness:
  "\<exists>k w. test_run Test demo_view (test_init 5867 2742 demo_memory) k w \<and> finished w \<and> k \<le> 14 \<and>
     (''Parent Process begin'', 5867, 2742, child_pid w 5867) \<in># reports_of w"
proof -
  have P: "1 < (5867 :: int)" by simp
  obtain k w where r: "test_run Test demo_view (test_init 5867 2742 demo_memory) k w" "finished w"
    using run_to_end [OF test_start P demo_view_shows] by blast
  have "k \<le> 14 \<and> (''Parent Process begin'', 5867, 2742, child_pid w 5867) \<in># reports_of w"
    using test_programs_report [OF P demo_view_shows r(1)] r(2) by (simp only: simp_thms) simp
  with r show ?thesis by blast
qed


end
