(* ===== verification/Uts.thy ===== *)
theory Uts
  imports Calls CString
begin

text \<open>
  System names of \<open>preproj2/sys.c\<close>: \<open>override_release\<close>, \<open>newuname\<close>, \<open>uname\<close>, \<open>olduname\<close>,
  \<open>sethostname\<close>, \<open>gethostname\<close>, \<open>setdomainname\<close>. The user's memory is a function from addresses to bytes
  with the sets of addresses that can be read and written; a copy to the user stops at the first
  address that cannot be written, with the number of bytes left. The capability test, the personality
  of the process and the version of the kernel are parameters. On i386 \<open>override_architecture\<close> is 0.
\<close>

section \<open>Memory of the user\<close>

type_synonym umem = "nat \<Rightarrow> char"

text \<open>The number of bytes not copied, and the memory afterwards.\<close>

fun copy_to_user :: "(nat \<Rightarrow> bool) \<Rightarrow> nat \<Rightarrow> string \<Rightarrow> umem \<Rightarrow> nat \<times> umem" where
  "copy_to_user W a [] m = (0, m)"
| "copy_to_user W a (c # cs) m =
     (if W a then copy_to_user W (a + 1) cs (m(a := c)) else (Suc (length cs), m))"

definition copy_from_user :: "(nat \<Rightarrow> bool) \<Rightarrow> nat \<Rightarrow> nat \<Rightarrow> umem \<Rightarrow> string option" where
  "copy_from_user R a n m = (if \<forall>i<n. R (a + i) then Some (map (\<lambda>i. m (a + i)) [0..<n]) else None)"

text \<open>What the memory holds at \<open>a\<close>.\<close>

definition bytes_at :: "umem \<Rightarrow> nat \<Rightarrow> nat \<Rightarrow> string" where
  "bytes_at m a n = map (\<lambda>i. m (a + i)) [0..<n]"

section \<open>Data\<close>

definition NEW_UTS_LEN :: nat where "NEW_UTS_LEN = 64"
definition OLD_UTS_LEN :: nat where "OLD_UTS_LEN = 8"

text \<open>Each field has \<open>NEW_UTS_LEN + 1\<close> bytes.\<close>

record utsname =
  sysname :: string
  nodename :: string
  release :: string
  version :: string
  machine :: string
  domainname :: string

record uts_env =
  cap_admin :: bool
  uname26 :: bool                  \<comment> \<open>\<open>personality & UNAME26\<close>\<close>
  UTS_RELEASE :: string
  LINUX_VERSION_CODE :: nat
  readable_at :: "nat \<Rightarrow> bool"
  writable_at :: "nat \<Rightarrow> bool"
  access_ok :: "nat \<Rightarrow> nat \<Rightarrow> bool"

section \<open>uname\<close>

text \<open>\<open>rest\<close> after the loop: from the third dot, or from the first character that is no digit or dot.\<close>

fun skip_version :: "nat \<Rightarrow> string \<Rightarrow> string" where
  "skip_version ndots [] = []"
| "skip_version ndots (c # cs) =
     (let ndots' = (if c = CHR ''.'' then ndots + 1 else ndots) in
      if c = CHR ''.'' \<and> ndots' \<ge> 3 then c # cs
      else if \<not> isdigit c \<and> c \<noteq> CHR ''.'' then c # cs
      else skip_version ndots' cs)"

text \<open>\<open>%u\<close>\<close>

fun decimal :: "nat \<Rightarrow> string" where
  "decimal n = (if n < 10 then [char_of (48 + n)] else decimal (n div 10) @ [char_of (48 + n mod 10)])"

declare decimal.simps [simp del]

definition scnprintf :: "nat \<Rightarrow> string \<Rightarrow> nat \<times> string" where
  "scnprintf sz txt = (min (length txt) (sz - 1), take (sz - 1) txt @ [NUL])"

definition override_release :: "uts_env \<Rightarrow> nat \<Rightarrow> nat \<Rightarrow> umem \<Rightarrow> nat \<times> umem" where
  "override_release E rel len m =
     (if uname26 E then
        let rest = skip_version 0 (UTS_RELEASE E);
            v = (LINUX_VERSION_CODE E div 2 ^ 8) mod 2 ^ 8 + 40;
            copy = max 1 (min len 65);
            (copy, buf) = scnprintf copy (''2.6.'' @ decimal v @ rest)
        in copy_to_user (writable_at E) rel (take (copy + 1) buf) m
      else (0, m))"

definition uts_bytes :: "utsname \<Rightarrow> string" where
  "uts_bytes u = sysname u @ nodename u @ release u @ version u @ machine u @ domainname u"

text \<open>The offset of \<open>release\<close> is that of two fields.\<close>

definition newuname :: "uts_env \<Rightarrow> utsname \<Rightarrow> nat \<Rightarrow> umem \<Rightarrow> int \<times> umem" where
  "newuname E u name m =
     (let (left, m1) = copy_to_user (writable_at E) name (uts_bytes u) m in
      if left \<noteq> 0 then (- EFAULT, m1)
      else
        let (left', m2) = override_release E (name + 2 * (NEW_UTS_LEN + 1)) (NEW_UTS_LEN + 1) m1
        in (if left' \<noteq> 0 then - EFAULT else 0, m2))"

text \<open>\<open>struct old_utsname\<close> has no \<open>domainname\<close>.\<close>

definition uname :: "uts_env \<Rightarrow> utsname \<Rightarrow> nat \<Rightarrow> umem \<Rightarrow> int \<times> umem" where
  "uname E u name m =
     (if name = 0 then (- EFAULT, m)
      else
        let (left, m1) = copy_to_user (writable_at E) name
              (take (5 * (NEW_UTS_LEN + 1)) (uts_bytes u)) m in
        if left \<noteq> 0 then (- EFAULT, m1)
        else
          let (left', m2) = override_release E (name + 2 * (NEW_UTS_LEN + 1)) (NEW_UTS_LEN + 1) m1
          in (if left' \<noteq> 0 then - EFAULT else 0, m2))"

text \<open>One field of \<open>struct oldold_utsname\<close>: eight bytes and a zero; whether something failed.\<close>

definition old_field :: "uts_env \<Rightarrow> nat \<Rightarrow> string \<Rightarrow> umem \<Rightarrow> bool \<times> umem" where
  "old_field E a f m =
     (let (left, m1) = copy_to_user (writable_at E) a (take OLD_UTS_LEN f) m;
          (left', m2) = copy_to_user (writable_at E) (a + OLD_UTS_LEN) [NUL] m1
      in (left \<noteq> 0 \<or> left' \<noteq> 0, m2))"

fun old_fields :: "uts_env \<Rightarrow> nat \<Rightarrow> string list \<Rightarrow> umem \<Rightarrow> bool \<times> umem" where
  "old_fields E a [] m = (False, m)"
| "old_fields E a (f # fs) m =
     (let (error, m1) = old_field E a f m;
          (error', m2) = old_fields E (a + OLD_UTS_LEN + 1) fs m1
      in (error \<or> error', m2))"

definition olduname :: "uts_env \<Rightarrow> utsname \<Rightarrow> nat \<Rightarrow> umem \<Rightarrow> int \<times> umem" where
  "olduname E u name m =
     (if name = 0 then (- EFAULT, m)
      else if \<not> access_ok E name (5 * (OLD_UTS_LEN + 1)) then (- EFAULT, m)
      else
        let (error, m1) = old_fields E name [sysname u, nodename u, release u, version u, machine u] m
        in if error then (- EFAULT, m1)
           else
             let (left, m2) = override_release E (name + 2 * (OLD_UTS_LEN + 1)) (OLD_UTS_LEN + 1) m1
             in (if left \<noteq> 0 then - EFAULT else 0, m2))"

section \<open>Host and domain name\<close>

definition sethostname :: "uts_env \<Rightarrow> umem \<Rightarrow> nat \<Rightarrow> int \<Rightarrow> utsname \<Rightarrow> int \<times> utsname" where
  "sethostname E m name len u =
     (if \<not> cap_admin E then (- EPERM, u)
      else if len < 0 \<or> len > int NEW_UTS_LEN then (- EINVAL, u)
      else case copy_from_user (readable_at E) name (nat len) m of
        None \<Rightarrow> (- EFAULT, u)
      | Some tmp \<Rightarrow> (0, u\<lparr>nodename := tmp @ replicate (NEW_UTS_LEN + 1 - nat len) NUL\<rparr>))"

definition gethostname :: "uts_env \<Rightarrow> utsname \<Rightarrow> nat \<Rightarrow> int \<Rightarrow> umem \<Rightarrow> int \<times> umem" where
  "gethostname E u name len m =
     (if len < 0 then (- EINVAL, m)
      else
        let i = 1 + length (c_str (nodename u));
            i = (if int i > len then nat len else i);
            (left, m') = copy_to_user (writable_at E) name (take i (nodename u)) m
        in (if left \<noteq> 0 then - EFAULT else 0, m'))"

definition setdomainname :: "uts_env \<Rightarrow> umem \<Rightarrow> nat \<Rightarrow> int \<Rightarrow> utsname \<Rightarrow> int \<times> utsname" where
  "setdomainname E m name len u =
     (if \<not> cap_admin E then (- EPERM, u)
      else if len < 0 \<or> len > int NEW_UTS_LEN then (- EINVAL, u)
      else case copy_from_user (readable_at E) name (nat len) m of
        None \<Rightarrow> (- EFAULT, u)
      | Some tmp \<Rightarrow> (0, u\<lparr>domainname := tmp @ replicate (NEW_UTS_LEN + 1 - nat len) NUL\<rparr>))"

section \<open>Copies\<close>

lemma copy_to_user_frame:
  "x < a \<or> a + length bs \<le> x \<Longrightarrow> snd (copy_to_user W a bs m) x = m x"
  by (induction bs arbitrary: a m) auto

lemma copy_to_user_done:
  "fst (copy_to_user W a bs m) = 0 \<longleftrightarrow> (\<forall>i<length bs. W (a + i))"
proof (induction bs arbitrary: a m)
  case (Cons c cs)
  then show ?case by (auto simp: All_less_Suc2)
qed simp

lemma copy_to_user_ok:
  assumes "\<forall>i<length bs. W (a + i)"
  shows "bytes_at (snd (copy_to_user W a bs m)) a (length bs) = bs"
  using assms
proof (induction bs arbitrary: a m)
  case Nil
  then show ?case by (simp add: bytes_at_def)
next
  case (Cons c cs)
  have w: "W a" "\<forall>i<length cs. W (a + 1 + i)" using Cons.prems by (auto simp: All_less_Suc2)
  have "snd (copy_to_user W (a + 1) cs (m(a := c))) a = c"
    using copy_to_user_frame [of a "a + 1" cs W "m(a := c)"] by simp
  moreover have "map (\<lambda>i. snd (copy_to_user W (a + 1) cs (m(a := c))) (a + Suc i)) [0..<length cs] = cs"
    using Cons.IH [OF w(2), unfolded bytes_at_def] by (simp only: add.assoc plus_1_eq_Suc)
  ultimately show ?case
    using w(1) by (simp add: bytes_at_def map_upt_Suc del: upt_Suc fun_upd_apply)
qed

section \<open>The version shown to old programs\<close>

lemma length_scnprintf:
  "fst (scnprintf sz txt) = min (length txt) (sz - 1)"
  "take (fst (scnprintf sz txt) + 1) (snd (scnprintf sz txt)) = take (sz - 1) txt @ [NUL]"
  by (simp_all add: scnprintf_def min_def)

lemma override_release_eq:
  "override_release E rel len m =
     (if uname26 E
      then copy_to_user (writable_at E) rel
             (take (max 1 (min len 65) - 1)
               (''2.6.'' @ decimal ((LINUX_VERSION_CODE E div 2 ^ 8) mod 2 ^ 8 + 40) @
                skip_version 0 (UTS_RELEASE E)) @ [NUL]) m
      else (0, m))"
  unfolding override_release_def Let_def split_beta length_scnprintf(2) by (rule refl)

text \<open>It stays in its field.\<close>

lemma override_release_frame:
  assumes "0 < len" "x < rel \<or> rel + len \<le> x"
  shows "snd (override_release E rel len m) x = m x"
proof -
  let ?bs = "take (max 1 (min len 65) - 1)
       (''2.6.'' @ decimal ((LINUX_VERSION_CODE E div 2 ^ 8) mod 2 ^ 8 + 40) @
        skip_version 0 (UTS_RELEASE E)) @ [NUL]"
  have "length ?bs \<le> len" using assms(1) by simp
  then have "x < rel \<or> rel + length ?bs \<le> x" using assms(2) by linarith
  then show ?thesis unfolding override_release_eq by (simp add: copy_to_user_frame del: append_assoc)
qed

lemma old_fields_frame:
  "x < a \<or> a + 9 * length fs \<le> x \<Longrightarrow> snd (old_fields E a fs m) x = m x"
proof (induction fs arbitrary: a m)
  case (Cons f fs)
  have one: "snd (old_field E a f m) x = m x" if "x < a \<or> a + 9 \<le> x"
    using that copy_to_user_frame [of x a "take OLD_UTS_LEN f" "writable_at E" m]
      copy_to_user_frame [of x "a + OLD_UTS_LEN" "[NUL]" "writable_at E"]
    by (auto simp: old_field_def split_beta OLD_UTS_LEN_def)
  have "snd (old_fields E (a + 9) fs (snd (old_field E a f m))) x = snd (old_field E a f m) x"
    using Cons.prems by (intro Cons.IH) auto
  then show ?case using one Cons.prems by (auto simp: split_beta OLD_UTS_LEN_def add.commute)
qed simp

definition uts_ok :: "utsname \<Rightarrow> bool" where
  "uts_ok u \<longleftrightarrow>
     (\<forall>f\<in>{sysname u, nodename u, release u, version u, machine u, domainname u}.
        length f = NEW_UTS_LEN + 1 \<and> f ! NEW_UTS_LEN = NUL)"

section \<open>Setting the names\<close>

datatype uts_call = Sethostname uts_env umem nat int | Setdomainname uts_env umem nat int

fun uts_do :: "uts_call \<Rightarrow> utsname \<Rightarrow> utsname" where
  "uts_do (Sethostname E m name len) u = snd (sethostname E m name len u)"
| "uts_do (Setdomainname E m name len) u = snd (setdomainname E m name len u)"

lemma padded_field:
  assumes "length tmp = n" "n \<le> NEW_UTS_LEN"
  shows "length (tmp @ replicate (NEW_UTS_LEN + 1 - n) NUL) = NEW_UTS_LEN + 1"
    "(tmp @ replicate (NEW_UTS_LEN + 1 - n) NUL) ! NEW_UTS_LEN = NUL"
  using assms by (simp_all add: nth_append)

lemma copy_from_user_length: "copy_from_user R a n m = Some tmp \<Longrightarrow> length tmp = n"
  by (auto simp: copy_from_user_def split: if_splits)

lemma sethostname_ok:
  assumes "uts_ok u"
  shows "uts_ok (snd (sethostname E m name len u))"
proof (cases "copy_from_user (readable_at E) name (nat len) m")
  case (Some tmp)
  have "uts_ok (u\<lparr>nodename := tmp @ replicate (NEW_UTS_LEN + 1 - nat len) NUL\<rparr>)"
    if "len \<le> int NEW_UTS_LEN"
    using assms padded_field [OF copy_from_user_length [OF Some]] that by (simp add: uts_ok_def)
  then show ?thesis using Some assms by (simp add: sethostname_def)
qed (use assms in \<open>simp add: sethostname_def\<close>)

lemma setdomainname_ok:
  assumes "uts_ok u"
  shows "uts_ok (snd (setdomainname E m name len u))"
proof (cases "copy_from_user (readable_at E) name (nat len) m")
  case (Some tmp)
  have "uts_ok (u\<lparr>domainname := tmp @ replicate (NEW_UTS_LEN + 1 - nat len) NUL\<rparr>)"
    if "len \<le> int NEW_UTS_LEN"
    using assms padded_field [OF copy_from_user_length [OF Some]] that by (simp add: uts_ok_def)
  then show ?thesis using Some assms by (simp add: setdomainname_def)
qed (use assms in \<open>simp add: setdomainname_def\<close>)

interpretation uts_calls: invariant_calls uts_do uts_ok
proof
  show "uts_ok (uts_do c u)" if "uts_ok u" for c u
    using that sethostname_ok setdomainname_ok by (cases c) simp_all
qed

text \<open>A string padded with zeros ends at its first zero.\<close>

lemma c_str_split:
  assumes "0 < k"
  shows "\<exists>rest. bs @ replicate k NUL = c_str bs @ NUL # rest"
proof (cases "dropWhile (\<lambda>c. c \<noteq> NUL) bs")
  case Nil
  then have "c_str bs = bs" unfolding c_str_def by (metis append_Nil2 takeWhile_dropWhile_id)
  moreover obtain j where "k = Suc j" using assms by (cases k) auto
  ultimately show ?thesis by auto
next
  case (Cons c cs)
  then have "c = NUL" using hd_dropWhile [of "\<lambda>c. c \<noteq> NUL" bs] by auto
  moreover have "bs = c_str bs @ c # cs" unfolding c_str_def Cons [symmetric] by simp
  ultimately show ?thesis by (metis append_Cons append_assoc)
qed

lemma c_str_padded: "NUL \<notin> set cs \<Longrightarrow> c_str (cs @ NUL # rest) = cs"
  unfolding c_str_def by (induction cs) auto

lemma NUL_not_in_c_str: "NUL \<notin> set (c_str bs)"
  unfolding c_str_def by (auto dest: set_takeWhileD)

section \<open>Where the calls write\<close>

lemma uname_frame:
  assumes "uts_ok u"
  shows "x < name \<or> name + 390 \<le> x \<Longrightarrow> snd (newuname E u name m) x = m x"
    "x < name \<or> name + 325 \<le> x \<Longrightarrow> snd (uname E u name m) x = m x"
proof -
  have ulen: "length (uts_bytes u) = 390" using assms by (simp add: uts_ok_def uts_bytes_def NEW_UTS_LEN_def)
  show "snd (newuname E u name m) x = m x" if "x < name \<or> name + 390 \<le> x"
    using that copy_to_user_frame [of x name "uts_bytes u" "writable_at E" m] ulen
      override_release_frame [of 65 x "name + 130" E "snd (copy_to_user (writable_at E) name (uts_bytes u) m)"]
    by (auto simp: newuname_def split_beta NEW_UTS_LEN_def Let_def)
  show "snd (uname E u name m) x = m x" if "x < name \<or> name + 325 \<le> x"
    using that copy_to_user_frame [of x name "take 325 (uts_bytes u)" "writable_at E" m] ulen
      override_release_frame [of 65 x "name + 130" E
        "snd (copy_to_user (writable_at E) name (take 325 (uts_bytes u)) m)"]
    by (auto simp: uname_def split_beta NEW_UTS_LEN_def Let_def)
qed

lemma olduname_frame:
  assumes "x < name \<or> name + 45 \<le> x"
  shows "snd (olduname E u name m) x = m x"
proof -
  let ?fs = "[sysname u, nodename u, release u, version u, machine u]"
  show ?thesis
    using assms old_fields_frame [of x name ?fs E m]
      override_release_frame [of 9 x "name + 18" E "snd (old_fields E name ?fs m)"]
    by (auto simp: olduname_def split_beta OLD_UTS_LEN_def Let_def simp del: old_fields.simps)
qed

lemma gethostname_frame:
  assumes "x < name \<or> int name + len \<le> int x"
  shows "snd (gethostname E u name len m) x = m x"
proof (cases "len < 0")
  case False
  define i where "i = (if int (1 + length (c_str (nodename u))) > len then nat len
      else 1 + length (c_str (nodename u)))"
  have "i \<le> nat len" using False by (auto simp: i_def)
  then have "x < name \<or> name + length (take i (nodename u)) \<le> x" using assms False by auto
  then show ?thesis
    using False copy_to_user_frame unfolding gethostname_def Let_def i_def [symmetric]
    by (simp add: split_beta)
qed (simp add: gethostname_def)

text \<open>A release that is made up is a terminated string.\<close>

lemma override_release_terminated:
  assumes "0 < flen" "uname26 E" "\<forall>i<flen. writable_at E (rel + i)"
  shows "fst (override_release E rel flen m) = 0 \<and>
    (\<exists>i<flen. snd (override_release E rel flen m) (rel + i) = NUL)"
proof -
  define bs where "bs = take (max 1 (min flen 65) - 1)
     (''2.6.'' @ decimal ((LINUX_VERSION_CODE E div 2 ^ 8) mod 2 ^ 8 + 40) @
      skip_version 0 (UTS_RELEASE E))"
  have o: "override_release E rel flen m = copy_to_user (writable_at E) rel (bs @ [NUL]) m"
    using assms(2) by (simp add: override_release_eq bs_def)
  have l: "length (bs @ [NUL]) \<le> flen" using assms(1) by (simp add: bs_def)
  then have w: "\<forall>i<length (bs @ [NUL]). writable_at E (rel + i)" using assms(3) by simp
  have "bytes_at (snd (override_release E rel flen m)) rel (length (bs @ [NUL])) ! length bs = NUL"
    unfolding o copy_to_user_ok [OF w] by simp
  then have "snd (override_release E rel flen m) (rel + length bs) = NUL"
    by (simp add: bytes_at_def del: upt_Suc)
  moreover have "fst (override_release E rel flen m) = 0"
    unfolding o using w by (simp only: copy_to_user_done)
  moreover have "length bs < flen" using l by simp
  ultimately show ?thesis by blast
qed

text \<open>What \<open>gethostname\<close> writes, when the field is \<open>host\<close> with a zero after it.\<close>

lemma gethostname_writes:
  assumes "nodename u = host @ NUL # rest" "NUL \<notin> set host" "0 \<le> len"
    and "\<forall>i<nat len. writable_at E (dst + i)" "gethostname E u dst len m = (r, m')"
  shows "r = 0 \<and>
    (if int (length host) < len then bytes_at m' dst (length host + 1) = host @ [NUL]
     else bytes_at m' dst (nat len) = take (nat len) host)"
proof -
  have cs: "c_str (nodename u) = host" unfolding assms(1) by (rule c_str_padded [OF assms(2)])
  define i where "i = (if int (1 + length host) > len then nat len else 1 + length host)"
  have g: "gethostname E u dst len m =
      (let (left, m1) = copy_to_user (writable_at E) dst (take i (nodename u)) m
       in (if left \<noteq> 0 then - EFAULT else 0, m1))"
    using assms(3) unfolding gethostname_def Let_def cs i_def by simp
  have w: "\<forall>k<length (take i (nodename u)). writable_at E (dst + k)"
    using assms(3,4) by (auto simp: i_def split: if_splits)
  have "fst (copy_to_user (writable_at E) dst (take i (nodename u)) m) = 0"
    using copy_to_user_done w by blast
  then have r: "r = 0" and m': "m' = snd (copy_to_user (writable_at E) dst (take i (nodename u)) m)"
    using g assms(5) by (auto simp: split_beta)
  have b: "bytes_at m' dst (length (take i (nodename u))) = take i (nodename u)"
    unfolding m' by (rule copy_to_user_ok [OF w])
  show ?thesis
  proof (cases "int (length host) < len")
    case True
    then have "take i (nodename u) = host @ [NUL]" using assms(1) by (simp add: i_def)
    then show ?thesis using b True r by simp
  next
    case False
    then have "take i (nodename u) = take (nat len) host" "nat len \<le> length host"
      using assms(1,3) by (auto simp: i_def)
    then show ?thesis using b False r by simp
  qed
qed

section \<open>Properties\<close>

text \<open>
  C30. The calls write only into the user's structure: \<open>newuname\<close> into its 390 bytes, \<open>uname\<close> into
  325, \<open>olduname\<close> into 45, \<open>gethostname\<close> into \<open>len\<close>; in particular the made-up release of a process
  with UNAME26 stays in its field; and where it is written, the field holds a terminated string.
\<close>

theorem uname_stays_in_struct:
  assumes "uts_ok u"
  shows "(x < name \<or> name + 390 \<le> x \<longrightarrow> snd (newuname E u name m) x = m x) \<and>
    (x < name \<or> name + 325 \<le> x \<longrightarrow> snd (uname E u name m) x = m x) \<and>
    (x < name \<or> name + 45 \<le> x \<longrightarrow> snd (olduname E u name m) x = m x) \<and>
    (x < name \<or> int name + len \<le> int x \<longrightarrow> snd (gethostname E u name len m) x = m x) \<and>
    (0 < flen \<longrightarrow> uname26 E \<longrightarrow> (\<forall>i<flen. writable_at E (rel + i)) \<longrightarrow>
       fst (override_release E rel flen m) = 0 \<and>
       (\<exists>i<flen. snd (override_release E rel flen m) (rel + i) = NUL))"
  by (intro conjI impI uname_frame [OF assms] olduname_frame gethostname_frame override_release_terminated)

text \<open>
  C29. The host name reads back: the fields of the names stay terminated strings of 65 bytes under any
  sequence of \<open>sethostname\<close> and \<open>setdomainname\<close>; and after a \<open>sethostname\<close> with the privilege, up to
  64 bytes and readable memory, \<open>gethostname\<close> into a writable buffer of \<open>len'\<close> bytes returns 0 and
  leaves there the bytes up to the first zero and a zero, or the first \<open>len'\<close> of them without a zero
  when they do not fit.
\<close>

theorem hostname_reads_back:
  assumes "uts_ok u0" "u = fold uts_do calls u0"
    and "cap_admin E" "0 \<le> len" "len \<le> 64" "\<forall>i<nat len. readable_at E (name + i)"
    and "sethostname E m name len u = (r, u')"
    and "0 \<le> len'" "\<forall>i<nat len'. writable_at E (dst + i)"
    and "gethostname E u' dst len' m' = (r', m'')"
  shows "uts_ok u' \<and> r = 0 \<and> r' = 0 \<and>
    (let host = c_str (bytes_at m name (nat len)) in
     if int (length host) < len' then bytes_at m'' dst (length host + 1) = host @ [NUL]
     else bytes_at m'' dst (nat len') = take (nat len') host)"
proof -
  define bs where "bs = bytes_at m name (nat len)"
  define host where "host = c_str bs"
  have u: "uts_ok u" unfolding assms(2) by (rule uts_calls.inv_calls [OF assms(1)])
  have "copy_from_user (readable_at E) name (nat len) m = Some bs"
    using assms(6) by (simp add: copy_from_user_def bs_def bytes_at_def)
  then have s: "sethostname E m name len u =
      (0, u\<lparr>nodename := bs @ replicate (NEW_UTS_LEN + 1 - nat len) NUL\<rparr>)"
    using assms(3,4,5) by (simp add: sethostname_def NEW_UTS_LEN_def)
  then have r: "r = 0" and u': "u' = u\<lparr>nodename := bs @ replicate (NEW_UTS_LEN + 1 - nat len) NUL\<rparr>"
    using assms(7) by simp_all
  have "0 < NEW_UTS_LEN + 1 - nat len" using assms(5) by (simp add: NEW_UTS_LEN_def)
  from c_str_split [OF this, of bs] obtain rest where node: "nodename u' = host @ NUL # rest"
    unfolding u' host_def by auto
  have "NUL \<notin> set host" by (simp add: host_def NUL_not_in_c_str)
  from gethostname_writes [OF node this assms(8-10)]
  have "r' = 0 \<and> (if int (length host) < len' then bytes_at m'' dst (length host + 1) = host @ [NUL]
     else bytes_at m'' dst (nat len') = take (nat len') host)" .
  moreover have "uts_ok u'" using sethostname_ok [OF u, of E m name len] s r u' by simp
  ultimately show ?thesis
    using r unfolding Let_def bs_def [symmetric] host_def [symmetric] by blast
qed

section \<open>Witnesses\<close>

definition demo_uts_env :: uts_env where
  "demo_uts_env = \<lparr>cap_admin = True, uname26 = True, UTS_RELEASE = ''3.5.0-ubuntu'',
     LINUX_VERSION_CODE = 0x030500, readable_at = (\<lambda>_. True), writable_at = (\<lambda>_. True),
     access_ok = (\<lambda>_ _. True)\<rparr>"

definition demo_uts :: utsname where
  "demo_uts = (let f = replicate 65 NUL in
     \<lparr>sysname = f, nodename = f, release = f, version = f, machine = f, domainname = f\<rparr>)"

definition demo_umem :: umem where
  "demo_umem a = (if a = 100 then CHR ''p'' else if a = 101 then CHR ''c'' else CHR ''x'')"

lemma demo_uts_ok: "uts_ok demo_uts"
  by (simp add: uts_ok_def demo_uts_def Let_def NEW_UTS_LEN_def)

corollary uname_stays_in_struct_witness:
  "snd (newuname demo_uts_env demo_uts 1000 demo_umem) 100 = CHR ''p'' \<and>
   fst (override_release demo_uts_env 1000 9 demo_umem) = 0"
  using uname_stays_in_struct [OF demo_uts_ok, of 100 1000 demo_uts_env demo_umem 0 9 1000]
  by (simp add: demo_umem_def demo_uts_env_def)

corollary hostname_reads_back_witness:
  "\<exists>u' m''. sethostname demo_uts_env demo_umem 100 2 demo_uts = (0, u') \<and>
     gethostname demo_uts_env u' 2000 10 demo_umem = (0, m'') \<and> bytes_at m'' 2000 3 = ''pc'' @ [NUL]"
proof -
  obtain r u' where s: "sethostname demo_uts_env demo_umem 100 2 demo_uts = (r, u')" by fastforce
  obtain r' m'' where g: "gethostname demo_uts_env u' 2000 10 demo_umem = (r', m'')" by fastforce
  have "bytes_at demo_umem 100 (nat 2) = ''pc''" by (simp add: bytes_at_def demo_umem_def upt_conv_Cons)
  moreover have "c_str ''pc'' = ''pc''" by code_simp
  moreover have "demo_uts = fold uts_do [] demo_uts" by simp
  note hostname_reads_back [OF demo_uts_ok this _ _ _ _ s _ _ g]
  ultimately show ?thesis using s g by (simp add: demo_uts_env_def numeral_3_eq_3)
qed

end
