(* ===== verification/Reboot.thy ===== *)
theory Reboot
  imports Calls CString "HOL-Library.Word"
begin

text \<open>
  Shutting down, of \<open>preproj2/sys.c\<close>: \<open>emergency_restart\<close>, \<open>kernel_restart\<close>, \<open>kernel_halt\<close>,
  \<open>kernel_power_off\<close> with their preparations, the system call \<open>reboot\<close>, \<open>ctrl_alt_del\<close> and
  \<open>orderly_poweroff\<close>. What these functions call is recorded, in order, as actions of the machine.
  A function is the list of its steps, because not all callers hold \<open>reboot_mutex\<close>: their
  steps are interleaved, in \<open>callers_step\<close>.
  The capability, the answer of \<open>reboot_pid_ns\<close>, the user's string and the outcome of the user mode
  helper are parameters; kexec and hibernation are not configured. The numbers are those of
  \<open>reboot(2)\<close>.
\<close>

section \<open>Data\<close>

datatype sys_state = RUNNING | RESTART | HALT | POWER_OFF

datatype action =
    Notify sys_state "string option"
  | Usermodehelper_disable
  | Device_shutdown
  | Cpu_hotplug_disable
  | Migrate nat
  | Syscore_shutdown
  | Print string
  | Dump string
  | Machine_restart "string option"
  | Machine_halt
  | Machine_power_off
  | Machine_emergency_restart
  | Pm_power_off_prepare
  | Do_exit
  | Schedule_cad
  | Kill_cad_pid
  | Emergency_sync

record machine =
  C_A_D :: int
  system_state :: sys_state
  pm_power_off :: bool           \<comment> \<open>whether the pointer is set\<close>
  pm_power_off_prepare :: bool
  cpu_online :: "nat \<Rightarrow> bool"
  first_online :: nat
  no_setaffinity :: bool
  actions :: "action list"

definition act :: "action \<Rightarrow> machine \<Rightarrow> machine" where
  "act a s = s\<lparr>actions := actions s @ [a]\<rparr>"

definition MAGIC1 :: "32 word" where "MAGIC1 = 0xfee1dead"
definition MAGIC2s :: "32 word list" where "MAGIC2s = [672274793, 85072278, 369367448, 537993216]"
definition CMD_RESTART :: "32 word" where "CMD_RESTART = 0x01234567"
definition CMD_HALT :: "32 word" where "CMD_HALT = 0xCDEF0123"
definition CMD_CAD_ON :: "32 word" where "CMD_CAD_ON = 0x89ABCDEF"
definition CMD_CAD_OFF :: "32 word" where "CMD_CAD_OFF = 0"
definition CMD_POWER_OFF :: "32 word" where "CMD_POWER_OFF = 0x4321FEDC"
definition CMD_RESTART2 :: "32 word" where "CMD_RESTART2 = 0xA1B2C3D4"

lemmas cmds = CMD_RESTART_def CMD_HALT_def CMD_CAD_ON_def CMD_CAD_OFF_def CMD_POWER_OFF_def
  CMD_RESTART2_def

record reboot_env =
  cap_boot :: bool
  pid_ns :: "32 word \<Rightarrow> int"
  user_string :: "string option"      \<comment> \<open>\<open>None\<close>: \<open>strncpy_from_user\<close> fails\<close>

record poweroff_env =
  poweroff_cmd :: string
  argv_ok :: bool
  setup_ok :: bool
  exec_result :: int

text \<open>
  One step of the code: an action, an assignment, the choice of the processor with the migration
  to it, or the call through \<open>pm_power_off_prepare\<close>, if it is set.
\<close>

datatype step =
    Do action
  | Set_system_state sys_state
  | Set_C_A_D int
  | Set_no_setaffinity
  | Set_cpus_allowed
  | Call_pm_power_off_prepare

fun emits :: "step \<Rightarrow> machine \<Rightarrow> action list" where
  "emits (Do a) s = [a]"
| "emits Set_cpus_allowed s = [Migrate (if \<not> cpu_online s 0 then first_online s else 0)]"
| "emits Call_pm_power_off_prepare s = (if pm_power_off_prepare s then [Pm_power_off_prepare] else [])"
| "emits (Set_system_state st) s = []"
| "emits (Set_C_A_D v) s = []"
| "emits Set_no_setaffinity s = []"

fun assigns :: "step \<Rightarrow> machine \<Rightarrow> machine" where
  "assigns (Set_system_state st) s = s\<lparr>system_state := st\<rparr>"
| "assigns (Set_C_A_D v) s = s\<lparr>C_A_D := v\<rparr>"
| "assigns Set_no_setaffinity s = s\<lparr>no_setaffinity := True\<rparr>"
| "assigns st s = s"

definition exec :: "step \<Rightarrow> machine \<Rightarrow> machine" where
  "exec st s = (assigns st s)\<lparr>actions := actions s @ emits st s\<rparr>"

definition run_steps :: "step list \<Rightarrow> machine \<Rightarrow> machine" where
  "run_steps sts s = fold exec sts s"

section \<open>The code\<close>

definition emergency_restart :: "step list" where
  "emergency_restart = [Do (Dump ''emerg''), Do Machine_emergency_restart]"

definition kernel_restart_prepare :: "string option \<Rightarrow> step list" where
  "kernel_restart_prepare cmd =
     [Do (Notify RESTART cmd), Set_system_state RESTART, Do Usermodehelper_disable, Do Device_shutdown]"

definition migrate_to_reboot_cpu :: "step list" where
  "migrate_to_reboot_cpu = [Do Cpu_hotplug_disable, Set_no_setaffinity, Set_cpus_allowed]"

definition kernel_restart :: "string option \<Rightarrow> step list" where
  "kernel_restart cmd =
     kernel_restart_prepare cmd @ migrate_to_reboot_cpu @
     [Do Syscore_shutdown,
      Do (Print (case cmd of
            None \<Rightarrow> ''Restarting system.''
          | Some c \<Rightarrow> ''Restarting system with command '' @ [CHR 0x27] @ c @ [CHR 0x27] @ ''.'')),
      Do (Dump ''restart''), Do (Machine_restart cmd)]"

definition kernel_shutdown_prepare :: "sys_state \<Rightarrow> step list" where
  "kernel_shutdown_prepare st =
     [Do (Notify (if st = HALT then HALT else POWER_OFF) None), Set_system_state st,
      Do Usermodehelper_disable, Do Device_shutdown]"

definition kernel_halt :: "step list" where
  "kernel_halt =
     kernel_shutdown_prepare HALT @ migrate_to_reboot_cpu @
     [Do Syscore_shutdown, Do (Print ''System halted.''), Do (Dump ''halt''), Do Machine_halt]"

definition kernel_power_off :: "step list" where
  "kernel_power_off =
     kernel_shutdown_prepare POWER_OFF @ [Call_pm_power_off_prepare] @ migrate_to_reboot_cpu @
     [Do Syscore_shutdown, Do (Print ''Power down.''), Do (Dump ''poweroff''), Do Machine_power_off]"

text \<open>
  \<open>reboot\<close>: what it returns, \<open>None\<close> where it ends in \<open>do_exit\<close>, and the steps it makes under \<open>reboot_mutex\<close>;
  \<open>None\<close> for a call that returns before it takes the mutex.
\<close>

definition reboot_steps ::
  "reboot_env \<Rightarrow> 32 word \<Rightarrow> 32 word \<Rightarrow> 32 word \<Rightarrow> machine \<Rightarrow> int option \<times> step list option" where
  "reboot_steps E magic1 magic2 cmd s =
     (if \<not> cap_boot E then (Some (- EPERM), None)
      else if magic1 \<noteq> MAGIC1 \<or> magic2 \<notin> set MAGIC2s then (Some (- EINVAL), None)
      else if pid_ns E cmd \<noteq> 0 then (Some (pid_ns E cmd), None)
      else
        let cmd = (if cmd = CMD_POWER_OFF \<and> \<not> pm_power_off s then CMD_HALT else cmd) in
        if cmd = CMD_RESTART then (Some 0, Some (kernel_restart None))
        else if cmd = CMD_CAD_ON then (Some 0, Some [Set_C_A_D 1])
        else if cmd = CMD_CAD_OFF then (Some 0, Some [Set_C_A_D 0])
        else if cmd = CMD_HALT then (None, Some (kernel_halt @ [Do Do_exit]))
        else if cmd = CMD_POWER_OFF then (None, Some (kernel_power_off @ [Do Do_exit]))
        else if cmd = CMD_RESTART2 then
          (case user_string E of
             None \<Rightarrow> (Some (- EFAULT), Some [])
           | Some str \<Rightarrow> (Some 0, Some (kernel_restart (Some (take 255 (c_str str))))))
        else (Some (- EINVAL), Some []))"

text \<open>The call as a whole, when no other call runs at the same time.\<close>

definition reboot ::
  "reboot_env \<Rightarrow> 32 word \<Rightarrow> 32 word \<Rightarrow> 32 word \<Rightarrow> machine \<Rightarrow> int option \<times> machine" where
  "reboot E magic1 magic2 cmd s =
     (case reboot_steps E magic1 magic2 cmd s of
        (ret, None) \<Rightarrow> (ret, s)
      | (ret, Some sts) \<Rightarrow> (ret, run_steps sts s))"

definition deferred_cad :: "step list" where
  "deferred_cad = kernel_restart None"

definition ctrl_alt_del :: "machine \<Rightarrow> machine" where
  "ctrl_alt_del s = act (if C_A_D s \<noteq> 0 then Schedule_cad else Kill_cad_pid) s"

definition orderly_poweroff :: "poweroff_env \<Rightarrow> bool \<Rightarrow> int \<times> step list" where
  "orderly_poweroff E force =
     (let ret = (if \<not> argv_ok E then - ENOMEM
                 else if \<not> setup_ok E then - ENOMEM
                 else exec_result E)
      in (ret,
          (if argv_ok E then []
           else [Do (Print (''orderly_poweroff failed to allocate memory for '' @
                   [CHR 0x22] @ poweroff_cmd E @ [CHR 0x22]))]) @
          (if ret \<noteq> 0 \<and> force
           then [Do (Print ''Failed to start orderly shutdown: forcing the issue''), Do Emergency_sync] @
             kernel_power_off
           else [])))"

section \<open>Calls at the same time\<close>

text \<open>
  The calls that can be made. \<open>ctrl_alt_del\<close> runs in an interrupt, as one step; \<open>deferred_cad\<close> is run by
  a kernel thread once \<open>ctrl_alt_del\<close> has scheduled it, here at any time. Only \<open>reboot\<close> takes
  \<open>reboot_mutex\<close>.
\<close>

datatype machine_call =
    Reboot reboot_env "32 word" "32 word" "32 word"
  | Ctrl_alt_del
  | Deferred_cad
  | Orderly_poweroff poweroff_env bool
  | Emergency_restart

text \<open>A caller: before \<open>mutex_lock\<close>, between it and \<open>mutex_unlock\<close>, or without the mutex, with the steps
  still to be made. The flag says that the caller ends in \<open>do_exit\<close>, with the mutex held.\<close>

datatype caller = Before_lock "step list" bool | Holding "step list" bool | Unlocked "step list"

fun starts :: "machine_call \<Rightarrow> machine \<Rightarrow> caller" where
  "starts (Reboot E m1 m2 cmd) s =
     (case reboot_steps E m1 m2 cmd s of
        (ret, None) \<Rightarrow> Unlocked []
      | (ret, Some sts) \<Rightarrow> Before_lock sts (ret = None))"
| "starts Ctrl_alt_del s = Unlocked [Do (if C_A_D s \<noteq> 0 then Schedule_cad else Kill_cad_pid)]"
| "starts Deferred_cad s = Unlocked deferred_cad"
| "starts (Orderly_poweroff E force) s = Unlocked (snd (orderly_poweroff E force))"
| "starts Emergency_restart s = Unlocked emergency_restart"

text \<open>The callers in the order of their calls, and who made which action.\<close>

record callers =
  machine_of :: machine
  mutex_free :: bool
  callers :: "caller list"
  trace :: "(nat \<times> action) list"

definition callers_init :: "machine \<Rightarrow> callers" where
  "callers_init m = \<lparr>machine_of = m, mutex_free = True, callers = [], trace = []\<rparr>"

definition makes_step :: "nat \<Rightarrow> step \<Rightarrow> caller \<Rightarrow> callers \<Rightarrow> callers" where
  "makes_step i st c s =
     s\<lparr>machine_of := exec st (machine_of s), callers := (callers s)[i := c],
       trace := trace s @ map (Pair i) (emits st (machine_of s))\<rparr>"

inductive callers_step :: "machine_call set \<Rightarrow> callers \<Rightarrow> callers \<Rightarrow> bool" for allowed where
  new_call: "c \<in> allowed \<Longrightarrow>
    callers_step allowed s (s\<lparr>callers := callers s @ [starts c (machine_of s)]\<rparr>)"
| lock: "i < length (callers s) \<Longrightarrow> callers s ! i = Before_lock sts e \<Longrightarrow> mutex_free s \<Longrightarrow>
    callers_step allowed s (s\<lparr>mutex_free := False, callers := (callers s)[i := Holding sts e]\<rparr>)"
| locked: "i < length (callers s) \<Longrightarrow> callers s ! i = Holding (st # sts) e \<Longrightarrow>
    callers_step allowed s (makes_step i st (Holding sts e) s)"
| unlock: "i < length (callers s) \<Longrightarrow> callers s ! i = Holding [] e \<Longrightarrow>
    callers_step allowed s (s\<lparr>mutex_free := \<not> e, callers := (callers s)[i := Unlocked []]\<rparr>)"
| unlocked: "i < length (callers s) \<Longrightarrow> callers s ! i = Unlocked (st # sts) \<Longrightarrow>
    callers_step allowed s (makes_step i st (Unlocked sts) s)"

inductive callers_run :: "machine_call set \<Rightarrow> machine \<Rightarrow> callers \<Rightarrow> bool" for allowed m where
  no_calls: "callers_run allowed m (callers_init m)"
| some_step: "callers_run allowed m s \<Longrightarrow> callers_step allowed s t \<Longrightarrow> callers_run allowed m t"

text \<open>The calls that can stop the machine without the mutex, other than the emergency restart.\<close>

fun unprotected :: "machine_call \<Rightarrow> bool" where
  "unprotected Deferred_cad = True"
| "unprotected (Orderly_poweroff E force) = (force \<and> fst (orderly_poweroff E force) \<noteq> 0)"
| "unprotected c = False"

section \<open>The order of a shutdown\<close>

text \<open>
  The stages before the machine may be stopped: notifiers, no more user mode helpers, devices down,
  no more hotplug, on the boot processor, system core down. Everything else may happen at any time.
\<close>

fun stage :: "action \<Rightarrow> nat option \<Rightarrow> nat option" where
  "stage _ None = None"
| "stage (Notify st c) (Some n) = (if n = 0 then Some 1 else None)"
| "stage Usermodehelper_disable (Some n) = (if n = 1 then Some 2 else None)"
| "stage Device_shutdown (Some n) = (if n = 2 then Some 3 else None)"
| "stage Cpu_hotplug_disable (Some n) = (if n = 3 then Some 4 else None)"
| "stage (Migrate c) (Some n) = (if n = 4 then Some 5 else None)"
| "stage Syscore_shutdown (Some n) = (if n = 5 then Some 6 else None)"
| "stage (Machine_restart c) (Some n) = (if n = 6 then Some 0 else None)"
| "stage Machine_halt (Some n) = (if n = 6 then Some 0 else None)"
| "stage Machine_power_off (Some n) = (if n = 6 then Some 0 else None)"
| "stage _ (Some n) = Some n"

definition stops :: "action set" where
  "stops = {Machine_halt, Machine_power_off} \<union> range Machine_restart"

text \<open>What a step does to the stage, whatever the machine is.\<close>

fun step_stage :: "step \<Rightarrow> nat option \<Rightarrow> nat option" where
  "step_stage (Do a) n = stage a n"
| "step_stage Set_cpus_allowed n = stage (Migrate 0) n"
| "step_stage _ n = n"

lemma stage_emits [simp]: "fold stage (emits st s) n = step_stage st n"
  by (cases st; cases n) auto

lemma stage_None [simp]: "fold stage as None = None"
  by (induction as) auto

lemma step_stage_None [simp]: "step_stage st None = None"
  by (cases st) auto

lemma steps_stage_None [simp]: "fold step_stage sts None = None"
  by (induction sts) auto

lemma act_fields [simp]:
  "C_A_D (act a s) = C_A_D s" "pm_power_off (act a s) = pm_power_off s" "system_state (act a s) = system_state s"
  "actions (act a s) = actions s @ [a]"
  by (simp_all add: act_def)

lemma exec_actions [simp]: "actions (exec st s) = actions s @ emits st s"
  by (simp add: exec_def)

lemma run_steps_stage: "fold stage (actions (run_steps sts s)) n = fold step_stage sts (fold stage (actions s) n)"
  unfolding run_steps_def by (induction sts arbitrary: s) simp_all

lemmas shutdown_defs = kernel_restart_def kernel_halt_def kernel_power_off_def kernel_restart_prepare_def
  kernel_shutdown_prepare_def migrate_to_reboot_cpu_def

lemma shutdown_stages [simp]:
  "fold step_stage (kernel_restart cmd) (Some 0) = Some 0" "fold step_stage kernel_halt (Some 0) = Some 0"
  "fold step_stage kernel_power_off (Some 0) = Some 0"
  by (simp_all add: shutdown_defs)

lemma reboot_steps_stage:
  assumes "reboot_steps E m1 m2 cmd s = (ret, Some sts)"
  shows "fold step_stage sts (Some 0) = Some 0"
  using assms by (auto simp: reboot_steps_def Let_def split: if_splits option.splits)

lemma orderly_stage: "fold step_stage (snd (orderly_poweroff E force)) (Some 0) = Some 0"
  by (simp add: orderly_poweroff_def Let_def)

lemma emergency_stage [simp]: "stage (Dump d) n = n" "stage Machine_emergency_restart n = n"
  "stage Schedule_cad n = n" "stage Kill_cad_pid n = n" "stage (Print p) n = n"
  by (cases n; simp)+

text \<open>The steps a caller has still to make.\<close>

fun steps_of :: "caller \<Rightarrow> step list" where
  "steps_of (Before_lock sts e) = sts"
| "steps_of (Holding sts e) = sts"
| "steps_of (Unlocked sts) = sts"

lemma starts_stage: "fold step_stage (steps_of (starts c s)) (Some 0) = Some 0"
  by (cases c)
    (auto simp: deferred_cad_def emergency_restart_def orderly_stage reboot_steps_stage split: prod.split option.split)

text \<open>The actions of one caller.\<close>

definition own :: "nat \<Rightarrow> (nat \<times> action) list \<Rightarrow> action list" where
  "own i tr = map snd (filter (\<lambda>(j, a). j = i) tr)"

lemma own_append [simp]: "own i (tr @ tr') = own i tr @ own i tr'"
  by (simp add: own_def)

lemma own_pairs [simp]: "own i (map (Pair j) as) = (if i = j then as else [])"
  by (induction as) (auto simp: own_def)

lemma own_Cons [simp]: "own i ((j, a) # tr) = (if j = i then a # own i tr else own i tr)"
  by (simp add: own_def)

definition own_inv :: "callers \<Rightarrow> bool" where
  "own_inv s \<longleftrightarrow> map snd (trace s) = actions (machine_of s) \<and>
     (\<forall>i. i < length (callers s) \<longrightarrow>
        fold step_stage (steps_of (callers s ! i)) (fold stage (own i (trace s)) (Some 0)) = Some 0) \<and>
     (\<forall>i. length (callers s) \<le> i \<longrightarrow> own i (trace s) = [])"

lemma own_inv_step:
  assumes "own_inv s" "callers_step allowed s t"
  shows "own_inv t"
  using assms(2)
proof cases
  case (new_call c)
  then show ?thesis using assms(1) starts_stage [of c]
    by (auto simp: own_inv_def nth_append less_Suc_eq)
next
  case (lock i sts e)
  then show ?thesis using assms(1) by (fastforce simp: own_inv_def nth_list_update)
next
  case (locked i st sts e)
  then show ?thesis using assms(1)
    by (fastforce simp: own_inv_def makes_step_def nth_list_update comp_def)
next
  case (unlock i e)
  then show ?thesis using assms(1) by (fastforce simp: own_inv_def nth_list_update)
next
  case (unlocked i st sts)
  then show ?thesis using assms(1)
    by (fastforce simp: own_inv_def makes_step_def nth_list_update comp_def)
qed

lemma own_inv_run:
  assumes "callers_run allowed m s" "actions m = []"
  shows "own_inv s"
  using assms(1)
proof induction
  case no_calls
  show ?case using assms(2) by (simp add: own_inv_def callers_init_def own_def)
next
  case (some_step s t)
  then show ?case using own_inv_step by blast
qed

text \<open>
  Without unprotected calls: those outside the mutex do nothing to the stage, and there is at most one
  caller inside, without whom nothing has been begun.
\<close>

fun quiet :: "caller \<Rightarrow> bool" where
  "quiet (Before_lock sts e) = (fold step_stage sts (Some 0) = Some 0)"
| "quiet (Holding sts e) = True"
| "quiet (Unlocked sts) = (\<forall>st\<in>set sts. \<forall>n. step_stage st n = n)"

fun is_holding :: "caller \<Rightarrow> bool" where
  "is_holding (Holding sts e) = True"
| "is_holding c = False"

definition lock_inv :: "callers \<Rightarrow> bool" where
  "lock_inv s \<longleftrightarrow> (\<forall>c\<in>set (callers s). quiet c) \<and>
     (let n = fold stage (actions (machine_of s)) (Some 0) in
      (\<forall>j<length (callers s). \<not> is_holding (callers s ! j)) \<and> n = Some 0 \<or>
      (\<exists>i sts e. i < length (callers s) \<and> callers s ! i = Holding sts e \<and> \<not> mutex_free s \<and>
         fold step_stage sts n = Some 0 \<and>
         (\<forall>j<length (callers s). is_holding (callers s ! j) \<longrightarrow> j = i)))"

lemma starts_quiet:
  assumes "\<not> unprotected c"
  shows "quiet (starts c s)" "\<not> is_holding (starts c s)"
proof -
  have "quiet (starts c s) \<and> \<not> is_holding (starts c s)"
  proof (cases c)
    case (Reboot E m1 m2 cmd)
    then show ?thesis
      using reboot_steps_stage [of E m1 m2 cmd s] by (auto split: prod.split option.split)
  next
    case (Orderly_poweroff E force)
    then have "\<not> (fst (orderly_poweroff E force) \<noteq> 0 \<and> force)" using assms by (cases force) auto
    then have "snd (orderly_poweroff E force) = [] \<or> (\<exists>p. snd (orderly_poweroff E force) = [Do (Print p)])"
      unfolding orderly_poweroff_def Let_def by auto
    then show ?thesis using Orderly_poweroff by auto
  next
    case Deferred_cad
    with assms show ?thesis by simp
  qed (simp_all add: emergency_restart_def)
  then show "quiet (starts c s)" "\<not> is_holding (starts c s)" by simp_all
qed

lemma quiet_update:
  "\<forall>c\<in>set cs. quiet c \<Longrightarrow> quiet c' \<Longrightarrow> \<forall>c\<in>set (cs[i := c']). quiet c"
  using set_update_subset_insert [of cs i c'] by blast

lemma lock_inv_free_step:
  assumes "lock_inv s" "i < length (callers s)" "callers s ! i = Unlocked (st # sts)"
  shows "lock_inv (makes_step i st (Unlocked sts) s)"
proof -
  let ?t = "makes_step i st (Unlocked sts) s"
  have q: "\<forall>c\<in>set (callers s). quiet c" using assms(1) by (simp add: lock_inv_def)
  have "quiet (callers s ! i)" using q assms(2) by simp
  then have st: "step_stage st n = n" "quiet (Unlocked sts)" for n using assms(3) by auto
  have n: "fold stage (actions (machine_of ?t)) (Some 0) = fold stage (actions (machine_of s)) (Some 0)"
    using st by (simp add: makes_step_def)
  have c: "callers ?t = (callers s)[i := Unlocked sts]" "mutex_free ?t = mutex_free s"
    by (simp_all add: makes_step_def)
  have h: "is_holding (callers ?t ! j) = is_holding (callers s ! j)" if "j < length (callers s)" for j
    using that assms(2,3) c by (cases "j = i") simp_all
  have h': "callers s ! j = Holding xs e \<Longrightarrow> callers ?t ! j = Holding xs e" for j xs e
    using assms(2,3) c by (cases "j = i") simp_all
  have len: "length (callers ?t) = length (callers s)" using c by simp
  have "\<forall>c\<in>set (callers ?t). quiet c" using quiet_update [OF q st(2)] c by simp
  moreover from assms(1) [unfolded lock_inv_def Let_def]
  consider "\<forall>j<length (callers s). \<not> is_holding (callers s ! j)"
      "fold stage (actions (machine_of s)) (Some 0) = Some 0"
    | k xs e where "k < length (callers s)" "callers s ! k = Holding xs e" "\<not> mutex_free s"
      "fold step_stage xs (fold stage (actions (machine_of s)) (Some 0)) = Some 0"
      "\<forall>j<length (callers s). is_holding (callers s ! j) \<longrightarrow> j = k" by blast
  then have "(\<forall>j<length (callers ?t). \<not> is_holding (callers ?t ! j)) \<and>
      fold stage (actions (machine_of s)) (Some 0) = Some 0 \<or>
      (\<exists>k xs e. k < length (callers ?t) \<and> callers ?t ! k = Holding xs e \<and> \<not> mutex_free ?t \<and>
         fold step_stage xs (fold stage (actions (machine_of s)) (Some 0)) = Some 0 \<and>
         (\<forall>j<length (callers ?t). is_holding (callers ?t ! j) \<longrightarrow> j = k))"
  proof cases
    case 1
    then show ?thesis using h len by metis
  next
    case (2 k xs e)
    have "k < length (callers ?t)" "callers ?t ! k = Holding xs e" "\<not> mutex_free ?t"
      using 2(1,3) h' [OF 2(2)] len c(2) by simp_all
    moreover have "\<forall>j<length (callers ?t). is_holding (callers ?t ! j) \<longrightarrow> j = k" using 2(5) h len by metis
    ultimately show ?thesis using 2(4) by blast
  qed
  ultimately show ?thesis unfolding lock_inv_def Let_def n by blast
qed

lemma lock_inv_step:
  assumes "lock_inv s" "callers_step allowed s t" "\<forall>c\<in>allowed. \<not> unprotected c"
  shows "lock_inv t"
proof -
  let ?n = "fold stage (actions (machine_of s)) (Some 0)"
  have q: "\<forall>c\<in>set (callers s). quiet c" using assms(1) by (simp add: lock_inv_def)
  have inside: "\<not> mutex_free s \<and> fold step_stage sts ?n = Some 0 \<and>
      (\<forall>j<length (callers s). is_holding (callers s ! j) \<longrightarrow> j = i)"
    if "i < length (callers s)" "callers s ! i = Holding sts e" for i sts e
    using assms(1) that unfolding lock_inv_def Let_def by (metis caller.inject(2) is_holding.simps(1))
  from assms(2) show ?thesis
  proof cases
    case (new_call c)
    have c: "quiet (starts c (machine_of s))" "\<not> is_holding (starts c (machine_of s))"
      using starts_quiet assms(3) new_call(2) by blast+
    then show ?thesis
      using assms(1) unfolding new_call(1) lock_inv_def Let_def
      by (auto simp: nth_append less_Suc_eq intro: exI)
  next
    case (lock i sts e)
    have "fold step_stage sts (Some 0) = Some 0" using q lock(2,3) by (metis nth_mem quiet.simps(1))
    moreover have "\<forall>j<length (callers s). \<not> is_holding (callers s ! j)" "?n = Some 0"
      using assms(1) lock(4) unfolding lock_inv_def Let_def by blast+
    ultimately show ?thesis
      using quiet_update [OF q, of "Holding sts e" i] lock(2)
      unfolding lock(1) lock_inv_def Let_def by (auto simp: nth_list_update)
  next
    case (locked i st sts e)
    note I = inside [OF locked(2,3)]
    show ?thesis
      using quiet_update [OF q, of "Holding sts e" i] I locked(2)
      unfolding locked(1) lock_inv_def Let_def makes_step_def by (auto simp: nth_list_update)
  next
    case (unlock i e)
    note I = inside [OF unlock(2,3)]
    show ?thesis
      using quiet_update [OF q, of "Unlocked []" i] I unlock(2)
      unfolding unlock(1) lock_inv_def Let_def by (auto simp: nth_list_update)
  next
    case (unlocked i st sts)
    then show ?thesis using lock_inv_free_step [OF assms(1)] by simp
  qed
qed

lemma lock_inv_run:
  assumes "callers_run allowed m s" "actions m = []" "\<forall>c\<in>allowed. \<not> unprotected c"
  shows "lock_inv s"
  using assms(1)
proof induction
  case no_calls
  show ?case using assms(2) by (simp add: lock_inv_def callers_init_def)
next
  case (some_step s t)
  then show ?case using lock_inv_step assms(3) by blast
qed

lemma lock_inv_stage:
  assumes "lock_inv s"
  shows "fold stage (actions (machine_of s)) (Some 0) \<noteq> None"
proof
  assume "fold stage (actions (machine_of s)) (Some 0) = None"
  then show False using assms by (auto simp: lock_inv_def Let_def)
qed

text \<open>Before a stop the stage is 6, if the whole gets through.\<close>

lemma stage_stops:
  assumes "fold stage (as @ x # bs) n0 \<noteq> None" "x \<in> stops"
  shows "fold stage as n0 = Some 6"
proof -
  have "stage x (fold stage as n0) \<noteq> None"
  proof
    assume "stage x (fold stage as n0) = None"
    then show False using assms(1) by simp
  qed
  then show ?thesis
    using assms(2) by (cases "fold stage as n0") (auto simp: stops_def split: if_splits)
qed

text \<open>Calls made one after the other.\<close>

fun machine_do :: "machine_call \<Rightarrow> machine \<Rightarrow> machine" where
  "machine_do (Reboot E m1 m2 cmd) s = snd (reboot E m1 m2 cmd s)"
| "machine_do Ctrl_alt_del s = ctrl_alt_del s"
| "machine_do Deferred_cad s = run_steps deferred_cad s"
| "machine_do (Orderly_poweroff E force) s = run_steps (snd (orderly_poweroff E force)) s"
| "machine_do Emergency_restart s = run_steps emergency_restart s"

lemma machine_do_steps: "machine_do c s = run_steps (steps_of (starts c s)) s"
  by (cases c) (auto simp: reboot_def ctrl_alt_del_def run_steps_def exec_def act_def split: prod.split option.split)

interpretation machine_calls: invariant_calls machine_do "\<lambda>s. fold stage (actions s) (Some 0) = Some 0"
  by unfold_locales (simp add: machine_do_steps run_steps_stage starts_stage)

text \<open>A caller that is inside, or does not need to be, can make all its steps.\<close>

lemma all_steps:
  assumes "callers_run allowed m s" "i < length (callers s)"
    "callers s ! i = Holding sts e \<or> callers s ! i = Unlocked sts"
  shows "\<exists>t. callers_run allowed m t \<and> machine_of t = run_steps sts (machine_of s)"
  using assms
proof (induction sts arbitrary: s)
  case Nil
  then show ?case by (auto simp: run_steps_def)
next
  case (Cons st sts)
  obtain c where c: "c = Holding sts e \<or> c = Unlocked sts"
    "callers_run allowed m (makes_step i st c s)"
  proof (rule disjE [OF Cons.prems(3)])
    assume h: "callers s ! i = Holding (st # sts) e"
    show thesis by (rule that [OF _ some_step [OF Cons.prems(1) locked [OF Cons.prems(2) h]]]) simp
  next
    assume h: "callers s ! i = Unlocked (st # sts)"
    show thesis by (rule that [OF _ some_step [OF Cons.prems(1) unlocked [OF Cons.prems(2) h]]]) simp
  qed
  have s': "i < length (callers (makes_step i st c s))"
    "callers (makes_step i st c s) ! i = Holding sts e \<or> callers (makes_step i st c s) ! i = Unlocked sts"
    "machine_of (makes_step i st c s) = exec st (machine_of s)"
    using c(1) Cons.prems(2) by (simp_all add: makes_step_def)
  from Cons.IH [OF c(2) s'(1,2)] show ?case unfolding s'(3) by (simp add: run_steps_def)
qed

text \<open>A call of \<open>reboot\<close> made while the mutex is free, up to its last step.\<close>

lemma reboot_runs:
  assumes "callers_run allowed m s" "Reboot E m1 m2 cmd \<in> allowed" "mutex_free s"
    and "reboot_steps E m1 m2 cmd (machine_of s) = (ret, Some sts)"
  shows "\<exists>t. callers_run allowed m t \<and> machine_of t = run_steps sts (machine_of s)"
proof -
  let ?i = "length (callers s)" and ?s1 = "s\<lparr>callers := callers s @ [Before_lock sts (ret = None)]\<rparr>"
  let ?s2 = "?s1\<lparr>mutex_free := False, callers := (callers ?s1)[?i := Holding sts (ret = None)]\<rparr>"
  have r1: "callers_run allowed m ?s1"
    using some_step [OF assms(1) new_call [OF assms(2)]] assms(4) by simp
  have "callers_run allowed m ?s2"
    by (rule some_step [OF r1 lock]) (simp_all add: assms(3))
  from all_steps [OF this, of ?i sts "ret = None"] show ?thesis by simp
qed

section \<open>Properties\<close>

text \<open>
  C26. The machine is stopped in order. Whatever calls are made, at the same time or not, by a halt, power off or
  restart (but the emergency one) a caller ends exactly one full shutdown of its own: notifiers, user mode
  helpers, devices, hotplug, migration to the boot processor, system core, each once and in this
  order since its last stop. As long as \<open>reboot\<close> is the only call that stops the machine, because of its mutex,
  this is also the order in which all callers together act; so it is, without any mutex, for calls that do
  not overlap. (\<open>deferred_cad\<close> and a forced \<open>orderly_poweroff\<close> do not take the mutex:
  \<open>unprotected_restart_mixes\<close> below is a run in which a restart follows two shutdowns, mixed.)
\<close>

theorem shutdown_in_order:
  assumes "callers_run allowed m s" "actions m = []"
  shows "map snd (trace s) = actions (machine_of s) \<and>
    (\<forall>as i x bs. trace s = as @ (i, x) # bs \<longrightarrow> x \<in> stops \<longrightarrow> fold stage (own i as) (Some 0) = Some 6) \<and>
    ((\<forall>c\<in>allowed. \<not> unprotected c) \<longrightarrow>
       (\<forall>as x bs. actions (machine_of s) = as @ x # bs \<longrightarrow> x \<in> stops \<longrightarrow> fold stage as (Some 0) = Some 6)) \<and>
    (\<forall>calls as x bs. actions (fold machine_do calls m) = as @ x # bs \<longrightarrow> x \<in> stops \<longrightarrow>
       fold stage as (Some 0) = Some 6)"
proof (intro conjI allI impI)
  note own = own_inv_run [OF assms]
  show "map snd (trace s) = actions (machine_of s)" using own by (simp add: own_inv_def)
  show "fold stage (own i as) (Some 0) = Some 6" if t: "trace s = as @ (i, x) # bs" "x \<in> stops" for as i x bs
  proof (rule stage_stops [OF _ t(2)])
    have e: "own i (trace s) = own i as @ x # own i bs" using t(1) by simp
    then have "i < length (callers s)" using own unfolding own_inv_def by (metis Nil_is_append_conv
          list.distinct(1) not_le_imp_less)
    then have f: "fold step_stage (steps_of (callers s ! i)) (fold stage (own i as @ x # own i bs) (Some 0)) = Some 0"
      using own unfolding own_inv_def e [symmetric] by blast
    show "fold stage (own i as @ x # own i bs) (Some 0) \<noteq> None"
    proof
      assume "fold stage (own i as @ x # own i bs) (Some 0) = None"
      then show False using f by simp
    qed
  qed
  show "fold stage as (Some 0) = Some 6"
    if "\<forall>c\<in>allowed. \<not> unprotected c" "actions (machine_of s) = as @ x # bs" "x \<in> stops" for as x bs
  proof (rule stage_stops [OF _ that(3)])
    show "fold stage (as @ x # bs) (Some 0) \<noteq> None"
      using lock_inv_stage [OF lock_inv_run [OF assms that(1)]] that(2) by simp
  qed
  show "fold stage as (Some 0) = Some 6"
    if "actions (fold machine_do calls m) = as @ x # bs" "x \<in> stops" for calls as x bs
    using stage_stops [OF _ that(2), of as bs "Some 0"] machine_calls.inv_calls [of m calls] assms(2) that(1)
    by simp
qed

text \<open>The outcomes of \<open>reboot\<close> past its checks; \<open>c\<close> is the command the switch sees.\<close>

lemma run_steps_nil [simp]: "run_steps [] s = s"
  by (simp add: run_steps_def)

lemma assigns_C_A_D: "(\<forall>v. st \<noteq> Set_C_A_D v) \<Longrightarrow> C_A_D (exec st s) = C_A_D s"
  by (cases st) (simp_all add: exec_def)

lemma shutdown_C_A_D [simp]: "C_A_D (run_steps (kernel_restart cmd) s) = C_A_D s"
  by (simp add: run_steps_def shutdown_defs assigns_C_A_D)

lemma last_exit: "List.last (actions (run_steps (sts @ [Do Do_exit]) s)) = Do_exit"
  by (simp add: run_steps_def)

lemma reboot_cases:
  assumes "reboot E magic1 magic2 cmd s = (ret, s')" "pid_ns E cmd = 0"
    and "cap_boot E" "magic1 = MAGIC1" "magic2 \<in> set MAGIC2s"
  obtains (restart) arg where "cmd \<noteq> CMD_CAD_ON" "cmd \<noteq> CMD_CAD_OFF" "ret = Some 0"
      "s' = run_steps (kernel_restart arg) s"
    | (cad_on) "cmd = CMD_CAD_ON" "ret = Some 0" "s' = run_steps [Set_C_A_D 1] s"
    | (cad_off) "cmd = CMD_CAD_OFF" "ret = Some 0" "s' = run_steps [Set_C_A_D 0] s"
    | (halt) "cmd \<in> {CMD_HALT, CMD_POWER_OFF}" "ret = None" "List.last (actions s') = Do_exit"
    | (fails) "ret = Some (- EFAULT) \<or> ret = Some (- EINVAL)" "s' = s"
proof -
  define c where "c = (if cmd = CMD_POWER_OFF \<and> \<not> pm_power_off s then CMD_HALT else cmd)"
  have sts: "reboot_steps E magic1 magic2 cmd s = (if c = CMD_RESTART then (Some 0, Some (kernel_restart None))
      else if c = CMD_CAD_ON then (Some 0, Some [Set_C_A_D 1])
      else if c = CMD_CAD_OFF then (Some 0, Some [Set_C_A_D 0])
      else if c = CMD_HALT then (None, Some (kernel_halt @ [Do Do_exit]))
      else if c = CMD_POWER_OFF then (None, Some (kernel_power_off @ [Do Do_exit]))
      else if c = CMD_RESTART2 then
        (case user_string E of
           None \<Rightarrow> (Some (- EFAULT), Some [])
         | Some str \<Rightarrow> (Some 0, Some (kernel_restart (Some (take 255 (c_str str))))))
      else (Some (- EINVAL), Some []))"
    using assms(2-5) unfolding reboot_steps_def Let_def c_def by (simp only: simp_thms if_True if_False refl)
  have r: "(ret, s') = (case (if c = CMD_RESTART then (Some 0, Some (kernel_restart None))
      else if c = CMD_CAD_ON then (Some 0, Some [Set_C_A_D 1])
      else if c = CMD_CAD_OFF then (Some 0, Some [Set_C_A_D 0])
      else if c = CMD_HALT then (None, Some (kernel_halt @ [Do Do_exit]))
      else if c = CMD_POWER_OFF then (None, Some (kernel_power_off @ [Do Do_exit]))
      else if c = CMD_RESTART2 then
        (case user_string E of
           None \<Rightarrow> (Some (- EFAULT), Some [])
         | Some str \<Rightarrow> (Some 0, Some (kernel_restart (Some (take 255 (c_str str))))))
      else (Some (- EINVAL), Some [])) of (ret, None) \<Rightarrow> (ret, s) | (ret, Some sts) \<Rightarrow> (ret, run_steps sts s))"
    using assms(1) unfolding reboot_def sts by simp
  have c: "c = CMD_CAD_ON \<longleftrightarrow> cmd = CMD_CAD_ON" "c = CMD_CAD_OFF \<longleftrightarrow> cmd = CMD_CAD_OFF"
    "c = CMD_HALT \<or> c = CMD_POWER_OFF \<longleftrightarrow> cmd \<in> {CMD_HALT, CMD_POWER_OFF}"
    by (auto simp: c_def cmds)
  have ne: "CMD_RESTART \<noteq> CMD_CAD_ON" "CMD_RESTART \<noteq> CMD_CAD_OFF"
    "CMD_RESTART2 \<noteq> CMD_CAD_ON" "CMD_RESTART2 \<noteq> CMD_CAD_OFF" by (simp_all add: cmds)
  show thesis
    using r c ne that last_exit by (auto split: if_splits option.splits)
qed

lemma reboot_refused:
  "\<not> cap_boot E \<Longrightarrow> reboot E magic1 magic2 cmd s = (Some (- EPERM), s)"
  "cap_boot E \<Longrightarrow> magic1 \<noteq> MAGIC1 \<or> magic2 \<notin> set MAGIC2s \<Longrightarrow>
     reboot E magic1 magic2 cmd s = (Some (- EINVAL), s)"
  by (auto simp: reboot_def reboot_steps_def)

text \<open>
  C27. Only a privileged call with the magic numbers does anything: without the capability \<open>reboot\<close>
  returns \<open>-EPERM\<close>, with a wrong magic number \<open>-EINVAL\<close>, and every error but those of
  \<open>reboot_pid_ns\<close> leaves the machine as it was; and \<open>ctrl_alt_del\<close> schedules a restart exactly when the last
  successful CAD command switched it on.
\<close>

theorem reboot_guarded:
  assumes "reboot E magic1 magic2 cmd s = (ret, s')" "pid_ns E cmd = 0"
  shows "(\<not> cap_boot E \<longrightarrow> ret = Some (- EPERM)) \<and>
    (cap_boot E \<longrightarrow> magic1 \<noteq> MAGIC1 \<or> magic2 \<notin> set MAGIC2s \<longrightarrow> ret = Some (- EINVAL)) \<and>
    (ret \<noteq> Some 0 \<longrightarrow> ret \<noteq> None \<longrightarrow> s' = s) \<and>
    (ret = None \<longrightarrow> cap_boot E \<and> cmd \<in> {CMD_HALT, CMD_POWER_OFF} \<and> List.last (actions s') = Do_exit) \<and>
    (ret = Some 0 \<longrightarrow> cap_boot E \<and>
       actions (ctrl_alt_del s') = actions s' @
         [if cmd = CMD_CAD_ON \<or> cmd \<noteq> CMD_CAD_OFF \<and> C_A_D s \<noteq> 0 then Schedule_cad else Kill_cad_pid])"
proof -
  consider (perm) "\<not> cap_boot E" | (magic) "cap_boot E" "magic1 \<noteq> MAGIC1 \<or> magic2 \<notin> set MAGIC2s"
    | (ok) "cap_boot E" "magic1 = MAGIC1" "magic2 \<in> set MAGIC2s" by blast
  then show ?thesis
  proof cases
    case ok
    then show ?thesis
      using assms by (elim reboot_cases) (auto simp: ctrl_alt_del_def errnos CMD_CAD_ON_def CMD_CAD_OFF_def
        run_steps_def [of "[_]"] exec_def)
  qed (use assms reboot_refused in \<open>auto simp: errnos\<close>)
qed

section \<open>Witnesses\<close>

definition demo_machine :: machine where
  "demo_machine = \<lparr>C_A_D = 1, system_state = RUNNING, pm_power_off = False,
     pm_power_off_prepare = False, cpu_online = (\<lambda>c. c = 0), first_online = 0, no_setaffinity = False,
     actions = []\<rparr>"

definition demo_reboot_env :: reboot_env where
  "demo_reboot_env = \<lparr>cap_boot = True, pid_ns = (\<lambda>_. 0), user_string = Some ''recovery''\<rparr>"

definition demo_call :: "32 word \<Rightarrow> machine_call" where
  "demo_call cmd = Reboot demo_reboot_env MAGIC1 672274793 cmd"

lemma demo_steps:
  "reboot_steps demo_reboot_env MAGIC1 672274793 CMD_POWER_OFF (machine_of (callers_init demo_machine)) =
     (None, Some (kernel_halt @ [Do Do_exit]))"
  "reboot_steps demo_reboot_env MAGIC1 672274793 CMD_RESTART s = (Some 0, Some (kernel_restart None))"
  by (simp_all add: reboot_steps_def MAGIC2s_def demo_machine_def demo_reboot_env_def cmds callers_init_def)

lemma demo_no_actions: "actions demo_machine = []"
  by (simp add: demo_machine_def)

corollary shutdown_in_order_witness:
  "\<exists>s as. callers_run {demo_call CMD_POWER_OFF} demo_machine s \<and>
     actions (machine_of s) = as @ [Machine_halt, Do_exit] \<and> fold stage as (Some 0) = Some 6"
proof -
  obtain s where s: "callers_run {demo_call CMD_POWER_OFF} demo_machine s"
    "machine_of s = run_steps (kernel_halt @ [Do Do_exit]) demo_machine"
    using reboot_runs [OF no_calls _ _ demo_steps(1), of "{demo_call CMD_POWER_OFF}"]
    by (auto simp: demo_call_def callers_init_def)
  have "\<exists>as. actions (machine_of s) = as @ Machine_halt # [Do_exit]"
    unfolding s(2) by (simp add: shutdown_defs run_steps_def demo_machine_def)
  then obtain as where as: "actions (machine_of s) = as @ Machine_halt # [Do_exit]" ..
  have "\<forall>c\<in>{demo_call CMD_POWER_OFF}. \<not> unprotected c" by (simp add: demo_call_def)
  then have "fold stage as (Some 0) = Some 6"
    using shutdown_in_order [OF s(1) demo_no_actions] as by (auto simp: stops_def)
  then show ?thesis using s(1) as by auto
qed

text \<open>A restart by \<open>ctrl_alt_del\<close> that begins before one by \<open>reboot\<close> and is overtaken by it.\<close>

theorem unprotected_restart_mixes:
  "\<exists>s as. callers_run {Deferred_cad, demo_call CMD_RESTART} demo_machine s \<and>
     actions (machine_of s) = as @ [Machine_restart None] \<and> fold stage as (Some 0) = None"
proof -
  let ?A = "{Deferred_cad, demo_call CMD_RESTART}"
  let ?st = "Do (Notify RESTART None)"
  obtain sts where d: "deferred_cad = ?st # sts" by (simp add: deferred_cad_def shutdown_defs)
  let ?s1 = "(callers_init demo_machine)\<lparr>callers := [Unlocked (?st # sts)]\<rparr>"
  have r1: "callers_run ?A demo_machine ?s1"
    using some_step [OF no_calls new_call [of Deferred_cad ?A "callers_init demo_machine"]] d
    by (simp add: callers_init_def)
  let ?s2 = "makes_step 0 ?st (Unlocked sts) ?s1"
  have r2: "callers_run ?A demo_machine ?s2" by (rule some_step [OF r1 unlocked]) simp_all
  have free: "mutex_free ?s2" "demo_call CMD_RESTART \<in> ?A" by (simp_all add: makes_step_def callers_init_def)
  obtain s where s: "callers_run ?A demo_machine s" "machine_of s = run_steps (kernel_restart None) (machine_of ?s2)"
    using reboot_runs [OF r2 _ free(1) demo_steps(2)] free(2) by (auto simp: demo_call_def)
  have a: "actions (machine_of ?s2) = [Notify RESTART None]"
    by (simp add: makes_step_def callers_init_def demo_no_actions)
  define as where "as = butlast (actions (machine_of s))"
  have "actions (machine_of s) = as @ [Machine_restart None]" "fold stage as (Some 0) = None"
    unfolding as_def s(2) by (simp_all add: shutdown_defs run_steps_def a butlast_append)
  then show ?thesis using s(1) by blast
qed

corollary reboot_guarded_witness:
  "actions (ctrl_alt_del (snd (reboot demo_reboot_env MAGIC1 85072278 CMD_CAD_OFF demo_machine))) = [Kill_cad_pid]"
proof -
  have r: "reboot demo_reboot_env MAGIC1 85072278 CMD_CAD_OFF demo_machine = (Some 0, demo_machine\<lparr>C_A_D := 0\<rparr>)"
    by (simp add: reboot_def reboot_steps_def MAGIC2s_def demo_reboot_env_def cmds run_steps_def exec_def)
  have "pid_ns demo_reboot_env CMD_CAD_OFF = 0" by (simp add: demo_reboot_env_def)
  from reboot_guarded [OF r this] show ?thesis unfolding r by (simp add: cmds demo_machine_def)
qed

end
