(* ===== verification/Prctl.thy ===== *)
theory Prctl
  imports Calls CString "HOL-Library.Word"
begin

text \<open>
  \<open>prctl\<close> of \<open>preproj2/sys.c\<close>, with every option of its switch. The options the architecture, the
  scheduler or seccomp implement are one parameter, \<open>elsewhere\<close>, and what they change is no part of the
  state here. The security hook and the copies from and to the user are parameters as well; a call
  the hook answers goes no further, and what the hook itself changes, the securebits of the credentials, is not part of it either. The arguments are \<open>unsigned long\<close>, 32 bits on the i686.
\<close>

section \<open>Data\<close>

datatype pr_option =
    PR_SET_PDEATHSIG | PR_GET_PDEATHSIG | PR_GET_DUMPABLE | PR_SET_DUMPABLE
  | PR_SET_UNALIGN | PR_GET_UNALIGN | PR_SET_FPEMU | PR_GET_FPEMU | PR_SET_FPEXC | PR_GET_FPEXC
  | PR_GET_TIMING | PR_SET_TIMING | PR_SET_NAME | PR_GET_NAME | PR_GET_ENDIAN | PR_SET_ENDIAN
  | PR_GET_SECCOMP | PR_SET_SECCOMP | PR_GET_TSC | PR_SET_TSC
  | PR_TASK_PERF_EVENTS_DISABLE | PR_TASK_PERF_EVENTS_ENABLE
  | PR_GET_TIMERSLACK | PR_SET_TIMERSLACK | PR_MCE_KILL | PR_MCE_KILL_GET
  | PR_SET_NO_NEW_PRIVS | PR_GET_NO_NEW_PRIVS | PR_UNKNOWN

record prtask =
  pdeath_signal :: "32 word"
  dumpable :: "32 word"
  comm :: string
  timer_slack_ns :: "32 word"
  default_timer_slack_ns :: "32 word"
  mce_process :: bool          \<comment> \<open>PF_MCE_PROCESS\<close>
  mce_early :: bool            \<comment> \<open>PF_MCE_EARLY\<close>
  no_new_privs :: bool

type_synonym word32 = "32 word"

record prctl_env =
  sec_prctl :: "pr_option \<Rightarrow> word32 \<Rightarrow> word32 \<Rightarrow> word32 \<Rightarrow> word32 \<Rightarrow> int"
  elsewhere :: "pr_option \<Rightarrow> word32 \<Rightarrow> word32 \<Rightarrow> int"
  user_name :: "word32 \<Rightarrow> string option"   \<comment> \<open>the string at an address, \<open>None\<close> when it cannot be read\<close>
  writable :: "word32 \<Rightarrow> bool"             \<comment> \<open>whether the user's address can be written\<close>

definition ENOSYS :: int where "ENOSYS = 38"
definition PR_TIMING_STATISTICAL :: word32 where "PR_TIMING_STATISTICAL = 0"
definition PR_MCE_KILL_CLEAR :: word32 where "PR_MCE_KILL_CLEAR = 0"
definition PR_MCE_KILL_SET :: word32 where "PR_MCE_KILL_SET = 1"
definition PR_MCE_KILL_LATE :: word32 where "PR_MCE_KILL_LATE = 0"
definition PR_MCE_KILL_EARLY :: word32 where "PR_MCE_KILL_EARLY = 1"
definition PR_MCE_KILL_DEFAULT :: word32 where "PR_MCE_KILL_DEFAULT = 2"

lemmas mce = PR_MCE_KILL_CLEAR_def PR_MCE_KILL_SET_def PR_MCE_KILL_LATE_def PR_MCE_KILL_EARLY_def
  PR_MCE_KILL_DEFAULT_def

definition TASK_COMM_LEN :: nat where "TASK_COMM_LEN = 16"

definition valid_signal :: "word32 \<Rightarrow> bool" where
  "valid_signal sig \<longleftrightarrow> sig \<le> 64"

text \<open>What a call may write to the user.\<close>

datatype pr_out = No_out | Out_word word32 | Out_name string

section \<open>The code\<close>

text \<open>The two parts of the switch that are nested.\<close>

definition prctl_mce_kill :: "word32 \<Rightarrow> word32 \<Rightarrow> word32 \<Rightarrow> word32 \<Rightarrow> prtask \<Rightarrow> int \<times> prtask" where
  "prctl_mce_kill arg2 arg3 arg4 arg5 me =
     (if or arg4 arg5 \<noteq> 0 then (- EINVAL, me)
      else if arg2 = PR_MCE_KILL_CLEAR then
        if arg3 \<noteq> 0 then (- EINVAL, me) else (0, me\<lparr>mce_process := False\<rparr>)
      else if arg2 = PR_MCE_KILL_SET then
        let me = me\<lparr>mce_process := True\<rparr> in
        if arg3 = PR_MCE_KILL_EARLY then (0, me\<lparr>mce_early := True\<rparr>)
        else if arg3 = PR_MCE_KILL_LATE then (0, me\<lparr>mce_early := False\<rparr>)
        else if arg3 = PR_MCE_KILL_DEFAULT then (0, me\<lparr>mce_early := False, mce_process := False\<rparr>)
        else (- EINVAL, me)
      else (- EINVAL, me))"

definition prctl_mce_kill_get :: "prtask \<Rightarrow> int" where
  "prctl_mce_kill_get me =
     (if mce_process me
      then uint (if mce_early me then PR_MCE_KILL_EARLY else PR_MCE_KILL_LATE)
      else uint PR_MCE_KILL_DEFAULT)"

definition prctl ::
  "prctl_env \<Rightarrow> pr_option \<Rightarrow> word32 \<Rightarrow> word32 \<Rightarrow> word32 \<Rightarrow> word32 \<Rightarrow> prtask \<Rightarrow> int \<times> prtask \<times> pr_out" where
  "prctl E option arg2 arg3 arg4 arg5 me =
     (let error = sec_prctl E option arg2 arg3 arg4 arg5 in
      if error \<noteq> - ENOSYS then (error, me, No_out)
      else case option of
        PR_SET_PDEATHSIG \<Rightarrow>
          if \<not> valid_signal arg2 then (- EINVAL, me, No_out)
          else (0, me\<lparr>pdeath_signal := arg2\<rparr>, No_out)
      | PR_GET_PDEATHSIG \<Rightarrow>
          if writable E arg2 then (0, me, Out_word (pdeath_signal me)) else (- EFAULT, me, No_out)
      | PR_GET_DUMPABLE \<Rightarrow> (uint (dumpable me), me, No_out)
      | PR_SET_DUMPABLE \<Rightarrow>
          if arg2 < 0 \<or> arg2 > 1 then (- EINVAL, me, No_out) else (0, me\<lparr>dumpable := arg2\<rparr>, No_out)
      | PR_GET_TIMING \<Rightarrow> (uint PR_TIMING_STATISTICAL, me, No_out)
      | PR_SET_TIMING \<Rightarrow>
          if arg2 \<noteq> PR_TIMING_STATISTICAL then (- EINVAL, me, No_out) else (0, me, No_out)
      | PR_SET_NAME \<Rightarrow>
          (case user_name E arg2 of
             None \<Rightarrow> (- EFAULT, me, No_out)
           | Some str \<Rightarrow> (0, me\<lparr>comm := take (TASK_COMM_LEN - 1) (c_str str)\<rparr>, No_out))
      | PR_GET_NAME \<Rightarrow> if writable E arg2 then (0, me, Out_name (comm me)) else (- EFAULT, me, No_out)
      | PR_GET_TIMERSLACK \<Rightarrow> (sint (timer_slack_ns me), me, No_out)
      | PR_SET_TIMERSLACK \<Rightarrow>
          (0, me\<lparr>timer_slack_ns := (if arg2 \<le> 0 then default_timer_slack_ns me else arg2)\<rparr>, No_out)
      | PR_MCE_KILL \<Rightarrow>
          let (error, me) = prctl_mce_kill arg2 arg3 arg4 arg5 me in (error, me, No_out)
      | PR_MCE_KILL_GET \<Rightarrow>
          if or arg2 (or arg3 (or arg4 arg5)) \<noteq> 0 then (- EINVAL, me, No_out)
          else (prctl_mce_kill_get me, me, No_out)
      | PR_SET_NO_NEW_PRIVS \<Rightarrow>
          if arg2 \<noteq> 1 \<or> arg3 \<noteq> 0 \<or> arg4 \<noteq> 0 \<or> arg5 \<noteq> 0 then (- EINVAL, me, No_out)
          else (0, me\<lparr>no_new_privs := True\<rparr>, No_out)
      | PR_GET_NO_NEW_PRIVS \<Rightarrow>
          if arg2 \<noteq> 0 \<or> arg3 \<noteq> 0 \<or> arg4 \<noteq> 0 \<or> arg5 \<noteq> 0 then (- EINVAL, me, No_out)
          else (if no_new_privs me then 1 else 0, me, No_out)
      | PR_UNKNOWN \<Rightarrow> (- EINVAL, me, No_out)
      | _ \<Rightarrow> (elsewhere E option arg2 arg3, me, No_out))"

section \<open>Sequences of calls\<close>

record pr_call =
  pr_env :: prctl_env
  pr_opt :: pr_option
  pr_arg2 :: word32
  pr_arg3 :: word32
  pr_arg4 :: word32
  pr_arg5 :: word32

definition pr_do :: "pr_call \<Rightarrow> prtask \<Rightarrow> prtask" where
  "pr_do c me = fst (snd (prctl (pr_env c) (pr_opt c) (pr_arg2 c) (pr_arg3 c) (pr_arg4 c) (pr_arg5 c) me))"

text \<open>What no call may do: give up \<open>no_new_privs\<close>, or leave a name or a flag out of range.\<close>

definition prtask_ok :: "prtask \<Rightarrow> bool" where
  "prtask_ok me \<longleftrightarrow> length (comm me) < TASK_COMM_LEN \<and> NUL \<notin> set (comm me) \<and> dumpable me \<le> 1 \<and>
     valid_signal (pdeath_signal me)"

lemma mce_kill_fields [simp]:
  "comm (snd (prctl_mce_kill a b c d me)) = comm me"
  "dumpable (snd (prctl_mce_kill a b c d me)) = dumpable me"
  "pdeath_signal (snd (prctl_mce_kill a b c d me)) = pdeath_signal me"
  "no_new_privs (snd (prctl_mce_kill a b c d me)) = no_new_privs me"
  by (simp_all add: prctl_mce_kill_def Let_def)

lemma NUL_take_c_str: "NUL \<notin> set (take n (c_str cs))"
  unfolding c_str_def by (auto dest!: in_set_takeD set_takeWhileD)

lemma prctl_ok:
  assumes "prtask_ok me"
  shows "prtask_ok (fst (snd (prctl E opt a b c d me)))"
  using assms NUL_take_c_str
  by (cases opt) (auto simp: prctl_def prtask_ok_def TASK_COMM_LEN_def Let_def split_beta split: option.split)

lemma prctl_no_new_privs:
  "no_new_privs me \<Longrightarrow> no_new_privs (fst (snd (prctl E opt a b c d me)))"
  by (cases opt) (auto simp: prctl_def Let_def split_beta split: option.split)

interpretation pr_range: invariant_calls pr_do prtask_ok
  by unfold_locales (simp add: pr_do_def prctl_ok)

interpretation pr_sticky: invariant_calls pr_do no_new_privs
  by unfold_locales (simp add: pr_do_def prctl_no_new_privs)

text \<open>A call that fails.\<close>

lemma prctl_failed:
  assumes "prctl E opt a b c d me = (r, me', w)" "r < 0"
  shows "me' = me \<or> opt = PR_MCE_KILL \<and> a = PR_MCE_KILL_SET \<and> me' = me\<lparr>mce_process := True\<rparr>"
  using assms
  by (cases opt)
    (auto simp: prctl_def prctl_mce_kill_def Let_def split_beta split: option.splits if_splits)

section \<open>Properties\<close>

lemma mce_kill_round_trip:
  "prctl_mce_kill PR_MCE_KILL_SET p 0 0 me = (0, me') \<Longrightarrow> prctl_mce_kill_get me' = uint p"
  by (auto simp: prctl_mce_kill_def prctl_mce_kill_get_def mce errnos Let_def split: if_splits)

text \<open>What the hook lets pass.\<close>

definition passes :: "prctl_env \<Rightarrow> pr_option \<Rightarrow> word32 \<Rightarrow> word32 \<Rightarrow> word32 \<Rightarrow> word32 \<Rightarrow> bool" where
  "passes E opt a b c d \<longleftrightarrow> sec_prctl E opt a b c d = - ENOSYS"

text \<open>
  C28. What \<open>prctl\<close> keeps and reads back, for any security hook and any addresses of the user. Under any
  sequence of calls the name stays a string of at
  most 15 characters, the dumpable flag 0 or 1, the signal a signal, and \<open>no_new_privs\<close> once set is
  never given up. A call the hook answers returns this answer and changes none of these attributes. A call that fails, be it
  for the hook, its arguments or an address, changes nothing, but for a \<open>PR_MCE_KILL_SET\<close> with a bad policy,
  which returns \<open>-EINVAL\<close> and has set PF_MCE_PROCESS. And what a call has set that the hook let pass, the
  signal, the dumpable flag, the name or the policy of machine checks, a later call reads back if the hook lets
  it pass; it fails with \<open>-EFAULT\<close> if its address cannot be written.
\<close>

theorem prctl_keeps_and_reads_back:
  assumes "prtask_ok me0" "me = fold pr_do calls me0"
  shows "prtask_ok me \<and> (no_new_privs me0 \<longrightarrow> no_new_privs me) \<and>
    (\<not> passes E opt a b c d \<longrightarrow> prctl E opt a b c d me = (sec_prctl E opt a b c d, me, No_out)) \<and>
    (prctl E opt a b c d me = (r, me', w) \<longrightarrow> r < 0 \<longrightarrow>
       me' = me \<or> opt = PR_MCE_KILL \<and> a = PR_MCE_KILL_SET \<and> me' = me\<lparr>mce_process := True\<rparr>) \<and>
    (passes E PR_SET_PDEATHSIG a b c d \<and> passes E' PR_GET_PDEATHSIG x y z u \<longrightarrow>
       prctl E PR_SET_PDEATHSIG a b c d me = (0, me', w) \<longrightarrow>
       prctl E' PR_GET_PDEATHSIG x y z u me' =
         (if writable E' x then (0, me', Out_word a) else (- EFAULT, me', No_out))) \<and>
    (passes E PR_SET_DUMPABLE a b c d \<and> passes E' PR_GET_DUMPABLE x y z u \<longrightarrow>
       prctl E PR_SET_DUMPABLE a b c d me = (0, me', w) \<longrightarrow>
       prctl E' PR_GET_DUMPABLE x y z u me' = (uint a, me', No_out)) \<and>
    (passes E PR_SET_NAME a b c d \<and> passes E' PR_GET_NAME x y z u \<longrightarrow>
       prctl E PR_SET_NAME a b c d me = (0, me', w) \<longrightarrow>
       (\<exists>str. user_name E a = Some str \<and>
          prctl E' PR_GET_NAME x y z u me' =
            (if writable E' x then (0, me', Out_name (take 15 (c_str str))) else (- EFAULT, me', No_out)))) \<and>
    (passes E PR_MCE_KILL PR_MCE_KILL_SET p 0 0 \<and> passes E' PR_MCE_KILL_GET 0 0 0 0 \<longrightarrow>
       prctl E PR_MCE_KILL PR_MCE_KILL_SET p 0 0 me = (0, me', w) \<longrightarrow>
       prctl E' PR_MCE_KILL_GET 0 0 0 0 me' = (uint p, me', No_out))"
proof -
  have ok: "prtask_ok me" unfolding assms(2) by (rule pr_range.inv_calls [OF assms(1)])
  have nnp: "no_new_privs me" if "no_new_privs me0" unfolding assms(2) by (rule pr_sticky.inv_calls [OF that])
  have hook: "prctl E opt a b c d me = (sec_prctl E opt a b c d, me, No_out)" if "\<not> passes E opt a b c d"
    using that by (simp add: prctl_def passes_def Let_def)
  have sig: "prctl E' PR_GET_PDEATHSIG x y z u me' =
      (if writable E' x then (0, me', Out_word a) else (- EFAULT, me', No_out))"
    if "passes E PR_SET_PDEATHSIG a b c d" "passes E' PR_GET_PDEATHSIG x y z u"
      "prctl E PR_SET_PDEATHSIG a b c d me = (0, me', w)"
    using that by (auto simp: prctl_def passes_def errnos split: if_splits)
  have dump: "prctl E' PR_GET_DUMPABLE x y z u me' = (uint a, me', No_out)"
    if "passes E PR_SET_DUMPABLE a b c d" "passes E' PR_GET_DUMPABLE x y z u"
      "prctl E PR_SET_DUMPABLE a b c d me = (0, me', w)"
    using that by (auto simp: prctl_def passes_def errnos split: if_splits)
  have name: "\<exists>str. user_name E a = Some str \<and> prctl E' PR_GET_NAME x y z u me' =
      (if writable E' x then (0, me', Out_name (take 15 (c_str str))) else (- EFAULT, me', No_out))"
    if "passes E PR_SET_NAME a b c d" "passes E' PR_GET_NAME x y z u"
      "prctl E PR_SET_NAME a b c d me = (0, me', w)"
    using that by (auto simp: prctl_def passes_def errnos TASK_COMM_LEN_def split: option.splits)
  have policy: "prctl E' PR_MCE_KILL_GET 0 0 0 0 me' = (uint p, me', No_out)"
    if "passes E PR_MCE_KILL PR_MCE_KILL_SET p 0 0" "passes E' PR_MCE_KILL_GET 0 0 0 0"
      "prctl E PR_MCE_KILL PR_MCE_KILL_SET p 0 0 me = (0, me', w)"
  proof -
    have "prctl_mce_kill PR_MCE_KILL_SET p 0 0 me = (0, me')"
      using that by (simp add: prctl_def passes_def split_beta prod_eq_iff)
    then show ?thesis using mce_kill_round_trip that(2) by (simp add: prctl_def passes_def)
  qed
  show ?thesis using ok nnp hook prctl_failed [of E opt a b c d me r me' w] sig dump name policy by blast
qed

text \<open>A hook that refuses one option, and an address that cannot be written.\<close>

definition demo_prctl_env :: prctl_env where
  "demo_prctl_env = \<lparr>sec_prctl = (\<lambda>opt _ _ _ _. if opt = PR_SET_TIMING then - EPERM else - ENOSYS),
     elsewhere = (\<lambda>_ _ _. 0), user_name = (\<lambda>a. if a = 8 then Some ''a name longer than fifteen'' else None),
     writable = (\<lambda>a. a \<noteq> 0)\<rparr>"

definition demo_prtask :: prtask where
  "demo_prtask = \<lparr>pdeath_signal = 0, dumpable = 1, comm = ''init'', timer_slack_ns = 50000,
     default_timer_slack_ns = 50000, mce_process = False, mce_early = False, no_new_privs = False\<rparr>"

definition demo_pr_call :: pr_call where
  "demo_pr_call = \<lparr>pr_env = demo_prctl_env, pr_opt = PR_SET_NO_NEW_PRIVS, pr_arg2 = 1, pr_arg3 = 0,
     pr_arg4 = 0, pr_arg5 = 0\<rparr>"

corollary prctl_keeps_and_reads_back_witness:
  "\<exists>me'. prctl demo_prctl_env PR_MCE_KILL PR_MCE_KILL_SET 1 0 0 (fold pr_do [demo_pr_call] demo_prtask)
       = (0, me', No_out) \<and>
     prctl demo_prctl_env PR_MCE_KILL_GET 0 0 0 0 me' = (1, me', No_out)"
proof -
  let ?me = "fold pr_do [demo_pr_call] demo_prtask"
  have ok: "prtask_ok demo_prtask"
    by (simp add: demo_prtask_def prtask_ok_def TASK_COMM_LEN_def NUL_def valid_signal_def)
  have p: "passes demo_prctl_env PR_MCE_KILL PR_MCE_KILL_SET 1 0 0"
    "passes demo_prctl_env PR_MCE_KILL_GET 0 0 0 0"
    by (simp_all add: passes_def demo_prctl_env_def)
  obtain r me' w where s: "prctl demo_prctl_env PR_MCE_KILL PR_MCE_KILL_SET 1 0 0 ?me = (r, me', w)"
    by (metis prod_cases3)
  then have "r = 0 \<and> w = No_out"
    using p(1) by (auto simp: prctl_def passes_def prctl_mce_kill_def mce Let_def split: if_splits)
  then have s0: "prctl demo_prctl_env PR_MCE_KILL PR_MCE_KILL_SET 1 0 0 ?me = (0, me', No_out)" using s by simp
  moreover have "prctl demo_prctl_env PR_MCE_KILL_GET 0 0 0 0 me' = (uint (1 :: word32), me', No_out)"
    using prctl_keeps_and_reads_back [OF ok refl, where p = 1 and me' = me' and w = No_out] p s0 by blast
  ultimately show ?thesis by auto
qed

end
