(* ===== verification/Usage.thy ===== *)
theory Usage
  imports Prelude "HOL-Library.Word"
begin

unbundle bit_operations_syntax

text \<open>
  Resource usage of \<open>preproj2/sys.c\<close>: \<open>accumulate_thread_rusage\<close>, \<open>k_getrusage\<close>, \<open>getrusage\<close> and its
  system call, \<open>do_sys_times\<close>, \<open>times\<close>, \<open>umask\<close> and \<open>getcpu\<close>. The counters are \<open>unsigned long\<close>, which wrap.
  The threads of the group are the list \<open>next_thread\<close> goes through from the task on. The times of
  the scheduler, the peak of the memory in use and the conversions of times are parameters.
\<close>

section \<open>Data\<close>

type_synonym ulong = "32 word"

record counters =
  nvcsw :: ulong
  nivcsw :: ulong
  minflt :: ulong
  majflt :: ulong
  inblock :: ulong
  oublock :: ulong

record signal =
  dead :: counters          \<comment> \<open>of the threads that have exited\<close>
  waited :: counters        \<comment> \<open>\<open>cnvcsw\<close> and so on: of the children waited for\<close>
  cutime :: ulong
  cstime :: ulong
  maxrss :: ulong
  cmaxrss :: ulong

record utask =
  own :: counters           \<comment> \<open>of this thread\<close>
  others :: "counters list" \<comment> \<open>of the other threads, in the order of \<open>next_thread\<close>\<close>
  signal :: signal
  has_sighand :: bool

record usage_env =
  group_times :: "ulong \<times> ulong"      \<comment> \<open>\<open>thread_group_times\<close>\<close>
  own_times :: "ulong \<times> ulong"        \<comment> \<open>\<open>task_times\<close>\<close>
  hiwater :: "ulong option"             \<comment> \<open>the peak of the \<open>mm\<close>, when there is one\<close>
  to_timeval :: "ulong \<Rightarrow> int \<times> int"
  to_clock_t :: "ulong \<Rightarrow> int"
  PAGE_KB :: ulong

record rusage =
  ru_utime :: "int \<times> int"
  ru_stime :: "int \<times> int"
  ru_counters :: counters
  ru_maxrss :: ulong

definition RUSAGE_SELF :: int where "RUSAGE_SELF = 0"
definition RUSAGE_CHILDREN :: int where "RUSAGE_CHILDREN = - 1"
definition RUSAGE_BOTH :: int where "RUSAGE_BOTH = - 2"
definition RUSAGE_THREAD :: int where "RUSAGE_THREAD = 1"

lemmas who_kinds = RUSAGE_SELF_def RUSAGE_CHILDREN_def RUSAGE_BOTH_def RUSAGE_THREAD_def

section \<open>The code\<close>

definition no_counters :: counters where
  "no_counters = \<lparr>nvcsw = 0, nivcsw = 0, minflt = 0, majflt = 0, inblock = 0, oublock = 0\<rparr>"

text \<open>\<open>accumulate_thread_rusage(t, r)\<close>, and the same six additions for the fields of \<open>signal\<close>.\<close>

definition accumulate_thread_rusage :: "counters \<Rightarrow> counters \<Rightarrow> counters" where
  "accumulate_thread_rusage t r =
     \<lparr>nvcsw = nvcsw r + nvcsw t, nivcsw = nivcsw r + nivcsw t, minflt = minflt r + minflt t,
      majflt = majflt r + majflt t, inblock = inblock r + inblock t, oublock = oublock r + oublock t\<rparr>"

text \<open>\<open>setmax_mm_hiwater_rss\<close> when the task has an \<open>mm\<close>.\<close>

definition with_hiwater :: "usage_env \<Rightarrow> ulong \<Rightarrow> ulong" where
  "with_hiwater E m = (case hiwater E of None \<Rightarrow> m | Some h \<Rightarrow> if m < h then h else m)"

definition finish_rusage :: "usage_env \<Rightarrow> int \<Rightarrow> ulong \<Rightarrow> ulong \<Rightarrow> counters \<Rightarrow> ulong \<Rightarrow> rusage" where
  "finish_rusage E who utime stime c m =
     \<lparr>ru_utime = to_timeval E utime, ru_stime = to_timeval E stime, ru_counters = c,
      ru_maxrss = (if who \<noteq> RUSAGE_CHILDREN then with_hiwater E m else m) * PAGE_KB E\<rparr>"

text \<open>\<open>None\<close> is \<open>BUG()\<close>. A task without \<open>sighand\<close> leaves the structure as it was cleared.\<close>

definition k_getrusage :: "usage_env \<Rightarrow> utask \<Rightarrow> int \<Rightarrow> rusage option" where
  "k_getrusage E p who =
     (if who = RUSAGE_THREAD then
        Some (finish_rusage E who (fst (own_times E)) (snd (own_times E))
          (accumulate_thread_rusage (own p) no_counters) (maxrss (signal p)))
      else if \<not> has_sighand p then
        Some \<lparr>ru_utime = (0, 0), ru_stime = (0, 0), ru_counters = no_counters, ru_maxrss = 0\<rparr>
      else if who = RUSAGE_BOTH \<or> who = RUSAGE_CHILDREN \<or> who = RUSAGE_SELF then
        let children = (who = RUSAGE_BOTH \<or> who = RUSAGE_CHILDREN);
            utime = (if children then cutime (signal p) else 0);
            stime = (if children then cstime (signal p) else 0);
            c = (if children then waited (signal p) else no_counters);
            m = (if children then cmaxrss (signal p) else 0)
        in if who = RUSAGE_CHILDREN then Some (finish_rusage E who utime stime c m)
           else
             let c = accumulate_thread_rusage (dead (signal p)) c;
                 c = fold accumulate_thread_rusage (own p # others p) c;
                 m = (if m < maxrss (signal p) then maxrss (signal p) else m)
             in Some (finish_rusage E who (utime + fst (group_times E)) (stime + snd (group_times E)) c m)
      else None)"

text \<open>\<open>getrusage\<close> with whether the copy to the user succeeds, and the system call.\<close>

definition getrusage :: "usage_env \<Rightarrow> utask \<Rightarrow> int \<Rightarrow> bool \<Rightarrow> (int \<times> rusage option) option" where
  "getrusage E p who copy_ok =
     (case k_getrusage E p who of
        None \<Rightarrow> None
      | Some r \<Rightarrow> Some (if copy_ok then (0, Some r) else (- EFAULT, None)))"

definition sys_getrusage :: "usage_env \<Rightarrow> utask \<Rightarrow> int \<Rightarrow> bool \<Rightarrow> (int \<times> rusage option) option" where
  "sys_getrusage E p who copy_ok =
     (if who \<noteq> RUSAGE_SELF \<and> who \<noteq> RUSAGE_CHILDREN \<and> who \<noteq> RUSAGE_THREAD then Some (- EINVAL, None)
      else getrusage E p who copy_ok)"

record tms =
  tms_utime :: int
  tms_stime :: int
  tms_cutime :: int
  tms_cstime :: int

definition do_sys_times :: "usage_env \<Rightarrow> utask \<Rightarrow> tms" where
  "do_sys_times E p =
     \<lparr>tms_utime = to_clock_t E (fst (group_times E)), tms_stime = to_clock_t E (snd (group_times E)),
      tms_cutime = to_clock_t E (cutime (signal p)), tms_cstime = to_clock_t E (cstime (signal p))\<rparr>"

text \<open>\<open>tbuf\<close> is NULL or not; \<open>now\<close> is the value of the clock.\<close>

definition times :: "usage_env \<Rightarrow> utask \<Rightarrow> bool \<Rightarrow> bool \<Rightarrow> int \<Rightarrow> int \<times> tms option" where
  "times E p tbuf copy_ok now =
     (if tbuf then if copy_ok then (now, Some (do_sys_times E p)) else (- EFAULT, None)
      else (now, None))"

text \<open>\<open>umask\<close> swaps the permission bits of its argument with the mask of the process, an \<open>int\<close>.\<close>

definition S_IRWXUGO :: "32 word" where "S_IRWXUGO = 0x1FF"

definition umask :: "32 word \<Rightarrow> 32 word \<Rightarrow> 32 word \<times> 32 word" where
  "umask new fs_umask = (fs_umask, new AND S_IRWXUGO)"

text \<open>
  \<open>put_user\<close> to a word of the user's memory, whose writable addresses are \<open>W\<close>, and \<open>getcpu\<close>; address 0
  is NULL. Both copies are tried, and the first one stays when the second fails.
\<close>

type_synonym uwords = "nat \<Rightarrow> 32 word"

definition put_user :: "(nat \<Rightarrow> bool) \<Rightarrow> 32 word \<Rightarrow> nat \<Rightarrow> uwords \<Rightarrow> int \<times> uwords" where
  "put_user W v a m = (if W a then (0, m(a := v)) else (- EFAULT, m))"

definition getcpu ::
    "(nat \<Rightarrow> bool) \<Rightarrow> nat \<Rightarrow> (nat \<Rightarrow> nat) \<Rightarrow> nat \<Rightarrow> nat \<Rightarrow> uwords \<Rightarrow> int \<times> uwords" where
  "getcpu W cpu cpu_to_node cpup nodep m =
     (let (err, m) = (if cpup \<noteq> 0 then put_user W (word_of_nat cpu) cpup m else (0, m));
          (err', m) = (if nodep \<noteq> 0 then put_user W (word_of_nat (cpu_to_node cpu)) nodep m else (0, m))
      in (if err \<noteq> 0 \<or> err' \<noteq> 0 then - EFAULT else 0, m))"

section \<open>Counters as a commutative monoid\<close>

text \<open>Field by field, so that the sums are those of the library.\<close>

instantiation unit :: comm_monoid_add
begin

definition zero_unit :: unit where
  "zero_unit = ()"

definition plus_unit :: "unit \<Rightarrow> unit \<Rightarrow> unit" where
  "plus_unit a b = ()"

instance by standard simp_all

end

instantiation counters_ext :: (comm_monoid_add) comm_monoid_add
begin

definition zero_counters_ext :: "'a counters_scheme" where
  "zero_counters_ext =
     \<lparr>nvcsw = 0, nivcsw = 0, minflt = 0, majflt = 0, inblock = 0, oublock = 0, \<dots> = 0\<rparr>"

definition plus_counters_ext :: "'a counters_scheme \<Rightarrow> 'a counters_scheme \<Rightarrow> 'a counters_scheme" where
  "plus_counters_ext r t =
     \<lparr>nvcsw = nvcsw r + nvcsw t, nivcsw = nivcsw r + nivcsw t, minflt = minflt r + minflt t,
      majflt = majflt r + majflt t, inblock = inblock r + inblock t, oublock = oublock r + oublock t,
      \<dots> = counters.more r + counters.more t\<rparr>"

instance
  by standard (simp_all add: zero_counters_ext_def plus_counters_ext_def ac_simps)

end

lemma accumulate_plus: "accumulate_thread_rusage t r = r + t"
  by (simp add: accumulate_thread_rusage_def plus_counters_ext_def)

lemma no_counters_0: "no_counters = 0"
  by (simp add: no_counters_def zero_counters_ext_def zero_unit_def)

lemma fold_accumulate: "fold accumulate_thread_rusage cs r = r + sum_list cs"
  by (induction cs arbitrary: r) (simp_all add: accumulate_plus add.assoc)

lemma nvcsw_plus [simp]: "nvcsw (r + t) = nvcsw r + nvcsw t"
  by (simp add: plus_counters_ext_def)

section \<open>The mask and the processor\<close>

lemma umask_returns_last: "fst (umask m' (snd (umask m old))) = m AND S_IRWXUGO"
  by (simp add: umask_def)

lemma umask_keeps_nine_bits: "snd (umask m old) \<le> S_IRWXUGO"
  by (simp add: umask_def word_and_le2 word_and_le1)

lemma getcpu_answers:
  assumes "getcpu W cpu node cpup nodep m = (0, m')" "cpup \<noteq> nodep"
  shows "(cpup \<noteq> 0 \<longrightarrow> m' cpup = word_of_nat cpu) \<and> (nodep \<noteq> 0 \<longrightarrow> m' nodep = word_of_nat (node cpu))"
  using assms by (auto simp: getcpu_def put_user_def EFAULT_def split: if_splits)

lemma getcpu_writes_only_there: "a \<noteq> cpup \<Longrightarrow> a \<noteq> nodep \<Longrightarrow> snd (getcpu W cpu node cpup nodep m) a = m a"
  by (simp add: getcpu_def put_user_def)

section \<open>Properties\<close>

text \<open>
  C31. \<open>getrusage\<close> adds up: for the process itself the counters are the sums over the threads that
  have exited and over each of the living ones, once (field by field, wrapping); for the children those of the children waited
  for; and the usage of both, which only the kernel asks for, is the sum of the two, with the times
  added before their conversion and the greater of the two peaks. Any other request is refused with
  \<open>-EINVAL\<close> and never reaches \<open>BUG()\<close>.
\<close>

theorem rusage_adds_up:
  assumes "has_sighand p"
    and "k_getrusage E p RUSAGE_SELF = Some self" "k_getrusage E p RUSAGE_CHILDREN = Some kids"
    and "k_getrusage E p RUSAGE_BOTH = Some both"
  shows "ru_counters self = dead (signal p) + own p + sum_list (others p) \<and>
    ru_counters kids = waited (signal p) \<and>
    ru_counters both = ru_counters self + ru_counters kids \<and>
    ru_utime both = to_timeval E (cutime (signal p) + fst (group_times E)) \<and>
    ru_maxrss both = with_hiwater E (max (cmaxrss (signal p)) (maxrss (signal p))) * PAGE_KB E \<and>
    sys_getrusage E p who copy_ok \<noteq> None \<and>
    (who \<notin> {RUSAGE_SELF, RUSAGE_CHILDREN, RUSAGE_THREAD} \<longrightarrow> sys_getrusage E p who copy_ok = Some (- EINVAL, None))"
proof -
  let ?s = "signal p"
  note k = k_getrusage_def who_kinds finish_rusage_def Let_def fold_accumulate accumulate_plus no_counters_0
  have self: "ru_counters self = dead ?s + own p + sum_list (others p)"
    using assms(1,2) by (auto simp: k ac_simps simp del: fold_simps)
  have kids: "ru_counters kids = waited ?s"
    using assms(1,3) by (auto simp: k)
  have "ru_counters both = ru_counters self + ru_counters kids"
    unfolding self kids using assms(1,4) by (auto simp: k ac_simps simp del: fold_simps)
  moreover have "ru_utime both = to_timeval E (cutime ?s + fst (group_times E))"
    "ru_maxrss both = with_hiwater E (max (cmaxrss ?s) (maxrss ?s)) * PAGE_KB E"
    using assms(1,4) by (auto simp: k max_def not_less)
  moreover have "sys_getrusage E p who copy_ok \<noteq> None \<and>
    (who \<notin> {RUSAGE_SELF, RUSAGE_CHILDREN, RUSAGE_THREAD} \<longrightarrow> sys_getrusage E p who copy_ok = Some (- EINVAL, None))"
    using assms(1) by (auto simp: sys_getrusage_def getrusage_def k_getrusage_def who_kinds Let_def)
  ultimately show ?thesis using self kids by blast
qed

definition demo_counters :: "ulong \<Rightarrow> counters" where
  "demo_counters n = \<lparr>nvcsw = n, nivcsw = 0, minflt = 0, majflt = 0, inblock = 0, oublock = 0\<rparr>"

definition demo_utask :: utask where
  "demo_utask = \<lparr>own = demo_counters 1, others = [demo_counters 2, demo_counters 3],
     signal = \<lparr>dead = demo_counters 10, waited = demo_counters 100, cutime = 5, cstime = 6, maxrss = 7,
       cmaxrss = 8\<rparr>, has_sighand = True\<rparr>"

definition demo_usage_env :: usage_env where
  "demo_usage_env = \<lparr>group_times = (1, 2), own_times = (1, 1), hiwater = None,
     to_timeval = (\<lambda>t. (0, uint t)), to_clock_t = uint, PAGE_KB = 4\<rparr>"

corollary rusage_adds_up_witness:
  "\<exists>both. k_getrusage demo_usage_env demo_utask RUSAGE_BOTH = Some both \<and> nvcsw (ru_counters both) = 116 \<and>
     ru_maxrss both = 32"
proof -
  have h: "has_sighand demo_utask" by (simp add: demo_utask_def)
  then obtain self kids both where r: "k_getrusage demo_usage_env demo_utask RUSAGE_SELF = Some self"
    "k_getrusage demo_usage_env demo_utask RUSAGE_CHILDREN = Some kids"
    "k_getrusage demo_usage_env demo_utask RUSAGE_BOTH = Some both"
    by (simp add: k_getrusage_def who_kinds Let_def)
  show ?thesis
    using rusage_adds_up [OF h r] r(3)
    by (simp add: demo_utask_def demo_usage_env_def demo_counters_def with_hiwater_def max_def)
qed

end
