(* ===== verification/Prio.thy ===== *)
theory Prio
  imports Calls
begin

text \<open>
  Priorities of \<open>preproj2/sys.c\<close>: \<open>set_one_prio_perm\<close>, \<open>set_one_prio\<close> and the system calls
  \<open>setpriority\<close> and \<open>getpriority\<close>. The tasks are a list, in the order the kernel's iterators visit
  them; pids are unique, so the task with a given pid is the one the iteration over that pid finds.
  Parameters: the capability test, \<open>can_nice\<close>, the security hook and \<open>find_user\<close>.
\<close>

section \<open>Data\<close>

record ntask =
  npid :: int
  npgrp :: int
  nuid :: "32 word"
  neuid :: "32 word"
  nns :: nat           \<comment> \<open>\<open>user->user_ns\<close>\<close>
  nice :: int

record nenv =
  cap_nice :: "nat \<Rightarrow> bool"
  can_nice :: "ntask \<Rightarrow> int \<Rightarrow> bool"
  sec_setnice :: "ntask \<Rightarrow> int \<Rightarrow> int"
  user_exists :: "32 word \<Rightarrow> bool"

definition PRIO_PROCESS :: int where "PRIO_PROCESS = 0"
definition PRIO_PGRP :: int where "PRIO_PGRP = 1"
definition PRIO_USER :: int where "PRIO_USER = 2"

lemmas prio_kinds = PRIO_PROCESS_def PRIO_PGRP_def PRIO_USER_def

section \<open>The code\<close>

text \<open>\<open>me\<close> is the current task.\<close>

definition set_one_prio_perm :: "nenv \<Rightarrow> ntask \<Rightarrow> ntask \<Rightarrow> bool" where
  "set_one_prio_perm E me p =
     (if nns p = nns me \<and> (nuid p = neuid me \<or> neuid p = neuid me) then True
      else if cap_nice E (nns p) then True
      else False)"

text \<open>The new value of \<open>error\<close>, and the task afterwards.\<close>

definition set_one_prio :: "nenv \<Rightarrow> ntask \<Rightarrow> ntask \<Rightarrow> int \<Rightarrow> int \<Rightarrow> int \<times> ntask" where
  "set_one_prio E me p niceval error =
     (if \<not> set_one_prio_perm E me p then (- EPERM, p)
      else if niceval < nice p \<and> \<not> can_nice E p niceval then (- EACCES, p)
      else
        let no_nice = sec_setnice E p niceval in
        if no_nice \<noteq> 0 then (no_nice, p)
        else (if error = - ESRCH then 0 else error, p\<lparr>nice := niceval\<rparr>))"

text \<open>The iterations: \<open>set_one_prio\<close> on each task that is selected.\<close>

fun set_prios :: "nenv \<Rightarrow> ntask \<Rightarrow> (ntask \<Rightarrow> bool) \<Rightarrow> int \<Rightarrow> int \<Rightarrow> ntask list \<Rightarrow> int \<times> ntask list" where
  "set_prios E me sel niceval error [] = (error, [])"
| "set_prios E me sel niceval error (p # ps) =
     (if sel p then
        let (error', p') = set_one_prio E me p niceval error;
            (error'', ps') = set_prios E me sel niceval error' ps
        in (error'', p' # ps')
      else
        let (error', ps') = set_prios E me sel niceval error ps in (error', p # ps'))"

text \<open>The comparison of \<open>who\<close> with a \<open>uid_t\<close> is unsigned.\<close>

definition setpriority ::
  "nenv \<Rightarrow> ntask \<Rightarrow> int \<Rightarrow> int \<Rightarrow> int \<Rightarrow> ntask list \<Rightarrow> int \<times> ntask list" where
  "setpriority E me which who niceval ts =
     (if which > PRIO_USER \<or> which < PRIO_PROCESS then (- EINVAL, ts)
      else
        let niceval = (if niceval < - 20 then - 20 else niceval);
            niceval = (if niceval > 19 then 19 else niceval)
        in
        if which = PRIO_PROCESS then
          set_prios E me (\<lambda>p. npid p = (if who \<noteq> 0 then who else npid me)) niceval (- ESRCH) ts
        else if which = PRIO_PGRP then
          set_prios E me (\<lambda>p. npgrp p = (if who \<noteq> 0 then who else npgrp me)) niceval (- ESRCH) ts
        else
          let w = (if who = 0 then nuid me else word_of_int who) in
          if who \<noteq> 0 \<and> w \<noteq> nuid me \<and> \<not> user_exists E w then (- ESRCH, ts)
          else set_prios E me (\<lambda>p. nuid p = w) niceval (- ESRCH) ts)"

definition max_prio :: "(ntask \<Rightarrow> bool) \<Rightarrow> ntask list \<Rightarrow> int \<Rightarrow> int" where
  "max_prio sel ts retval =
     fold (\<lambda>p retval. if sel p \<and> 20 - nice p > retval then 20 - nice p else retval) ts retval"

definition getpriority :: "nenv \<Rightarrow> ntask \<Rightarrow> int \<Rightarrow> int \<Rightarrow> ntask list \<Rightarrow> int" where
  "getpriority E me which who ts =
     (if which > PRIO_USER \<or> which < PRIO_PROCESS then - EINVAL
      else if which = PRIO_PROCESS then
        max_prio (\<lambda>p. npid p = (if who \<noteq> 0 then who else npid me)) ts (- ESRCH)
      else if which = PRIO_PGRP then
        max_prio (\<lambda>p. npgrp p = (if who \<noteq> 0 then who else npgrp me)) ts (- ESRCH)
      else
        let w = (if who = 0 then nuid me else word_of_int who) in
        if who \<noteq> 0 \<and> w \<noteq> nuid me \<and> \<not> user_exists E w then - ESRCH
        else max_prio (\<lambda>p. nuid p = w) ts (- ESRCH))"

section \<open>What the calls are for\<close>

text \<open>The tasks a call is about, whether the caller may give one the value, and the value.\<close>

definition prio_target :: "nenv \<Rightarrow> ntask \<Rightarrow> int \<Rightarrow> int \<Rightarrow> ntask \<Rightarrow> bool" where
  "prio_target E me which who p \<longleftrightarrow>
     (which = PRIO_PROCESS \<and> npid p = (if who \<noteq> 0 then who else npid me) \<or>
      which = PRIO_PGRP \<and> npgrp p = (if who \<noteq> 0 then who else npgrp me) \<or>
      which = PRIO_USER \<and> nuid p = (if who = 0 then nuid me else word_of_int who) \<and>
        (nuid p = nuid me \<or> user_exists E (nuid p)))"

definition may_renice :: "nenv \<Rightarrow> ntask \<Rightarrow> int \<Rightarrow> ntask \<Rightarrow> bool" where
  "may_renice E me n p \<longleftrightarrow>
     (nns p = nns me \<and> neuid me \<in> {nuid p, neuid p} \<or> cap_nice E (nns p)) \<and>
     (nice p \<le> n \<or> can_nice E p n) \<and> sec_setnice E p n = 0"

definition clamp_nice :: "int \<Rightarrow> int" where
  "clamp_nice n = max (- 20) (min 19 n)"

definition nice_ok :: "ntask \<Rightarrow> bool" where
  "nice_ok p \<longleftrightarrow> - 20 \<le> nice p \<and> nice p \<le> 19"

definition hook_ok :: "nenv \<Rightarrow> bool" where
  "hook_ok E \<longleftrightarrow> (\<forall>p n. sec_setnice E p n \<noteq> - ESRCH)"

lemma clamp_nice_bounds: "- 20 \<le> clamp_nice n \<and> clamp_nice n \<le> 19"
  by (simp add: clamp_nice_def)

lemma clamp_code:
  "(if (if n < - 20 then - 20 else n) > (19::int) then 19 else (if n < - 20 then - 20 else n)) = clamp_nice n"
  by (simp add: clamp_nice_def)

lemma set_one_prio_cases:
  "(may_renice E me n p \<and> set_one_prio E me p n err = (if err = - ESRCH then 0 else err, p\<lparr>nice := n\<rparr>)) \<or>
   (\<not> may_renice E me n p \<and> (\<exists>e. e \<noteq> 0 \<and> (hook_ok E \<longrightarrow> e \<noteq> - ESRCH) \<and>
      (\<forall>err. set_one_prio E me p n err = (e, p))))"
proof -
  consider (perm) "\<not> set_one_prio_perm E me p"
    | (acces) "set_one_prio_perm E me p" "n < nice p" "\<not> can_nice E p n"
    | (hook) "set_one_prio_perm E me p" "nice p \<le> n \<or> can_nice E p n" "sec_setnice E p n \<noteq> 0"
    | (ok) "set_one_prio_perm E me p" "nice p \<le> n \<or> can_nice E p n" "sec_setnice E p n = 0"
    by linarith
  then show ?thesis
  proof cases
    case perm
    then have "\<not> may_renice E me n p" "\<forall>err. set_one_prio E me p n err = (- EPERM, p)"
      by (auto simp: set_one_prio_def set_one_prio_perm_def may_renice_def split: if_splits)
    moreover have "- EPERM \<noteq> 0 \<and> - EPERM \<noteq> - ESRCH" by (simp add: errnos)
    ultimately show ?thesis by blast
  next
    case acces
    then have "\<not> may_renice E me n p" "\<forall>err. set_one_prio E me p n err = (- EACCES, p)"
      by (auto simp: set_one_prio_def may_renice_def)
    moreover have "- EACCES \<noteq> 0 \<and> - EACCES \<noteq> - ESRCH" by (simp add: errnos)
    ultimately show ?thesis by blast
  next
    case hook
    then have "\<not> may_renice E me n p"
      "\<forall>err. set_one_prio E me p n err = (sec_setnice E p n, p)"
      by (auto simp: set_one_prio_def may_renice_def Let_def)
    then show ?thesis using hook(3) unfolding hook_ok_def by blast
  next
    case ok
    then have "may_renice E me n p"
      by (auto simp: set_one_prio_perm_def may_renice_def split: if_splits)
    then show ?thesis using ok by (auto simp: set_one_prio_def Let_def)
  qed
qed

lemma snd_set_one_prio [simp]:
  "snd (set_one_prio E me p n err) = (if may_renice E me n p then p\<lparr>nice := n\<rparr> else p)"
  using set_one_prio_cases [of E me n p err] by fastforce

lemma fst_set_one_prio_ok [simp]:
  "may_renice E me n p \<Longrightarrow> fst (set_one_prio E me p n err) = (if err = - ESRCH then 0 else err)"
  using set_one_prio_cases [of E me n p err] by fastforce

lemma fst_set_one_prio_refused:
  assumes "\<not> may_renice E me n p"
  shows "fst (set_one_prio E me p n err) \<noteq> 0 \<and> (hook_ok E \<longrightarrow> fst (set_one_prio E me p n err) \<noteq> - ESRCH)"
  using set_one_prio_cases [of E me n p err] assms by fastforce

lemma set_prios_Cons [simp]:
  "fst (set_prios E me sel n err (p # ts)) =
     fst (set_prios E me sel n (if sel p then fst (set_one_prio E me p n err) else err) ts)"
  "snd (set_prios E me sel n err (p # ts)) =
     (if sel p \<and> may_renice E me n p then p\<lparr>nice := n\<rparr> else p) #
     snd (set_prios E me sel n (if sel p then fst (set_one_prio E me p n err) else err) ts)"
  by (simp_all add: split_beta)

declare set_prios.simps(2) [simp del]

lemma set_prios_tasks:
  "snd (set_prios E me sel n err ts) =
     map (\<lambda>p. if sel p \<and> may_renice E me n p then p\<lparr>nice := n\<rparr> else p) ts"
  by (induction ts arbitrary: err) simp_all

text \<open>Once a refusal has set the error, only another refusal changes it.\<close>

lemma set_prios_refused:
  assumes "hook_ok E" "err \<noteq> 0" "err \<noteq> - ESRCH"
  shows "fst (set_prios E me sel n err ts) \<noteq> 0 \<and> fst (set_prios E me sel n err ts) \<noteq> - ESRCH"
  using assms(2,3)
proof (induction ts arbitrary: err)
  case (Cons p ts)
  show ?case
  proof (cases "sel p \<and> \<not> may_renice E me n p")
    case True
    then show ?thesis using Cons.IH fst_set_one_prio_refused assms(1) by simp
  next
    case False
    then show ?thesis using Cons by auto
  qed
qed simp

lemma set_prios_good:
  assumes "hook_ok E"
  shows "fst (set_prios E me sel n 0 ts) \<noteq> - ESRCH \<and>
    (fst (set_prios E me sel n 0 ts) = 0 \<longleftrightarrow> (\<forall>p\<in>set ts. sel p \<longrightarrow> may_renice E me n p))"
proof (induction ts)
  case Nil
  then show ?case by (simp add: errnos)
next
  case (Cons p ts)
  show ?case
  proof (cases "sel p \<and> \<not> may_renice E me n p")
    case True
    then show ?thesis
      using set_prios_refused [OF assms] fst_set_one_prio_refused assms by simp
  next
    case False
    then have "(if sel p then fst (set_one_prio E me p n 0) else 0) = 0" by (auto simp: errnos)
    then show ?thesis using Cons False by auto
  qed
qed

lemma set_prios_result:
  assumes "hook_ok E"
  shows "fst (set_prios E me sel n (- ESRCH) ts) = - ESRCH \<longleftrightarrow> (\<forall>p\<in>set ts. \<not> sel p)"
    and "fst (set_prios E me sel n (- ESRCH) ts) = 0 \<longleftrightarrow>
      (\<exists>p\<in>set ts. sel p) \<and> (\<forall>p\<in>set ts. sel p \<longrightarrow> may_renice E me n p)"
proof (induction ts)
  case Nil
  show "fst (set_prios E me sel n (- ESRCH) []) = - ESRCH \<longleftrightarrow> (\<forall>p\<in>set []. \<not> sel p)" by simp
  show "fst (set_prios E me sel n (- ESRCH) []) = 0 \<longleftrightarrow>
      (\<exists>p\<in>set []. sel p) \<and> (\<forall>p\<in>set []. sel p \<longrightarrow> may_renice E me n p)" by (simp add: errnos)
next
  case (Cons p ts)
  note ih = Cons
  consider (skip) "\<not> sel p" | (refused) "sel p" "\<not> may_renice E me n p" | (set) "sel p" "may_renice E me n p"
    by blast
  then have "(fst (set_prios E me sel n (- ESRCH) (p # ts)) = - ESRCH \<longleftrightarrow> (\<forall>p\<in>set (p # ts). \<not> sel p)) \<and>
    (fst (set_prios E me sel n (- ESRCH) (p # ts)) = 0 \<longleftrightarrow>
      (\<exists>p\<in>set (p # ts). sel p) \<and> (\<forall>p\<in>set (p # ts). sel p \<longrightarrow> may_renice E me n p))"
  proof cases
    case skip
    then show ?thesis using ih by simp
  next
    case refused
    then show ?thesis using set_prios_refused [OF assms] fst_set_one_prio_refused assms by simp
  next
    case set
    then show ?thesis using set_prios_good [OF assms, of me sel n ts] by simp
  qed
  then show "fst (set_prios E me sel n (- ESRCH) (p # ts)) = - ESRCH \<longleftrightarrow> (\<forall>p\<in>set (p # ts). \<not> sel p)"
    "fst (set_prios E me sel n (- ESRCH) (p # ts)) = 0 \<longleftrightarrow>
      (\<exists>p\<in>set (p # ts). sel p) \<and> (\<forall>p\<in>set (p # ts). sel p \<longrightarrow> may_renice E me n p)" by blast+
qed

section \<open>The system calls in terms of their targets\<close>

lemma which_cases:
  assumes "\<not> (which > PRIO_USER \<or> which < PRIO_PROCESS)"
  obtains "which = PRIO_PROCESS" | "which = PRIO_PGRP" | "which = PRIO_USER"
proof -
  have "which = PRIO_PROCESS \<or> which = PRIO_PGRP \<or> which = PRIO_USER"
    using assms unfolding prio_kinds by arith
  then show thesis using that by blast
qed

lemma target_process:
  "prio_target E me PRIO_PROCESS who = (\<lambda>p. npid p = (if who \<noteq> 0 then who else npid me))"
  by (simp add: fun_eq_iff prio_target_def prio_kinds)

lemma target_pgrp:
  "prio_target E me PRIO_PGRP who = (\<lambda>p. npgrp p = (if who \<noteq> 0 then who else npgrp me))"
  by (simp add: fun_eq_iff prio_target_def prio_kinds)

lemma target_user:
  assumes "\<not> (who \<noteq> 0 \<and> word_of_int who \<noteq> nuid me \<and> \<not> user_exists E (word_of_int who))"
  shows "prio_target E me PRIO_USER who = (\<lambda>p. nuid p = (if who = 0 then nuid me else word_of_int who))"
  using assms by (auto simp: fun_eq_iff prio_target_def prio_kinds)

lemma target_no_user:
  assumes "who \<noteq> 0" "word_of_int who \<noteq> nuid me" "\<not> user_exists E (word_of_int who)"
  shows "\<not> prio_target E me PRIO_USER who p"
  using assms by (auto simp: prio_target_def prio_kinds)

lemma max_prio_none: "\<forall>p\<in>set ts. \<not> sel p \<Longrightarrow> max_prio sel ts r = r"
  unfolding max_prio_def by (induction ts arbitrary: r) simp_all

lemma set_prios_none: "\<forall>p\<in>set ts. \<not> sel p \<Longrightarrow> set_prios E me sel n err ts = (err, ts)"
  by (induction ts) (simp_all add: set_prios.simps(2))

lemma setpriority_eq:
  "setpriority E me which who n ts =
     (if which > PRIO_USER \<or> which < PRIO_PROCESS then (- EINVAL, ts)
      else set_prios E me (prio_target E me which who) (clamp_nice n) (- ESRCH) ts)"
proof (cases "which > PRIO_USER \<or> which < PRIO_PROCESS")
  case True
  then show ?thesis by (simp add: setpriority_def)
next
  case False
  have c: "(if (if n < - 20 then - 20 else n) > 19 then 19 else (if n < - 20 then - 20 else n)) = clamp_nice n"
    by (rule clamp_code)
  have e: "setpriority E me which who n ts =
    (if which = PRIO_PROCESS then
       set_prios E me (\<lambda>p. npid p = (if who \<noteq> 0 then who else npid me)) (clamp_nice n) (- ESRCH) ts
     else if which = PRIO_PGRP then
       set_prios E me (\<lambda>p. npgrp p = (if who \<noteq> 0 then who else npgrp me)) (clamp_nice n) (- ESRCH) ts
     else if who \<noteq> 0 \<and> (if who = 0 then nuid me else word_of_int who) \<noteq> nuid me \<and>
         \<not> user_exists E (if who = 0 then nuid me else word_of_int who) then (- ESRCH, ts)
     else set_prios E me (\<lambda>p. nuid p = (if who = 0 then nuid me else word_of_int who)) (clamp_nice n)
         (- ESRCH) ts)"
    using False unfolding setpriority_def Let_def c by (simp only: if_False)
  from False show ?thesis
  proof (cases rule: which_cases)
    case 1
    then show ?thesis using False e by (simp add: target_process)
  next
    case 2
    have "PRIO_PGRP \<noteq> PRIO_PROCESS" by (simp add: prio_kinds)
    then show ?thesis using 2 False e by (simp add: target_pgrp)
  next
    case 3
    have k: "PRIO_USER \<noteq> PRIO_PROCESS" "PRIO_USER \<noteq> PRIO_PGRP" by (simp_all add: prio_kinds)
    show ?thesis
    proof (cases "who \<noteq> 0 \<and> word_of_int who \<noteq> nuid me \<and> \<not> user_exists E (word_of_int who)")
      case True
      then have "set_prios E me (prio_target E me PRIO_USER who) (clamp_nice n) (- ESRCH) ts = (- ESRCH, ts)"
        by (intro set_prios_none) (use target_no_user in blast)
      then show ?thesis using e False True 3 k by simp
    next
      case no: False
      then show ?thesis using e False 3 k target_user [OF no] by auto
    qed
  qed
qed

lemma getpriority_eq:
  "getpriority E me which who ts =
     (if which > PRIO_USER \<or> which < PRIO_PROCESS then - EINVAL
      else max_prio (prio_target E me which who) ts (- ESRCH))"
proof (cases "which > PRIO_USER \<or> which < PRIO_PROCESS")
  case True
  then show ?thesis by (simp add: getpriority_def)
next
  case False
  from False show ?thesis
  proof (cases rule: which_cases)
    case 1
    then show ?thesis using False by (simp add: getpriority_def target_process)
  next
    case 2
    have "PRIO_PGRP \<noteq> PRIO_PROCESS" by (simp add: prio_kinds)
    then show ?thesis using 2 False by (simp add: getpriority_def target_pgrp)
  next
    case 3
    have k: "PRIO_USER \<noteq> PRIO_PROCESS" "PRIO_USER \<noteq> PRIO_PGRP" by (simp_all add: prio_kinds)
    show ?thesis
    proof (cases "who \<noteq> 0 \<and> word_of_int who \<noteq> nuid me \<and> \<not> user_exists E (word_of_int who)")
      case True
      then have "max_prio (prio_target E me PRIO_USER who) ts (- ESRCH) = - ESRCH"
        by (intro max_prio_none) (use target_no_user in blast)
      then show ?thesis using False True 3 k by (simp add: getpriority_def Let_def)
    next
      case no: False
      then show ?thesis using False 3 k target_user [OF no] by (auto simp: getpriority_def Let_def)
    qed
  qed
qed

text \<open>The greatest of the values, or the initial one.\<close>

lemma max_prio_bounds:
  "r \<le> max_prio sel ts r \<and> (\<forall>p\<in>set ts. sel p \<longrightarrow> 20 - nice p \<le> max_prio sel ts r) \<and>
   (max_prio sel ts r = r \<or> (\<exists>p\<in>set ts. sel p \<and> max_prio sel ts r = 20 - nice p))"
proof (induction ts arbitrary: r)
  case Nil
  then show ?case by (simp add: max_prio_def)
next
  case (Cons p ts)
  define r' where "r' = (if sel p \<and> 20 - nice p > r then 20 - nice p else r)"
  have "max_prio sel (p # ts) r = max_prio sel ts r'" by (simp add: max_prio_def r'_def)
  moreover have "r \<le> r'" "sel p \<longrightarrow> 20 - nice p \<le> r'" "r' = r \<or> sel p \<and> r' = 20 - nice p"
    by (simp_all add: r'_def)
  ultimately show ?case using Cons.IH [of r'] by auto
qed

lemma prio_target_nice [simp]: "prio_target E me which who (p\<lparr>nice := n\<rparr>) = prio_target E me which who p"
  by (simp add: prio_target_def)

section \<open>Sequences of calls\<close>

record prio_call =
  pc_env :: nenv
  pc_cur :: int
  pc_which :: int
  pc_who :: int
  pc_nice :: int

definition prio_do :: "prio_call \<Rightarrow> ntask list \<Rightarrow> ntask list" where
  "prio_do c ts =
     (case find (\<lambda>p. npid p = pc_cur c) ts of
        None \<Rightarrow> ts
      | Some me \<Rightarrow> snd (setpriority (pc_env c) me (pc_which c) (pc_who c) (pc_nice c) ts))"

lemma setpriority_tasks:
  "snd (setpriority E me which who n ts) =
     (if which > PRIO_USER \<or> which < PRIO_PROCESS then ts
      else map (\<lambda>p. if prio_target E me which who p \<and> may_renice E me (clamp_nice n) p
                   then p\<lparr>nice := clamp_nice n\<rparr> else p) ts)"
  by (simp add: setpriority_eq set_prios_tasks)

lemma setpriority_nice_ok:
  assumes "list_all nice_ok ts"
  shows "list_all nice_ok (snd (setpriority E me which who n ts))"
  using assms clamp_nice_bounds [of n] by (auto simp: setpriority_tasks list_all_iff nice_ok_def)

definition no_nice_falls :: "ntask list \<Rightarrow> ntask list \<Rightarrow> bool" where
  "no_nice_falls ts ts' \<longleftrightarrow> list_all2 (\<lambda>p q. q = p\<lparr>nice := nice q\<rparr> \<and> nice p \<le> nice q) ts ts'"

lemma no_nice_falls_refl: "no_nice_falls ts ts"
  unfolding no_nice_falls_def by (rule list_all2_refl) simp

lemma no_nice_falls_trans:
  assumes "no_nice_falls ts us" "no_nice_falls us vs"
  shows "no_nice_falls ts vs"
  unfolding no_nice_falls_def
proof (rule list_all2_trans [OF _ assms [unfolded no_nice_falls_def]])
  fix p q r :: ntask
  assume "q = p\<lparr>nice := nice q\<rparr> \<and> nice p \<le> nice q" "r = q\<lparr>nice := nice r\<rparr> \<and> nice q \<le> nice r"
  then show "r = p\<lparr>nice := nice r\<rparr> \<and> nice p \<le> nice r" by (cases p; cases q; cases r) auto
qed

lemma setpriority_no_nice_falls:
  assumes "\<forall>p n. \<not> can_nice E p n"
  shows "no_nice_falls ts (snd (setpriority E me which who n ts))"
  using assms unfolding no_nice_falls_def setpriority_tasks
  by (auto simp: list_all2_conv_all_nth may_renice_def)

interpretation prio_range: invariant_calls prio_do "list_all nice_ok"
  by unfold_locales (auto simp: prio_do_def setpriority_nice_ok split: option.split)

interpretation prio_mono: guarded_calls prio_do "\<lambda>c _. \<forall>p n. \<not> can_nice (pc_env c) p n" no_nice_falls
proof
  show "no_nice_falls s s" for s by (rule no_nice_falls_refl)
  show "no_nice_falls s u" if "no_nice_falls s t" "no_nice_falls t u" for s t u
    using no_nice_falls_trans that .
  show "no_nice_falls s (prio_do c s)" if "\<forall>p n. \<not> can_nice (pc_env c) p n" for c s
    using setpriority_no_nice_falls [OF that] no_nice_falls_refl
    by (auto simp: prio_do_def split: option.split)
qed

section \<open>Properties\<close>

text \<open>
  C24. \<open>setpriority\<close> gives every task it is about the value, cut to -20..19, if the caller may, and
  changes nothing else; it returns 0 exactly when it is about some task and the caller may renice
  all of them, and \<open>-ESRCH\<close> exactly when it is about none; and after a 0, \<open>getpriority\<close> with the same
  arguments returns 20 minus the value.
\<close>

theorem setpriority_renices:
  assumes "PRIO_PROCESS \<le> which" "which \<le> PRIO_USER" "hook_ok E"
    and "setpriority E me which who n ts = (ret, ts')"
  shows "ts' = map (\<lambda>p. if prio_target E me which who p \<and> may_renice E me (clamp_nice n) p
                       then p\<lparr>nice := clamp_nice n\<rparr> else p) ts \<and>
    (ret = 0 \<longleftrightarrow> (\<exists>p\<in>set ts. prio_target E me which who p) \<and>
       (\<forall>p\<in>set ts. prio_target E me which who p \<longrightarrow> may_renice E me (clamp_nice n) p)) \<and>
    (ret = - ESRCH \<longleftrightarrow> (\<forall>p\<in>set ts. \<not> prio_target E me which who p)) \<and>
    (ret = 0 \<longrightarrow> getpriority E me which who ts' = 20 - clamp_nice n)"
proof -
  let ?T = "prio_target E me which who" and ?n = "clamp_nice n"
  have valid: "\<not> (which > PRIO_USER \<or> which < PRIO_PROCESS)" using assms(1,2) by linarith
  have s: "set_prios E me ?T ?n (- ESRCH) ts = (ret, ts')"
    using assms(4) valid by (simp add: setpriority_eq)
  have ts': "ts' = map (\<lambda>p. if ?T p \<and> may_renice E me ?n p then p\<lparr>nice := ?n\<rparr> else p) ts"
    using set_prios_tasks [of E me ?T ?n "- ESRCH" ts] s by simp
  note ret = set_prios_result [OF assms(3), of me ?T ?n ts, unfolded s fst_conv]
  have "getpriority E me which who ts' = 20 - ?n" if "ret = 0"
  proof -
    from that have all: "\<forall>p\<in>set ts. ?T p \<longrightarrow> may_renice E me ?n p" and ex: "\<exists>p\<in>set ts. ?T p"
      using ret(2) by blast+
    have n: "\<forall>q\<in>set ts'. ?T q \<longrightarrow> nice q = ?n" using all unfolding ts' by auto
    obtain p where p: "p \<in> set ts" "?T p" using ex by blast
    have e: "\<exists>q\<in>set ts'. ?T q"
    proof
      show "(if ?T p \<and> may_renice E me ?n p then p\<lparr>nice := ?n\<rparr> else p) \<in> set ts'"
        unfolding ts' using p(1) by simp
    qed (use p(2) in simp)
    have "- ESRCH < 20 - ?n" using clamp_nice_bounds [of n] by (simp add: errnos)
    then have "max_prio ?T ts' (- ESRCH) = 20 - ?n"
      using max_prio_bounds [of "- ESRCH" ?T ts'] n e by (metis leD)
    then show ?thesis using valid by (simp add: getpriority_eq)
  qed
  then show ?thesis using ts' ret by blast
qed

text \<open>
  C25. Priorities stay in range and are not taken: from tasks with nice values in -20..19, no sequence
  of \<open>setpriority\<close> calls leaves that range, \<open>getpriority\<close> always answers with 1..40 or a (negative)
  error, and calls for which \<open>can_nice\<close> never agrees lower nobody's nice value and change nothing
  else of a task.
\<close>

theorem priorities_stay_in_range:
  assumes "list_all nice_ok ts"
  shows "list_all nice_ok (fold prio_do calls ts) \<and>
    getpriority E me which who (fold prio_do calls ts) \<in> {- EINVAL, - ESRCH} \<union> {1..40} \<and>
    ((\<forall>c\<in>set calls. \<forall>p n. \<not> can_nice (pc_env c) p n) \<longrightarrow>
      list_all2 (\<lambda>p q. q = p\<lparr>nice := nice q\<rparr> \<and> nice p \<le> nice q) ts (fold prio_do calls ts))"
proof -
  have ok: "list_all nice_ok (fold prio_do calls ts)" using prio_range.inv_calls [OF assms] .
  then have "getpriority E me which who (fold prio_do calls ts) \<in> {- EINVAL, - ESRCH} \<union> {1..40}"
    using max_prio_bounds [of "- ESRCH" "prio_target E me which who" "fold prio_do calls ts"]
    by (auto simp: getpriority_eq list_all_iff nice_ok_def)
  then show ?thesis
    using ok prio_mono.rel_calls [of calls ts] by (simp add: all_allowed_static no_nice_falls_def)
qed

section \<open>Witnesses\<close>

definition demo_nenv :: nenv where
  "demo_nenv = \<lparr>cap_nice = (\<lambda>_. False), can_nice = (\<lambda>_ _. False), sec_setnice = (\<lambda>_ _. 0),
     user_exists = (\<lambda>u. u = 1000)\<rparr>"

definition demo_ntask :: "int \<Rightarrow> 32 word \<Rightarrow> int \<Rightarrow> ntask" where
  "demo_ntask n u v = \<lparr>npid = n, npgrp = 1, nuid = u, neuid = u, nns = 0, nice = v\<rparr>"

corollary setpriority_renices_witness:
  "setpriority demo_nenv (demo_ntask 2 1000 0) PRIO_PGRP 0 50 [demo_ntask 2 1000 0, demo_ntask 3 1000 5]
     = (0, [demo_ntask 2 1000 19, demo_ntask 3 1000 19]) \<and>
   getpriority demo_nenv (demo_ntask 2 1000 0) PRIO_PGRP 0 [demo_ntask 2 1000 19, demo_ntask 3 1000 19] = 1"
proof -
  have e: "setpriority demo_nenv (demo_ntask 2 1000 0) PRIO_PGRP 0 50
      [demo_ntask 2 1000 0, demo_ntask 3 1000 5] = (0, [demo_ntask 2 1000 19, demo_ntask 3 1000 19])"
    by (simp add: setpriority_def set_prios.simps set_one_prio_def set_one_prio_perm_def demo_nenv_def
        demo_ntask_def prio_kinds Let_def)
  have pk: "PRIO_PROCESS \<le> PRIO_PGRP" "PRIO_PGRP \<le> PRIO_USER" by (simp_all add: prio_kinds)
  have "hook_ok demo_nenv" by (simp add: hook_ok_def demo_nenv_def errnos)
  then have "getpriority demo_nenv (demo_ntask 2 1000 0) PRIO_PGRP 0
      [demo_ntask 2 1000 19, demo_ntask 3 1000 19] = 20 - clamp_nice 50"
    using setpriority_renices [OF pk(1) pk(2) _ e] by blast
  then show ?thesis using e by (simp add: clamp_nice_def)
qed

corollary priorities_stay_in_range_witness:
  "getpriority demo_nenv (demo_ntask 2 1000 0) PRIO_PROCESS 3
     (fold prio_do [\<lparr>pc_env = demo_nenv, pc_cur = 2, pc_which = PRIO_PROCESS, pc_who = 3, pc_nice = - 50\<rparr>]
       [demo_ntask 2 1000 0, demo_ntask 3 1000 5]) \<in> {- EINVAL, - ESRCH} \<union> {1..40}"
proof -
  have "list_all nice_ok [demo_ntask 2 1000 0, demo_ntask 3 1000 5]"
    by (simp add: nice_ok_def demo_ntask_def)
  from priorities_stay_in_range [OF this] show ?thesis by blast
qed

end
