(* ===== verification/Creds.thy ===== *)
theory Creds
  imports Calls
begin

text \<open>
  The credential system calls of \<open>preproj2/sys.c\<close>: \<open>setregid\<close>, \<open>setgid\<close>, \<open>setreuid\<close>, \<open>setuid\<close>,
  \<open>setresuid\<close>, \<open>setresgid\<close>, \<open>setfsuid\<close>, \<open>setfsgid\<close>, \<open>getresuid\<close>, \<open>getresgid\<close> and \<open>set_user\<close>.
  What the rest of the kernel answers is a parameter, the record \<open>cred_env\<close>: whether
  \<open>prepare_creds\<close> finds memory, the capability test of the current credentials, \<open>alloc_uid\<close>,
  whether a user is over its process limit, the security module, and which user addresses can be
  written.
\<close>

section \<open>Data\<close>

type_synonym kid = "32 word"    \<comment> \<open>\<open>uid_t\<close> and \<open>gid_t\<close>\<close>

record cred =
  uid :: kid
  euid :: kid
  suid :: kid
  fsuid :: kid
  gid :: kid
  egid :: kid
  sgid :: kid
  fsgid :: kid
  user :: nat                 \<comment> \<open>the \<open>user_struct\<close>\<close>
  caps :: "nat set"            \<comment> \<open>what the security module changes\<close>

text \<open>The running task: its credentials and the flag \<open>PF_NPROC_EXCEEDED\<close>.\<close>

record task =
  tcred :: cred
  nproc_exceeded :: bool

datatype lsm_setid = LSM_SETID_RE | LSM_SETID_ID | LSM_SETID_RES | LSM_SETID_FS

record cred_env =
  prepare_ok :: bool
  cap_setuid :: "cred \<Rightarrow> bool"
  cap_setgid :: "cred \<Rightarrow> bool"
  alloc_uid :: "kid \<Rightarrow> nat option"
  over_nproc :: "nat \<Rightarrow> bool"
  fix_setuid :: "cred \<Rightarrow> cred \<Rightarrow> lsm_setid \<Rightarrow> int \<times> cred"   \<comment> \<open>new, old, flag; it may change new\<close>
  writable :: "nat \<Rightarrow> bool"

text \<open>\<open>(uid_t) -1\<close>: leave this id as it is.\<close>

definition no_id :: kid where "no_id = - 1"

section \<open>The system calls\<close>

text \<open>A call returns its value and the task after it; \<open>commit_creds\<close> installs the new credentials
  and returns 0, \<open>abort_creds\<close> drops them.\<close>

definition commit_creds :: "cred \<Rightarrow> task \<Rightarrow> int \<times> task" where
  "commit_creds new t = (0, t\<lparr>tcred := new\<rparr>)"

definition setregid :: "cred_env \<Rightarrow> kid \<Rightarrow> kid \<Rightarrow> task \<Rightarrow> int \<times> task" where
  "setregid E rgid eg t =
     (if \<not> prepare_ok E then (- ENOMEM, t)
      else
        let old = tcred t in
        if rgid \<noteq> no_id \<and> \<not> (gid old = rgid \<or> egid old = rgid \<or> cap_setgid E old)
        then (- EPERM, t)
        else
          let new1 = (if rgid \<noteq> no_id then old\<lparr>gid := rgid\<rparr> else old) in
          if eg \<noteq> no_id \<and> \<not> (gid old = eg \<or> egid old = eg \<or> sgid old = eg \<or> cap_setgid E old)
          then (- EPERM, t)
          else
            let new2 = (if eg \<noteq> no_id then new1\<lparr>egid := eg\<rparr> else new1);
                new3 = (if rgid \<noteq> no_id \<or> (eg \<noteq> no_id \<and> eg \<noteq> gid old)
                        then new2\<lparr>sgid := egid new2\<rparr> else new2)
            in commit_creds (new3\<lparr>fsgid := egid new3\<rparr>) t)"

definition setgid :: "cred_env \<Rightarrow> kid \<Rightarrow> task \<Rightarrow> int \<times> task" where
  "setgid E g t =
     (if \<not> prepare_ok E then (- ENOMEM, t)
      else
        let old = tcred t in
        if cap_setgid E old
        then commit_creds (old\<lparr>gid := g, egid := g, sgid := g, fsgid := g\<rparr>) t
        else if g = gid old \<or> g = sgid old
        then commit_creds (old\<lparr>egid := g, fsgid := g\<rparr>) t
        else (- EPERM, t))"

text \<open>\<open>set_user\<close> changes the flag of the task and the \<open>user\<close> of the new credentials; \<open>INIT_USER\<close>
  (here 0) may exceed the limit.\<close>

definition set_user :: "cred_env \<Rightarrow> cred \<Rightarrow> task \<Rightarrow> int \<times> cred \<times> task" where
  "set_user E new t =
     (case alloc_uid E (uid new) of
        None \<Rightarrow> (- EAGAIN, new, t)
      | Some new_user \<Rightarrow>
          (0, new\<lparr>user := new_user\<rparr>, t\<lparr>nproc_exceeded := over_nproc E new_user \<and> new_user \<noteq> 0\<rparr>))"

text \<open>The common end of the three \<open>set*uid\<close> calls: the security module, then the commit.\<close>

definition fix_and_commit :: "cred_env \<Rightarrow> lsm_setid \<Rightarrow> cred \<Rightarrow> cred \<Rightarrow> task \<Rightarrow> int \<times> task" where
  "fix_and_commit E flag new old t =
     (let (retval, new') = fix_setuid E new old flag
      in if retval < 0 then (retval, t) else commit_creds new' t)"

definition setreuid :: "cred_env \<Rightarrow> kid \<Rightarrow> kid \<Rightarrow> task \<Rightarrow> int \<times> task" where
  "setreuid E ru eu t =
     (if \<not> prepare_ok E then (- ENOMEM, t)
      else
        let old = tcred t in
        if ru \<noteq> no_id \<and> uid old \<noteq> ru \<and> euid old \<noteq> ru \<and> \<not> cap_setuid E old then (- EPERM, t)
        else
          let new1 = (if ru \<noteq> no_id then old\<lparr>uid := ru\<rparr> else old) in
          if eu \<noteq> no_id \<and> uid old \<noteq> eu \<and> euid old \<noteq> eu \<and> suid old \<noteq> eu \<and> \<not> cap_setuid E old
          then (- EPERM, t)
          else
            let new2 = (if eu \<noteq> no_id then new1\<lparr>euid := eu\<rparr> else new1);
                (retval, new3, t') = (if uid new2 \<noteq> uid old then set_user E new2 t else (0, new2, t))
            in if retval < 0 then (retval, t')
               else
                 let new4 = (if ru \<noteq> no_id \<or> (eu \<noteq> no_id \<and> eu \<noteq> uid old)
                             then new3\<lparr>suid := euid new3\<rparr> else new3)
                 in fix_and_commit E LSM_SETID_RE (new4\<lparr>fsuid := euid new4\<rparr>) old t')"

definition setuid :: "cred_env \<Rightarrow> kid \<Rightarrow> task \<Rightarrow> int \<times> task" where
  "setuid E u t =
     (if \<not> prepare_ok E then (- ENOMEM, t)
      else
        let old = tcred t in
        if \<not> cap_setuid E old \<and> u \<noteq> uid old \<and> u \<noteq> suid old then (- EPERM, t)
        else
          let new1 = (if cap_setuid E old then old\<lparr>suid := u, uid := u\<rparr> else old);
              (retval, new2, t') = (if cap_setuid E old \<and> u \<noteq> uid old then set_user E new1 t
                                    else (0, new1, t))
          in if retval < 0 then (retval, t')
             else fix_and_commit E LSM_SETID_ID (new2\<lparr>euid := u, fsuid := u\<rparr>) old t')"

definition one_of_uids :: "cred \<Rightarrow> kid \<Rightarrow> bool" where
  "one_of_uids old u \<longleftrightarrow> u = no_id \<or> u = uid old \<or> u = euid old \<or> u = suid old"

definition setresuid :: "cred_env \<Rightarrow> kid \<Rightarrow> kid \<Rightarrow> kid \<Rightarrow> task \<Rightarrow> int \<times> task" where
  "setresuid E ru eu su t =
     (if \<not> prepare_ok E then (- ENOMEM, t)
      else
        let old = tcred t in
        if \<not> cap_setuid E old \<and> \<not> (one_of_uids old ru \<and> one_of_uids old eu \<and> one_of_uids old su)
        then (- EPERM, t)
        else
          let new1 = (if ru \<noteq> no_id then old\<lparr>uid := ru\<rparr> else old);
              (retval, new2, t') = (if ru \<noteq> no_id \<and> ru \<noteq> uid old then set_user E new1 t
                                    else (0, new1, t))
          in if retval < 0 then (retval, t')
             else
               let new3 = (if eu \<noteq> no_id then new2\<lparr>euid := eu\<rparr> else new2);
                   new4 = (if su \<noteq> no_id then new3\<lparr>suid := su\<rparr> else new3)
               in fix_and_commit E LSM_SETID_RES (new4\<lparr>fsuid := euid new4\<rparr>) old t')"

definition one_of_gids :: "cred \<Rightarrow> kid \<Rightarrow> bool" where
  "one_of_gids old g \<longleftrightarrow> g = no_id \<or> g = gid old \<or> g = egid old \<or> g = sgid old"

definition setresgid :: "cred_env \<Rightarrow> kid \<Rightarrow> kid \<Rightarrow> kid \<Rightarrow> task \<Rightarrow> int \<times> task" where
  "setresgid E rg eg sg t =
     (if \<not> prepare_ok E then (- ENOMEM, t)
      else
        let old = tcred t in
        if \<not> cap_setgid E old \<and> \<not> (one_of_gids old rg \<and> one_of_gids old eg \<and> one_of_gids old sg)
        then (- EPERM, t)
        else
          let new1 = (if rg \<noteq> no_id then old\<lparr>gid := rg\<rparr> else old);
              new2 = (if eg \<noteq> no_id then new1\<lparr>egid := eg\<rparr> else new1);
              new3 = (if sg \<noteq> no_id then new2\<lparr>sgid := sg\<rparr> else new2)
          in commit_creds (new3\<lparr>fsgid := egid new3\<rparr>) t)"

text \<open>\<open>setfsuid\<close> and \<open>setfsgid\<close> return the previous id whatever happens, as an \<open>int\<close>.\<close>

definition setfsuid :: "cred_env \<Rightarrow> kid \<Rightarrow> task \<Rightarrow> int \<times> task" where
  "setfsuid E u t =
     (let old = tcred t; old_fsuid = sint (fsuid old) in
      if \<not> prepare_ok E then (old_fsuid, t)
      else if (u = uid old \<or> u = euid old \<or> u = suid old \<or> u = fsuid old \<or> cap_setuid E old)
              \<and> u \<noteq> fsuid old
      then let (retval, new') = fix_setuid E (old\<lparr>fsuid := u\<rparr>) old LSM_SETID_FS
           in if retval = 0 then (old_fsuid, snd (commit_creds new' t)) else (old_fsuid, t)
      else (old_fsuid, t))"

definition setfsgid :: "cred_env \<Rightarrow> kid \<Rightarrow> task \<Rightarrow> int \<times> task" where
  "setfsgid E g t =
     (let old = tcred t; old_fsgid = sint (fsgid old) in
      if \<not> prepare_ok E then (old_fsgid, t)
      else if (g = gid old \<or> g = egid old \<or> g = sgid old \<or> g = fsgid old \<or> cap_setgid E old)
              \<and> g \<noteq> fsgid old
      then (old_fsgid, snd (commit_creds (old\<lparr>fsgid := g\<rparr>) t))
      else (old_fsgid, t))"

text \<open>\<open>put_user\<close>: write an id to a user address or fail with \<open>-EFAULT\<close>; the user's memory is a
  map, and the calls stop at the first failure.\<close>

type_synonym umem = "nat \<rightharpoonup> kid"

definition put_user :: "cred_env \<Rightarrow> kid \<Rightarrow> nat \<Rightarrow> umem \<Rightarrow> int \<times> umem" where
  "put_user E x p m = (if writable E p then (0, m(p \<mapsto> x)) else (- EFAULT, m))"

definition put3 :: "cred_env \<Rightarrow> kid \<Rightarrow> kid \<Rightarrow> kid \<Rightarrow> nat \<Rightarrow> nat \<Rightarrow> nat \<Rightarrow> umem \<Rightarrow> int \<times> umem" where
  "put3 E x y z p q r m =
     (let (ret, m1) = put_user E x p m in
      if ret \<noteq> 0 then (ret, m1)
      else let (ret, m2) = put_user E y q m1 in
        if ret \<noteq> 0 then (ret, m2) else put_user E z r m2)"

definition getresuid :: "cred_env \<Rightarrow> nat \<Rightarrow> nat \<Rightarrow> nat \<Rightarrow> task \<Rightarrow> umem \<Rightarrow> int \<times> umem" where
  "getresuid E p q r t m = put3 E (uid (tcred t)) (euid (tcred t)) (suid (tcred t)) p q r m"

definition getresgid :: "cred_env \<Rightarrow> nat \<Rightarrow> nat \<Rightarrow> nat \<Rightarrow> task \<Rightarrow> umem \<Rightarrow> int \<times> umem" where
  "getresgid E p q r t m = put3 E (gid (tcred t)) (egid (tcred t)) (sgid (tcred t)) p q r m"

section \<open>Sequences of calls\<close>

datatype cred_call =
    Setregid kid kid | Setgid kid | Setreuid kid kid | Setuid kid | Setresuid kid kid kid
  | Setresgid kid kid kid | Setfsuid kid | Setfsgid kid

fun do_call :: "cred_env \<Rightarrow> cred_call \<Rightarrow> task \<Rightarrow> int \<times> task" where
  "do_call E (Setregid r e) t = setregid E r e t"
| "do_call E (Setgid g) t = setgid E g t"
| "do_call E (Setreuid r e) t = setreuid E r e t"
| "do_call E (Setuid u) t = setuid E u t"
| "do_call E (Setresuid r e s) t = setresuid E r e s t"
| "do_call E (Setresgid r e s) t = setresgid E r e s t"
| "do_call E (Setfsuid u) t = setfsuid E u t"
| "do_call E (Setfsgid g) t = setfsgid E g t"

text \<open>The hook \<open>security_task_fix_setuid\<close> may veto and may change capabilities, not ids.\<close>

definition same_ids :: "cred \<Rightarrow> cred \<Rightarrow> bool" where
  "same_ids a b \<longleftrightarrow> uid a = uid b \<and> euid a = euid b \<and> suid a = suid b \<and> fsuid a = fsuid b \<and>
     gid a = gid b \<and> egid a = egid b \<and> sgid a = sgid b \<and> fsgid a = fsgid b"

definition lsm_ok :: "cred_env \<Rightarrow> bool" where
  "lsm_ok E \<longleftrightarrow> (\<forall>new old flag. same_ids (snd (fix_setuid E new old flag)) new)"

text \<open>A sequence of calls each made without the two capabilities.\<close>

fun unprivileged :: "(cred_env \<times> cred_call) list \<Rightarrow> task \<Rightarrow> bool" where
  "unprivileged [] t \<longleftrightarrow> True"
| "unprivileged ((E, c) # cs) t \<longleftrightarrow>
     lsm_ok E \<and> \<not> cap_setuid E (tcred t) \<and> \<not> cap_setgid E (tcred t) \<and>
     unprivileged cs (snd (do_call E c t))"

definition run_calls :: "(cred_env \<times> cred_call) list \<Rightarrow> task \<Rightarrow> task" where
  "run_calls cs t = fold (\<lambda>(E, c) t. snd (do_call E c t)) cs t"

definition res_uids :: "cred \<Rightarrow> kid set" where "res_uids c = {uid c, euid c, suid c}"
definition res_gids :: "cred \<Rightarrow> kid set" where "res_gids c = {gid c, egid c, sgid c}"

text \<open>\<open>b\<close> has no id that \<open>a\<close> did not have.\<close>

definition confined :: "cred \<Rightarrow> cred \<Rightarrow> bool" where
  "confined a b \<longleftrightarrow> res_uids b \<subseteq> res_uids a \<and> fsuid b \<in> insert (fsuid a) (res_uids a) \<and>
     res_gids b \<subseteq> res_gids a \<and> fsgid b \<in> insert (fsgid a) (res_gids a)"

lemma confined_refl [simp]: "confined a a"
  by (simp add: confined_def)

lemma confined_trans: "confined a b \<Longrightarrow> confined b c \<Longrightarrow> confined a c"
  by (auto simp: confined_def)

lemma confined_same_ids: "confined a b \<Longrightarrow> same_ids c b \<Longrightarrow> confined a c"
  by (simp add: confined_def same_ids_def res_uids_def res_gids_def)

text \<open>\<open>set_user\<close> and the security module leave the ids alone.\<close>

lemma set_user_ids:
  assumes "set_user E new t = (r, new', t')"
  shows "same_ids new' new" "tcred t' = tcred t"
  using assms by (auto simp: set_user_def same_ids_def split: option.splits)

lemma fix_and_commit_cases:
  assumes "lsm_ok E"
  obtains (veto) r where "fix_and_commit E flag new old t = (r, t)" "r < 0"
    | (ok) new' where "fix_and_commit E flag new old t = (0, t\<lparr>tcred := new'\<rparr>)" "same_ids new' new"
proof (cases "fix_setuid E new old flag")
  case (Pair r new')
  then have ids: "same_ids new' new" using assms by (metis lsm_ok_def snd_conv)
  show ?thesis
  proof (cases "r < 0")
    case True
    then show ?thesis using Pair veto by (simp add: fix_and_commit_def)
  next
    case False
    then show ?thesis using Pair ok ids by (simp add: fix_and_commit_def commit_creds_def)
  qed
qed

lemma maybe_set_user:
  assumes "(if b then set_user E N t else (0, N, t)) = (r, M, t')"
  shows "same_ids M N \<and> tcred t' = tcred t"
proof (cases b)
  case True
  then show ?thesis using assms set_user_ids [of E N t r M t'] by simp
next
  case False
  then show ?thesis using assms by (simp add: same_ids_def)
qed

text \<open>The three \<open>set*uid\<close> calls with a fixed continuation: an error before the commit, or the ids
  that were computed.\<close>

lemma setreuid_cases:
  assumes "lsm_ok E"
  obtains (err) r where "fst (setreuid E ru eu t) = r" "r < 0" "tcred (snd (setreuid E ru eu t)) = tcred t"
    | (ok) c where "fst (setreuid E ru eu t) = 0" "tcred (snd (setreuid E ru eu t)) = c"
      "prepare_ok E"
      "ru = no_id \<or> uid (tcred t) = ru \<or> euid (tcred t) = ru \<or> cap_setuid E (tcred t)"
      "eu = no_id \<or> uid (tcred t) = eu \<or> euid (tcred t) = eu \<or> suid (tcred t) = eu \<or> cap_setuid E (tcred t)"
      "uid c = (if ru \<noteq> no_id then ru else uid (tcred t))"
      "euid c = (if eu \<noteq> no_id then eu else euid (tcred t))"
      "suid c = (if ru \<noteq> no_id \<or> eu \<noteq> no_id \<and> eu \<noteq> uid (tcred t) then euid c else suid (tcred t))"
      "fsuid c = euid c" "res_gids c = res_gids (tcred t)" "fsgid c = fsgid (tcred t)"
proof -
  let ?old = "tcred t"
  define N where "N = (if eu \<noteq> no_id then (if ru \<noteq> no_id then ?old\<lparr>uid := ru\<rparr> else ?old)\<lparr>euid := eu\<rparr>
             else (if ru \<noteq> no_id then ?old\<lparr>uid := ru\<rparr> else ?old))"
  have N: "uid N = (if ru \<noteq> no_id then ru else uid ?old)" "euid N = (if eu \<noteq> no_id then eu else euid ?old)"
    "suid N = suid ?old" "gid N = gid ?old" "egid N = egid ?old" "sgid N = sgid ?old" "fsgid N = fsgid ?old"
    by (simp_all add: N_def)
  obtain r M t' where u: "(if uid N \<noteq> uid ?old then set_user E N t else (0, N, t)) = (r, M, t')"
    by (metis prod_cases3)
  have M: "same_ids M N \<and> tcred t' = ?old" using maybe_set_user [OF u] by simp
  define P where "P \<longleftrightarrow> ru \<noteq> no_id \<and> uid ?old \<noteq> ru \<and> euid ?old \<noteq> ru \<and> \<not> cap_setuid E ?old"
  define Q where "Q \<longleftrightarrow> eu \<noteq> no_id \<and> uid ?old \<noteq> eu \<and> euid ?old \<noteq> eu \<and> suid ?old \<noteq> eu \<and> \<not> cap_setuid E ?old"
  define R where "R = (if ru \<noteq> no_id \<or> (eu \<noteq> no_id \<and> eu \<noteq> uid ?old) then M\<lparr>suid := euid M\<rparr> else M)"
  have eq: "setreuid E ru eu t = (if \<not> prepare_ok E then (- ENOMEM, t) else if P then (- EPERM, t)
      else if Q then (- EPERM, t) else if r < 0 then (r, t')
      else fix_and_commit E LSM_SETID_RE (R\<lparr>fsuid := euid R\<rparr>) ?old t')"
    unfolding setreuid_def Let_def N_def [symmetric] u prod.case P_def [symmetric] Q_def [symmetric]
      R_def [symmetric] by (rule refl)
  show ?thesis
  proof (cases "prepare_ok E \<and> \<not> P \<and> \<not> Q \<and> \<not> r < 0")
    case False
    have "fst (setreuid E ru eu t) < 0" "tcred (snd (setreuid E ru eu t)) = ?old"
      using False M unfolding eq by (auto simp: errnos)
    then show ?thesis using err by blast
  next
    case True
    then have eq': "setreuid E ru eu t = fix_and_commit E LSM_SETID_RE (R\<lparr>fsuid := euid R\<rparr>) ?old t'"
      unfolding eq by simp
    from assms show ?thesis
    proof (cases rule: fix_and_commit_cases [of E LSM_SETID_RE "R\<lparr>fsuid := euid R\<rparr>" ?old t'])
      case (veto r')
      then show ?thesis using err [of r'] eq' M by simp
    next
      case (ok c)
      have R: "uid R = uid N" "euid R = euid N" "gid R = gid N" "egid R = egid N" "sgid R = sgid N"
        "fsgid R = fsgid N"
        "suid R = (if ru \<noteq> no_id \<or> (eu \<noteq> no_id \<and> eu \<noteq> uid ?old) then euid N else suid ?old)"
        using M N(3) by (simp_all add: R_def same_ids_def)
      have c: "uid c = uid N" "euid c = euid N" "suid c = suid R" "fsuid c = euid N"
        "res_gids c = res_gids ?old" "fsgid c = fsgid ?old"
        using ok(2) R N by (simp_all add: same_ids_def res_gids_def)
      have "P \<or> (ru = no_id \<or> uid ?old = ru \<or> euid ?old = ru \<or> cap_setuid E ?old)"
        "Q \<or> (eu = no_id \<or> uid ?old = eu \<or> euid ?old = eu \<or> suid ?old = eu \<or> cap_setuid E ?old)"
        by (auto simp: P_def Q_def)
      then show ?thesis
        using that(2) [of c] ok(1) eq' True c R(7) N(1,2) by simp
    qed
  qed
qed

lemma setuid_cases:
  assumes "lsm_ok E"
  obtains (err) r where "fst (setuid E u t) = r" "r < 0" "tcred (snd (setuid E u t)) = tcred t"
    | (ok) c where "fst (setuid E u t) = 0" "tcred (snd (setuid E u t)) = c" "prepare_ok E"
      "cap_setuid E (tcred t) \<or> u = uid (tcred t) \<or> u = suid (tcred t)"
      "uid c = (if cap_setuid E (tcred t) then u else uid (tcred t))"
      "suid c = (if cap_setuid E (tcred t) then u else suid (tcred t))"
      "euid c = u" "fsuid c = u" "res_gids c = res_gids (tcred t)" "fsgid c = fsgid (tcred t)"
proof -
  let ?old = "tcred t"
  define N where "N = (if cap_setuid E ?old then ?old\<lparr>suid := u, uid := u\<rparr> else ?old)"
  obtain r M t' where u: "(if cap_setuid E ?old \<and> u \<noteq> uid ?old then set_user E N t else (0, N, t)) = (r, M, t')"
    by (metis prod_cases3)
  have M: "same_ids M N \<and> tcred t' = ?old" using maybe_set_user [OF u] by simp
  define P where "P \<longleftrightarrow> \<not> cap_setuid E ?old \<and> u \<noteq> uid ?old \<and> u \<noteq> suid ?old"
  have eq: "setuid E u t = (if \<not> prepare_ok E then (- ENOMEM, t) else if P then (- EPERM, t)
      else if r < 0 then (r, t')
      else fix_and_commit E LSM_SETID_ID (M\<lparr>euid := u, fsuid := u\<rparr>) ?old t')"
    unfolding setuid_def Let_def N_def [symmetric] u prod.case P_def [symmetric] by (rule refl)
  show ?thesis
  proof (cases "prepare_ok E \<and> \<not> P \<and> \<not> r < 0")
    case False
    have "fst (setuid E u t) < 0" "tcred (snd (setuid E u t)) = ?old"
      using False M unfolding eq by (auto simp: errnos)
    then show ?thesis using err by blast
  next
    case True
    then have eq': "setuid E u t = fix_and_commit E LSM_SETID_ID (M\<lparr>euid := u, fsuid := u\<rparr>) ?old t'"
      unfolding eq by simp
    from assms show ?thesis
    proof (cases rule: fix_and_commit_cases [of E LSM_SETID_ID "M\<lparr>euid := u, fsuid := u\<rparr>" ?old t'])
      case (veto r')
      then show ?thesis using err [of r'] eq' M by simp
    next
      case (ok c)
      have "uid c = uid N" "suid c = suid N" "euid c = u" "fsuid c = u" "gid c = gid N" "egid c = egid N"
        "sgid c = sgid N" "fsgid c = fsgid N"
        using ok(2) M by (simp_all add: same_ids_def)
      then show ?thesis
        using that(2) [of c] ok(1) eq' True by (simp add: N_def P_def res_gids_def)
    qed
  qed
qed

lemma setresuid_cases:
  assumes "lsm_ok E"
  obtains (err) r where "fst (setresuid E ru eu su t) = r" "r < 0"
      "tcred (snd (setresuid E ru eu su t)) = tcred t"
    | (ok) c where "fst (setresuid E ru eu su t) = 0" "tcred (snd (setresuid E ru eu su t)) = c"
      "prepare_ok E"
      "cap_setuid E (tcred t) \<or>
       one_of_uids (tcred t) ru \<and> one_of_uids (tcred t) eu \<and> one_of_uids (tcred t) su"
      "uid c = (if ru \<noteq> no_id then ru else uid (tcred t))"
      "euid c = (if eu \<noteq> no_id then eu else euid (tcred t))"
      "suid c = (if su \<noteq> no_id then su else suid (tcred t))"
      "fsuid c = euid c" "res_gids c = res_gids (tcred t)" "fsgid c = fsgid (tcred t)"
proof -
  let ?old = "tcred t"
  define N where "N = (if ru \<noteq> no_id then ?old\<lparr>uid := ru\<rparr> else ?old)"
  have N: "uid N = (if ru \<noteq> no_id then ru else uid ?old)" "euid N = euid ?old" "suid N = suid ?old"
    "gid N = gid ?old" "egid N = egid ?old" "sgid N = sgid ?old" "fsgid N = fsgid ?old"
    by (simp_all add: N_def)
  obtain r M t' where u: "(if ru \<noteq> no_id \<and> ru \<noteq> uid ?old then set_user E N t else (0, N, t)) = (r, M, t')"
    by (metis prod_cases3)
  have M: "same_ids M N \<and> tcred t' = ?old" using maybe_set_user [OF u] by simp
  define P where "P \<longleftrightarrow> \<not> cap_setuid E ?old \<and>
    \<not> (one_of_uids ?old ru \<and> one_of_uids ?old eu \<and> one_of_uids ?old su)"
  define R where "R = (if su \<noteq> no_id then (if eu \<noteq> no_id then M\<lparr>euid := eu\<rparr> else M)\<lparr>suid := su\<rparr>
    else (if eu \<noteq> no_id then M\<lparr>euid := eu\<rparr> else M))"
  have eq: "setresuid E ru eu su t = (if \<not> prepare_ok E then (- ENOMEM, t) else if P then (- EPERM, t)
      else if r < 0 then (r, t')
      else fix_and_commit E LSM_SETID_RES (R\<lparr>fsuid := euid R\<rparr>) ?old t')"
    unfolding setresuid_def Let_def N_def [symmetric] u prod.case P_def [symmetric] R_def [symmetric]
    by (rule refl)
  show ?thesis
  proof (cases "prepare_ok E \<and> \<not> P \<and> \<not> r < 0")
    case False
    have "fst (setresuid E ru eu su t) < 0" "tcred (snd (setresuid E ru eu su t)) = ?old"
      using False M unfolding eq by (auto simp: errnos)
    then show ?thesis using err by blast
  next
    case True
    then have eq': "setresuid E ru eu su t = fix_and_commit E LSM_SETID_RES (R\<lparr>fsuid := euid R\<rparr>) ?old t'"
      unfolding eq by simp
    from assms show ?thesis
    proof (cases rule: fix_and_commit_cases [of E LSM_SETID_RES "R\<lparr>fsuid := euid R\<rparr>" ?old t'])
      case (veto r')
      then show ?thesis using err [of r'] eq' M by simp
    next
      case (ok c)
      have "uid R = uid N" "euid R = (if eu \<noteq> no_id then eu else euid N)"
        "suid R = (if su \<noteq> no_id then su else suid N)" "gid R = gid N" "egid R = egid N"
        "sgid R = sgid N" "fsgid R = fsgid N"
        using M by (simp_all add: R_def same_ids_def)
      then have "uid c = uid N" "euid c = (if eu \<noteq> no_id then eu else euid ?old)" "fsuid c = euid c"
        "suid c = (if su \<noteq> no_id then su else suid ?old)" "gid c = gid ?old" "egid c = egid ?old"
        "sgid c = sgid ?old" "fsgid c = fsgid ?old"
        using ok(2) N by (simp_all add: same_ids_def)
      then show ?thesis
        using that(2) [of c] ok(1) eq' True N unfolding P_def
        by (simp add: res_gids_def) argo
    qed
  qed
qed

section \<open>No call adds an id\<close>

lemma gid_calls_confined:
  assumes "\<not> cap_setgid E (tcred t)"
  shows "confined (tcred t) (tcred (snd (setregid E r e t)))"
    "confined (tcred t) (tcred (snd (setgid E g t)))"
    "confined (tcred t) (tcred (snd (setresgid E r e q t)))"
    "confined (tcred t) (tcred (snd (setfsgid E g t)))"
proof -
  show "confined (tcred t) (tcred (snd (setregid E r e t)))"
    using assms by (auto simp: setregid_def Let_def commit_creds_def confined_def res_uids_def res_gids_def)
  show "confined (tcred t) (tcred (snd (setgid E g t)))"
    using assms by (auto simp: setgid_def Let_def commit_creds_def confined_def res_uids_def res_gids_def)
  show "confined (tcred t) (tcred (snd (setresgid E r e q t)))"
    using assms by (auto simp: setresgid_def Let_def commit_creds_def confined_def res_uids_def
        res_gids_def one_of_gids_def)
  show "confined (tcred t) (tcred (snd (setfsgid E g t)))"
    using assms by (auto simp: setfsgid_def Let_def commit_creds_def confined_def res_uids_def res_gids_def)
qed

lemma setfsuid_confined:
  assumes "lsm_ok E" "\<not> cap_setuid E (tcred t)"
  shows "confined (tcred t) (tcred (snd (setfsuid E u t)))"
proof (cases "fix_setuid E ((tcred t)\<lparr>fsuid := u\<rparr>) (tcred t) LSM_SETID_FS")
  case (Pair r c)
  then have "same_ids c ((tcred t)\<lparr>fsuid := u\<rparr>)" using assms(1) by (metis lsm_ok_def snd_conv)
  then show ?thesis
    using assms(2) Pair
    by (auto simp: setfsuid_def Let_def commit_creds_def confined_def res_uids_def res_gids_def same_ids_def)
qed

lemma confinedI:
  assumes "uid c \<in> res_uids a" "euid c \<in> res_uids a" "suid c \<in> res_uids a" "fsuid c = euid c"
    "res_gids c = res_gids a" "fsgid c = fsgid a"
  shows "confined a c"
  using assms by (simp add: confined_def res_uids_def [of c])

lemma setreuid_confined:
  assumes "lsm_ok E" "\<not> cap_setuid E (tcred t)"
  shows "confined (tcred t) (tcred (snd (setreuid E r e t)))"
  using assms(1)
proof (cases rule: setreuid_cases [of E r e t])
  case (ok c)
  have "uid c \<in> res_uids (tcred t)" using ok(4,6) assms(2) by (auto simp: res_uids_def)
  moreover have e: "euid c \<in> res_uids (tcred t)" using ok(5,7) assms(2) by (auto simp: res_uids_def)
  moreover have "suid c \<in> res_uids (tcred t)"
    using e ok(8) by (cases "suid c = euid c") (auto simp: res_uids_def split: if_splits)
  ultimately show ?thesis using ok(2,9-11) confinedI by simp
qed simp

lemma setuid_confined:
  assumes "lsm_ok E" "\<not> cap_setuid E (tcred t)"
  shows "confined (tcred t) (tcred (snd (setuid E u t)))"
  using assms(1)
proof (cases rule: setuid_cases [of E u t])
  case (ok c)
  have "uid c \<in> res_uids (tcred t)" "suid c \<in> res_uids (tcred t)"
    using ok(5,6) assms(2) by (simp_all add: res_uids_def)
  moreover have "euid c \<in> res_uids (tcred t)" using ok(4,7) assms(2) by (auto simp: res_uids_def)
  ultimately show ?thesis using ok(2,7-10) confinedI by simp
qed simp

lemma one_of_uids_res: "one_of_uids a u \<Longrightarrow> u \<noteq> no_id \<Longrightarrow> u \<in> res_uids a"
  by (auto simp: one_of_uids_def res_uids_def)

lemma setresuid_confined:
  assumes "lsm_ok E" "\<not> cap_setuid E (tcred t)"
  shows "confined (tcred t) (tcred (snd (setresuid E r e q t)))"
  using assms(1)
proof (cases rule: setresuid_cases [of E r e q t])
  case (ok c)
  have o: "one_of_uids (tcred t) r" "one_of_uids (tcred t) e" "one_of_uids (tcred t) q"
    using ok(4) assms(2) by simp_all
  have "uid c \<in> res_uids (tcred t)" using ok(5) one_of_uids_res [OF o(1)] by (simp add: res_uids_def)
  moreover have "euid c \<in> res_uids (tcred t)" using ok(6) one_of_uids_res [OF o(2)] by (simp add: res_uids_def)
  moreover have "suid c \<in> res_uids (tcred t)" using ok(7) one_of_uids_res [OF o(3)] by (simp add: res_uids_def)
  ultimately show ?thesis using ok(2,8-10) confinedI by simp
qed simp

lemmas uid_calls_confined = setreuid_confined setuid_confined setresuid_confined

lemma call_confined:
  assumes "lsm_ok E" "\<not> cap_setuid E (tcred t)" "\<not> cap_setgid E (tcred t)"
  shows "confined (tcred t) (tcred (snd (do_call E c t)))"
  using assms gid_calls_confined setfsuid_confined uid_calls_confined by (cases c) simp_all

interpretation cred_calls: guarded_calls "\<lambda>(E, c) t. snd (do_call E c t)"
  "\<lambda>(E, c) t. lsm_ok E \<and> \<not> cap_setuid E (tcred t) \<and> \<not> cap_setgid E (tcred t)"
  "\<lambda>t t'. confined (tcred t) (tcred t')"
  by unfold_locales (auto simp: call_confined split: prod.splits intro: confined_trans)

lemma unprivileged_allowed:
  "unprivileged cs t \<longleftrightarrow> all_allowed (\<lambda>(E, c) t. snd (do_call E c t))
     (\<lambda>(E, c) t. lsm_ok E \<and> \<not> cap_setuid E (tcred t) \<and> \<not> cap_setgid E (tcred t)) cs t"
  by (induction cs t rule: unprivileged.induct) auto

lemma run_confined: "unprivileged cs t \<Longrightarrow> confined (tcred t) (tcred (run_calls cs t))"
  unfolding run_calls_def unprivileged_allowed by (rule cred_calls.rel_calls)

section \<open>Properties\<close>

text \<open>
  C7. A process without the capabilities cannot acquire an id: after any sequence of the eight
  calls made without CAP_SETUID and CAP_SETGID, its real, effective and saved user ids are among
  the three it started with, its file system id among those and the old one, and likewise for the
  group ids.
\<close>

theorem ids_confined:
  assumes "unprivileged cs t"
  shows "res_uids (tcred (run_calls cs t)) \<subseteq> res_uids (tcred t) \<and>
    fsuid (tcred (run_calls cs t)) \<in> insert (fsuid (tcred t)) (res_uids (tcred t)) \<and>
    res_gids (tcred (run_calls cs t)) \<subseteq> res_gids (tcred t) \<and>
    fsgid (tcred (run_calls cs t)) \<in> insert (fsgid (tcred t)) (res_gids (tcred t))"
  using run_confined [OF assms] by (simp add: confined_def)

text \<open>An environment for examples: nothing fails, capabilities as given.\<close>

definition demo_env :: "bool \<Rightarrow> cred_env" where
  "demo_env priv =
     \<lparr>prepare_ok = True, cap_setuid = (\<lambda>_. priv), cap_setgid = (\<lambda>_. priv), alloc_uid = (\<lambda>u. Some (unat u)),
      over_nproc = (\<lambda>_. False), fix_setuid = (\<lambda>new old flag. (0, new)), writable = (\<lambda>_. True)\<rparr>"

definition demo_task :: "kid \<Rightarrow> kid \<Rightarrow> kid \<Rightarrow> task" where
  "demo_task r e s =
     \<lparr>tcred = \<lparr>uid = r, euid = e, suid = s, fsuid = e, gid = 100, egid = 100, sgid = 100, fsgid = 100,
              user = 0, caps = {}\<rparr>, nproc_exceeded = False\<rparr>"

lemma demo_lsm_ok [simp]: "lsm_ok (demo_env p)"
  by (simp add: lsm_ok_def demo_env_def same_ids_def)

lemma demo_caps [simp]: "writable (demo_env p) a" "cap_setuid (demo_env p) c = p" "cap_setgid (demo_env p) c = p"
  by (simp_all add: demo_env_def)

corollary ids_confined_witness:
  "res_uids (tcred (run_calls [(demo_env False, Setreuid 0 1000), (demo_env False, Setuid 0)]
     (demo_task 1000 0 0))) \<subseteq> {1000, 0}"
  using ids_confined [of "[(demo_env False, Setreuid 0 1000), (demo_env False, Setuid 0)]" "demo_task 1000 0 0"]
  by (simp add: demo_task_def res_uids_def)

text \<open>
  C8. Privileges can be dropped for good: after a successful \<open>setuid(u)\<close> with CAP_SETUID, or a
  successful \<open>setreuid(u, u)\<close> or \<open>setresuid(u, u, u)\<close> of any process, all four user ids are \<open>u\<close>,
  and no later sequence of unprivileged calls changes one of them.
\<close>

theorem drop_is_irrevocable:
  assumes "lsm_ok E" "u \<noteq> no_id"
    and "c = Setuid u \<and> cap_setuid E (tcred t) \<or> c = Setreuid u u \<or> c = Setresuid u u u"
    and "do_call E c t = (0, t')" "unprivileged cs t'"
  shows "res_uids (tcred (run_calls cs t')) = {u} \<and> fsuid (tcred (run_calls cs t')) = u"
proof -
  have t': "fst (do_call E c t) = 0" "snd (do_call E c t) = t'" using assms(4) by simp_all
  have "uid (tcred t') = u \<and> euid (tcred t') = u \<and> suid (tcred t') = u \<and> fsuid (tcred t') = u"
    using assms(3)
  proof (elim disjE conjE)
    assume "c = Setreuid u u"
    with assms(1) t' show ?thesis
      by (cases rule: setreuid_cases [of E u u t]) (use assms(2) in auto)
  next
    assume "c = Setresuid u u u"
    with assms(1) t' show ?thesis
      by (cases rule: setresuid_cases [of E u u u t]) (use assms(2) in auto)
  next
    assume "c = Setuid u" "cap_setuid E (tcred t)"
    with assms(1) t' show ?thesis by (cases rule: setuid_cases [of E u t]) auto
  qed
  then have "res_uids (tcred t') = {u}" "fsuid (tcred t') = u" by (simp_all add: res_uids_def)
  then show ?thesis
    using run_confined [OF assms(5)] by (auto simp: confined_def res_uids_def)
qed

corollary drop_is_irrevocable_witness:
  "res_uids (tcred (run_calls [(demo_env False, Setuid 0)]
     (snd (setuid (demo_env True) 1000 (demo_task 0 0 0))))) = {1000}"
proof -
  have "do_call (demo_env True) (Setuid 1000) (demo_task 0 0 0)
      = (0, snd (setuid (demo_env True) 1000 (demo_task 0 0 0)))"
    by (simp add: setuid_def set_user_def fix_and_commit_def commit_creds_def demo_env_def
        demo_task_def Let_def)
  then show ?thesis
    using drop_is_irrevocable [of "demo_env True" 1000 "Setuid 1000" "demo_task 0 0 0" _
        "[(demo_env False, Setuid 0)]"]
    by (simp add: no_id_def)
qed

text \<open>A call that reports errors has committed with 0 or failed and kept the credentials.\<close>

definition clean_result :: "task \<Rightarrow> int \<times> task \<Rightarrow> bool" where
  "clean_result t p \<longleftrightarrow> fst p = 0 \<or> fst p < 0 \<and> tcred (snd p) = tcred t"

lemma gid_call_results:
  shows "clean_result t (setregid E r e t)" "clean_result t (setgid E g t)"
    "clean_result t (setresgid E r e q t)"
proof -
  show "clean_result t (setregid E r e t)"
    by (auto simp: setregid_def Let_def commit_creds_def errnos clean_result_def)
  show "clean_result t (setgid E g t)"
    by (auto simp: setgid_def Let_def commit_creds_def errnos clean_result_def)
  show "clean_result t (setresgid E r e q t)"
    by (auto simp: setresgid_def Let_def commit_creds_def errnos clean_result_def)
qed

lemma uid_call_results:
  assumes "lsm_ok E"
  shows "clean_result t (setreuid E r e t)" "clean_result t (setuid E u t)"
    "clean_result t (setresuid E r e q t)"
proof -
  from assms show "clean_result t (setreuid E r e t)"
    by (cases rule: setreuid_cases [of E r e t]) (simp_all add: clean_result_def)
  from assms show "clean_result t (setuid E u t)"
    by (cases rule: setuid_cases [of E u t]) (simp_all add: clean_result_def)
  from assms show "clean_result t (setresuid E r e q t)"
    by (cases rule: setresuid_cases [of E r e q t]) (simp_all add: clean_result_def)
qed

text \<open>
  C38. A call that fails changes no credential: whenever one of the six \<open>set*id\<close> calls that report
  errors returns a negative value, the credentials are the old ones; none of them returns a
  positive value, provided the security module does not; and \<open>setfsuid\<close>, \<open>setfsgid\<close> return the old id
  whether they changed it or not.
\<close>

theorem failed_call_changes_nothing:
  assumes "lsm_ok E"
  shows "((\<exists>u. c = Setfsuid u) \<or> (\<exists>g. c = Setfsgid g) \<or>
      fst (do_call E c t) = 0 \<or> fst (do_call E c t) < 0 \<and> tcred (snd (do_call E c t)) = tcred t)
    \<and> fst (setfsuid E u t) = sint (fsuid (tcred t)) \<and> fst (setfsgid E g t) = sint (fsgid (tcred t))"
proof -
  have "(\<exists>u. c = Setfsuid u) \<or> (\<exists>g. c = Setfsgid g) \<or>
      fst (do_call E c t) = 0 \<or> fst (do_call E c t) < 0 \<and> tcred (snd (do_call E c t)) = tcred t"
    using uid_call_results [OF assms] gid_call_results
    unfolding clean_result_def by (cases c) simp_all
  moreover have "fst (setfsuid E u t) = sint (fsuid (tcred t))" "fst (setfsgid E g t) = sint (fsgid (tcred t))"
    by (simp_all add: setfsuid_def setfsgid_def Let_def split_beta)
  ultimately show ?thesis by blast
qed

corollary failed_call_changes_nothing_witness:
  "fst (do_call (demo_env False) (Setuid 5) (demo_task 1000 1000 1000)) < 0 \<and>
   tcred (snd (do_call (demo_env False) (Setuid 5) (demo_task 1000 1000 1000)))
     = tcred (demo_task 1000 1000 1000)"
proof -
  have "fst (do_call (demo_env False) (Setuid 5) (demo_task 1000 1000 1000)) = - EPERM"
    by (simp add: setuid_def demo_env_def demo_task_def Let_def)
  then show ?thesis
    using failed_call_changes_nothing [of "demo_env False" "Setuid 5" "demo_task 1000 1000 1000" 0 0]
    by (simp add: EPERM_def)
qed

definition calls_succeed :: "cred_env \<Rightarrow> bool" where
  "calls_succeed E \<longleftrightarrow> prepare_ok E \<and> (\<forall>u. alloc_uid E u \<noteq> None) \<and>
     (\<forall>new old flag. fst (fix_setuid E new old flag) = 0)"

lemma setreuid_succeeds:
  assumes "calls_succeed E"
    and "ru = no_id \<or> uid (tcred t) = ru \<or> euid (tcred t) = ru \<or> cap_setuid E (tcred t)"
    and "eu = no_id \<or> uid (tcred t) = eu \<or> euid (tcred t) = eu \<or> suid (tcred t) = eu \<or> cap_setuid E (tcred t)"
  shows "fst (setreuid E ru eu t) = 0"
proof -
  have su: "\<exists>new' t'. set_user E new t = (0, new', t')" for new
  proof -
    obtain x where "alloc_uid E (uid new) = Some x" using assms(1) unfolding calls_succeed_def by blast
    then show ?thesis by (simp add: set_user_def)
  qed
  have fc: "fst (fix_and_commit E flag new old t') = 0" for flag new old t'
  proof (cases "fix_setuid E new old flag")
    case (Pair x y)
    moreover have "fst (fix_setuid E new old flag) = 0"
      using assms(1) unfolding calls_succeed_def by blast
    ultimately show ?thesis by (simp add: fix_and_commit_def commit_creds_def)
  qed
  define N where "N = (if eu \<noteq> no_id then (if ru \<noteq> no_id then (tcred t)\<lparr>uid := ru\<rparr> else tcred t)\<lparr>euid := eu\<rparr>
             else (if ru \<noteq> no_id then (tcred t)\<lparr>uid := ru\<rparr> else tcred t))"
  obtain M t' where u: "(if uid N \<noteq> uid (tcred t) then set_user E N t else (0, N, t)) = (0, M, t')"
    using su [of N] by (cases "uid N \<noteq> uid (tcred t)") auto
  have p: "(ru \<noteq> no_id \<and> uid (tcred t) \<noteq> ru \<and> euid (tcred t) \<noteq> ru \<and> \<not> cap_setuid E (tcred t)) = False"
    "(eu \<noteq> no_id \<and> uid (tcred t) \<noteq> eu \<and> euid (tcred t) \<noteq> eu \<and> suid (tcred t) \<noteq> eu \<and>
      \<not> cap_setuid E (tcred t)) = False" "(\<not> prepare_ok E) = False"
    using assms by (auto simp: calls_succeed_def)
  show ?thesis
    unfolding setreuid_def Let_def N_def [symmetric] u prod.case p if_False using fc by simp
qed

text \<open>
  \<open>setreuid(euid, uid)\<close> needs no privilege and swaps the two ids, and doing it twice restores
  them, so a process can give up its effective id for a while; the saved id is then the effective
  one. The calls succeed when memory, \<open>alloc_uid\<close> and the security module allow it.
\<close>

theorem setreuid_swaps:
  assumes "lsm_ok E" "calls_succeed E" "uid (tcred t) \<noteq> no_id" "euid (tcred t) \<noteq> no_id"
    and "setreuid E (euid (tcred t)) (uid (tcred t)) t = (r, t1)"
    and "setreuid E (euid (tcred t1)) (uid (tcred t1)) t1 = (r', t2)"
  shows "r = 0 \<and> uid (tcred t1) = euid (tcred t) \<and> euid (tcred t1) = uid (tcred t) \<and>
    r' = 0 \<and> uid (tcred t2) = uid (tcred t) \<and> euid (tcred t2) = euid (tcred t) \<and>
    suid (tcred t2) = euid (tcred t)"
proof -
  let ?o = "tcred t"
  have r: "r = 0" using setreuid_succeeds [OF assms(2), of "euid ?o" t "uid ?o"] assms(5) by simp
  have t1: "uid (tcred t1) = euid ?o \<and> euid (tcred t1) = uid ?o"
    using assms(1)
    by (cases rule: setreuid_cases [of E "euid ?o" "uid ?o" t]) (use assms(3-5) r in auto)
  have r': "r' = 0"
    using setreuid_succeeds [OF assms(2), of "euid (tcred t1)" t1 "uid (tcred t1)"] assms(6) by simp
  have "uid (tcred t2) = euid (tcred t1) \<and> euid (tcred t2) = uid (tcred t1) \<and>
      suid (tcred t2) = uid (tcred t1)"
    using assms(1)
    by (cases rule: setreuid_cases [of E "euid (tcred t1)" "uid (tcred t1)" t1])
      (use assms(3,4,6) r' t1 in auto)
  then show ?thesis using r r' t1 by simp
qed

corollary setreuid_swaps_witness:
  "uid (tcred (snd (setreuid (demo_env False) 1000 5 (snd (setreuid (demo_env False) 5 1000
     (demo_task 1000 5 7)))))) = 1000"
proof -
  let ?E = "demo_env False" and ?t = "demo_task 1000 5 7"
  have ok: "calls_succeed ?E" by (simp add: calls_succeed_def demo_env_def)
  obtain r t1 where 1: "setreuid ?E 5 1000 ?t = (r, t1)" by (cases "setreuid ?E 5 1000 ?t")
  obtain r' t2 where 2: "setreuid ?E (euid (tcred t1)) (uid (tcred t1)) t1 = (r', t2)"
    by (cases "setreuid ?E (euid (tcred t1)) (uid (tcred t1)) t1")
  have ids: "uid (tcred ?t) = 1000" "euid (tcred ?t) = 5" by (simp_all add: demo_task_def)
  have "uid (tcred t1) = 5 \<and> euid (tcred t1) = 1000 \<and> uid (tcred t2) = 1000"
    using setreuid_swaps [of ?E ?t r t1 r' t2] ok 1 2 ids by (simp add: no_id_def)
  then show ?thesis using 1 2 by simp
qed

text \<open>
  \<open>getresuid\<close> reads back what \<open>setresuid\<close> set: after a successful call with three ids, reading
  into three different writable addresses returns 0 and leaves exactly those ids there; an address
  that cannot be written gives \<open>-EFAULT\<close>.
\<close>

theorem getresuid_reads_back:
  assumes "lsm_ok E" "setresuid E ru eu su t = (0, t')" "ru \<noteq> no_id" "eu \<noteq> no_id" "su \<noteq> no_id"
    and "p \<noteq> q" "q \<noteq> r" "p \<noteq> r"
  shows "if writable E p \<and> writable E q \<and> writable E r
    then getresuid E p q r t' m = (0, m(p \<mapsto> ru, q \<mapsto> eu, r \<mapsto> su))
    else fst (getresuid E p q r t' m) = - EFAULT"
proof -
  have "uid (tcred t') = ru \<and> euid (tcred t') = eu \<and> suid (tcred t') = su"
    using assms(1) by (cases rule: setresuid_cases [of E ru eu su t]) (use assms(2-5) in auto)
  then show ?thesis by (auto simp: getresuid_def put3_def put_user_def errnos)
qed

corollary getresuid_reads_back_witness:
  "getresuid (demo_env True) 1 2 3 (snd (setresuid (demo_env True) 7 8 9 (demo_task 0 0 0))) Map.empty
     = (0, [1 \<mapsto> 7, 2 \<mapsto> 8, 3 \<mapsto> 9])"
proof -
  have "setresuid (demo_env True) 7 8 9 (demo_task 0 0 0)
      = (0, snd (setresuid (demo_env True) 7 8 9 (demo_task 0 0 0)))"
    by (simp add: setresuid_def set_user_def fix_and_commit_def commit_creds_def demo_env_def
        demo_task_def Let_def no_id_def)
  from getresuid_reads_back [OF demo_lsm_ok this, of 1 2 3 Map.empty] show ?thesis
    by (simp add: no_id_def)
qed

end
