(* ===== verification/Pgrp.thy ===== *)
theory Pgrp
  imports Calls
begin

text \<open>
  Process groups and sessions of \<open>preproj2/sys.c\<close>: \<open>setpgid\<close>, \<open>getpgid\<close>, \<open>getpgrp\<close>, \<open>getsid\<close>,
  \<open>setsid\<close>. The task list is a list of records in one pid name space, a \<open>struct pid\<close> is its
  number, and the security hooks are parameters. A thread has the group, the session and the
  leader flag of its group leader, as \<open>task_pgrp\<close>, \<open>task_session\<close> and the shared \<open>signal\<close> say.
\<close>

section \<open>Data\<close>

record ptask =
  pid :: int
  tgid :: int            \<comment> \<open>the pid of its group leader\<close>
  real_parent :: int
  pgrp :: int
  session :: int
  sleader :: bool        \<comment> \<open>\<open>signal->leader\<close>\<close>
  did_exec :: bool

type_synonym tasks = "ptask list"

definition find_task :: "int \<Rightarrow> tasks \<Rightarrow> ptask option" where
  "find_task n ts = find (\<lambda>p. pid p = n) ts"

definition thread_group_leader :: "ptask \<Rightarrow> bool" where
  "thread_group_leader p \<longleftrightarrow> pid p = tgid p"

text \<open>The first task of a process group, \<open>pid_task(find_vpid(n), PIDTYPE_PGID)\<close>.\<close>

definition group_task :: "int \<Rightarrow> tasks \<Rightarrow> ptask option" where
  "group_task n ts = find (\<lambda>p. thread_group_leader p \<and> pgrp p = n) ts"

definition set_task :: "int \<Rightarrow> (ptask \<Rightarrow> ptask) \<Rightarrow> tasks \<Rightarrow> tasks" where
  "set_task n f ts = map (\<lambda>p. if pid p = n then f p else p) ts"

section \<open>The system calls\<close>

text \<open>\<open>gl\<close> is \<open>current->group_leader\<close>.\<close>

definition same_thread_group :: "tasks \<Rightarrow> int \<Rightarrow> ptask \<Rightarrow> bool" where
  "same_thread_group ts n gl = (case find_task n ts of None \<Rightarrow> False | Some q \<Rightarrow> tgid q = tgid gl)"

definition setpgid ::
  "(ptask \<Rightarrow> int \<Rightarrow> int) \<Rightarrow> ptask \<Rightarrow> int \<Rightarrow> int \<Rightarrow> tasks \<Rightarrow> int \<times> tasks" where
  "setpgid security gl pid0 pgid0 ts =
     (let n = (if pid0 = 0 then pid gl else pid0);
          pgid = (if pgid0 = 0 then n else pgid0)
      in if pgid < 0 then (- EINVAL, ts)
         else case find_task n ts of
           None \<Rightarrow> (- ESRCH, ts)
         | Some p \<Rightarrow>
             if \<not> thread_group_leader p then (- EINVAL, ts)
             else
               let child = same_thread_group ts (real_parent p) gl in
               if child \<and> session p \<noteq> session gl then (- EPERM, ts)
               else if child \<and> did_exec p then (- EACCES, ts)
               else if \<not> child \<and> pid p \<noteq> pid gl then (- ESRCH, ts)
               else if sleader p then (- EPERM, ts)
               else if pgid \<noteq> n \<and>
                       (case group_task pgid ts of None \<Rightarrow> True | Some g \<Rightarrow> session g \<noteq> session gl)
               then (- EPERM, ts)
               else
                 let err = security p pgid in
                 if err \<noteq> 0 then (err, ts)
                 else (0, if pgrp p \<noteq> pgid then set_task n (\<lambda>q. q\<lparr>pgrp := pgid\<rparr>) ts else ts))"

text \<open>\<open>task_pgrp\<close> and \<open>task_session\<close>: those of the group leader.\<close>

definition leader_of :: "tasks \<Rightarrow> ptask \<Rightarrow> ptask" where
  "leader_of ts p = (case find_task (tgid p) ts of None \<Rightarrow> p | Some q \<Rightarrow> q)"

definition getpgid :: "(ptask \<Rightarrow> int) \<Rightarrow> ptask \<Rightarrow> int \<Rightarrow> tasks \<Rightarrow> int" where
  "getpgid security cur n ts =
     (if n = 0 then pgrp (leader_of ts cur)
      else case find_task n ts of
        None \<Rightarrow> - ESRCH
      | Some p \<Rightarrow>
          let retval = security p in if retval \<noteq> 0 then retval else pgrp (leader_of ts p))"

definition getpgrp :: "(ptask \<Rightarrow> int) \<Rightarrow> ptask \<Rightarrow> tasks \<Rightarrow> int" where
  "getpgrp security cur ts = getpgid security cur 0 ts"

definition getsid :: "(ptask \<Rightarrow> int) \<Rightarrow> ptask \<Rightarrow> int \<Rightarrow> tasks \<Rightarrow> int" where
  "getsid security cur n ts =
     (if n = 0 then session (leader_of ts cur)
      else case find_task n ts of
        None \<Rightarrow> - ESRCH
      | Some p \<Rightarrow>
          let retval = security p in if retval \<noteq> 0 then retval else session (leader_of ts p))"

definition setsid :: "ptask \<Rightarrow> tasks \<Rightarrow> int \<times> tasks" where
  "setsid gl ts =
     (if sleader gl then (- EPERM, ts)
      else if group_task (pid gl) ts \<noteq> None then (- EPERM, ts)
      else (pid gl, set_task (pid gl) (\<lambda>p. p\<lparr>sleader := True, session := pid gl, pgrp := pid gl\<rparr>) ts))"

section \<open>Groups lie within sessions\<close>

text \<open>
  The processes of one group are in one session; a group whose number is the pid of a process
  is in the session of that process; a session leader leads its session and its group.
\<close>

definition groups_ok :: "tasks \<Rightarrow> bool" where
  "groups_ok ts \<longleftrightarrow>
     distinct (map pid ts) \<and>
     (\<forall>p\<in>set ts. \<forall>q\<in>set ts. thread_group_leader p \<longrightarrow> thread_group_leader q \<longrightarrow>
        (pgrp p = pgrp q \<longrightarrow> session p = session q) \<and> (pgrp q = pid p \<longrightarrow> session q = session p)) \<and>
     (\<forall>p\<in>set ts. thread_group_leader p \<longrightarrow> sleader p \<longrightarrow> session p = pid p \<and> pgrp p = pid p)"

lemma find_task_Some: "find_task n ts = Some p \<Longrightarrow> p \<in> set ts \<and> pid p = n"
  by (auto simp: find_task_def find_Some_iff)

lemma group_task_Some: "group_task n ts = Some p \<Longrightarrow> p \<in> set ts \<and> thread_group_leader p \<and> pgrp p = n"
  by (auto simp: group_task_def find_Some_iff)

lemma group_task_None: "group_task n ts = None \<Longrightarrow> p \<in> set ts \<Longrightarrow> thread_group_leader p \<Longrightarrow> pgrp p \<noteq> n"
  by (auto simp: group_task_def find_None_iff)

lemma unique_pid:
  assumes "distinct (map pid ts)" "p \<in> set ts" "q \<in> set ts" "pid p = pid q"
  shows "p = q"
  using assms by (meson distinct_map inj_onD)

lemma set_task_set: "set (set_task n f ts) = (\<lambda>p. if pid p = n then f p else p) ` set ts"
  by (simp add: set_task_def)

lemma pids_set_task:
  assumes "\<And>p. pid (f p) = pid p"
  shows "map pid (set_task n f ts) = map pid ts"
  using assms by (simp add: set_task_def)

text \<open>What is known when \<open>setpgid\<close> changes something.\<close>

lemma setpgid_changes:
  assumes "snd (setpgid security gl pid0 pgid0 ts) \<noteq> ts"
  shows "\<exists>p pgid. find_task (if pid0 = 0 then pid gl else pid0) ts = Some p \<and>
    setpgid security gl pid0 pgid0 ts = (0, set_task (pid p) (\<lambda>q. q\<lparr>pgrp := pgid\<rparr>) ts) \<and>
    pgid = (if pgid0 = 0 then pid p else pgid0) \<and> 0 \<le> pgid \<and>
    thread_group_leader p \<and> \<not> sleader p \<and> security p pgid = 0 \<and>
    (same_thread_group ts (real_parent p) gl \<and> session p = session gl \<and> \<not> did_exec p \<or> pid p = pid gl) \<and>
    (pgid = pid p \<or> (\<exists>g. group_task pgid ts = Some g \<and> session g = session gl))"
proof -
  define n where "n = (if pid0 = 0 then pid gl else pid0)"
  define pgid where "pgid = (if pgid0 = 0 then n else pgid0)"
  have eq0: "setpgid security gl pid0 pgid0 ts =
     (if pgid < 0 then (- EINVAL, ts)
      else case find_task n ts of
        None \<Rightarrow> (- ESRCH, ts)
      | Some p \<Rightarrow>
          if \<not> thread_group_leader p then (- EINVAL, ts)
          else if same_thread_group ts (real_parent p) gl \<and> session p \<noteq> session gl then (- EPERM, ts)
          else if same_thread_group ts (real_parent p) gl \<and> did_exec p then (- EACCES, ts)
          else if \<not> same_thread_group ts (real_parent p) gl \<and> pid p \<noteq> pid gl then (- ESRCH, ts)
          else if sleader p then (- EPERM, ts)
          else if pgid \<noteq> n \<and>
                  (case group_task pgid ts of None \<Rightarrow> True | Some g \<Rightarrow> session g \<noteq> session gl)
          then (- EPERM, ts)
          else if security p pgid \<noteq> 0 then (security p pgid, ts)
          else (0, if pgrp p \<noteq> pgid then set_task n (\<lambda>q. q\<lparr>pgrp := pgid\<rparr>) ts else ts))"
    unfolding setpgid_def Let_def n_def pgid_def by (rule refl)
  have pos: "0 \<le> pgid"
  proof (rule ccontr)
    assume "\<not> 0 \<le> pgid"
    then show False using assms by (simp add: eq0)
  qed
  obtain p where p: "find_task n ts = Some p"
    using assms pos by (cases "find_task n ts") (simp_all add: eq0)
  have n: "pid p = n" using find_task_Some [OF p] by simp
  define out where "out \<longleftrightarrow> pgid \<noteq> n \<and>
      (case group_task pgid ts of None \<Rightarrow> True | Some g \<Rightarrow> session g \<noteq> session gl)"
  define child where "child = same_thread_group ts (real_parent p) gl"
  have eq: "setpgid security gl pid0 pgid0 ts =
      (if \<not> thread_group_leader p then (- EINVAL, ts)
       else if child \<and> session p \<noteq> session gl then (- EPERM, ts)
       else if child \<and> did_exec p then (- EACCES, ts)
       else if \<not> child \<and> pid p \<noteq> pid gl then (- ESRCH, ts)
       else if sleader p then (- EPERM, ts)
       else if out then (- EPERM, ts)
       else if security p pgid \<noteq> 0 then (security p pgid, ts)
       else (0, if pgrp p \<noteq> pgid then set_task n (\<lambda>q. q\<lparr>pgrp := pgid\<rparr>) ts else ts))"
  proof -
    have "(pgid < 0) = False" using pos by simp
    then show ?thesis unfolding eq0 p option.case out_def child_def by (simp only: if_False)
  qed
  have c: "thread_group_leader p" "\<not> (child \<and> session p \<noteq> session gl)" "\<not> (child \<and> did_exec p)"
    "\<not> (\<not> child \<and> pid p \<noteq> pid gl)" "\<not> sleader p" "\<not> out" "security p pgid = 0" "pgrp p \<noteq> pgid"
    using assms unfolding eq by (simp_all split: if_splits)
  have "pgid = pid p \<or> (\<exists>g. group_task pgid ts = Some g \<and> session g = session gl)"
    using c(6) n by (auto simp: out_def split: option.splits)
  then show ?thesis
    using c pos p n eq by (intro exI [of _ p] exI [of _ pgid]) (auto simp: n_def pgid_def child_def)
qed

lemma groups_ok_set_task:
  assumes d: "distinct (map pid ts)" and f: "\<And>p. pid (f p) = pid p" "\<And>p. tgid (f p) = tgid p"
    and pair: "\<And>x y. x \<in> set ts \<Longrightarrow> y \<in> set ts \<Longrightarrow> thread_group_leader x \<Longrightarrow> thread_group_leader y \<Longrightarrow>
      (pgrp (if pid x = n then f x else x) = pgrp (if pid y = n then f y else y) \<longrightarrow>
         session (if pid x = n then f x else x) = session (if pid y = n then f y else y)) \<and>
      (pgrp (if pid y = n then f y else y) = pid (if pid x = n then f x else x) \<longrightarrow>
         session (if pid y = n then f y else y) = session (if pid x = n then f x else x))"
    and lead: "\<And>x. x \<in> set ts \<Longrightarrow> thread_group_leader x \<Longrightarrow> sleader (if pid x = n then f x else x) \<Longrightarrow>
      session (if pid x = n then f x else x) = pid x \<and> pgrp (if pid x = n then f x else x) = pid x"
  shows "groups_ok (set_task n f ts)"
proof -
  have tl: "thread_group_leader (if pid x = n then f x else x) = thread_group_leader x" for x
    using f by (simp add: thread_group_leader_def)
  have pd: "pid (if pid x = n then f x else x) = pid x" for x using f by simp
  have "distinct (map pid (set_task n f ts))" using d pids_set_task [of f n ts] f(1) by simp
  then show ?thesis
    unfolding groups_ok_def set_task_set ball_simps(9) tl pd using pair lead unfolding pd by blast
qed

lemma setpgid_groups_ok:
  assumes ok: "groups_ok ts" and gl: "gl \<in> set ts" "thread_group_leader gl"
  shows "groups_ok (snd (setpgid security gl pid0 pgid0 ts))"
proof (cases "snd (setpgid security gl pid0 pgid0 ts) = ts")
  case False
  from setpgid_changes [OF this] obtain p pgid where
    p: "p \<in> set ts" "thread_group_leader p" "\<not> sleader p" and
    res: "snd (setpgid security gl pid0 pgid0 ts) = set_task (pid p) (\<lambda>q. q\<lparr>pgrp := pgid\<rparr>) ts" and
    who: "session p = session gl \<or> pid p = pid gl" and
    grp: "pgid = pid p \<or> (\<exists>g. group_task pgid ts = Some g \<and> session g = session gl)"
    using find_task_Some by fastforce
  have d: "distinct (map pid ts)" and
    G: "\<And>x y. x \<in> set ts \<Longrightarrow> y \<in> set ts \<Longrightarrow> thread_group_leader x \<Longrightarrow> thread_group_leader y \<Longrightarrow>
        (pgrp x = pgrp y \<longrightarrow> session x = session y) \<and> (pgrp y = pid x \<longrightarrow> session y = session x)" and
    L: "\<And>x. x \<in> set ts \<Longrightarrow> thread_group_leader x \<Longrightarrow> sleader x \<Longrightarrow> session x = pid x \<and> pgrp x = pid x"
    using ok unfolding groups_ok_def by blast+
  have sp: "session p = session gl" using who unique_pid [OF d p(1) gl(1)] by auto
  have join: "session y = session p" if "y \<in> set ts" "thread_group_leader y" "pgrp y = pgid" for y
    using grp
  proof
    assume "pgid = pid p"
    then show ?thesis using G [OF p(1) that(1) p(2) that(2)] that(3) by simp
  next
    assume "\<exists>g. group_task pgid ts = Some g \<and> session g = session gl"
    then obtain g where g: "group_task pgid ts = Some g" "session g = session gl" by blast
    then have "g \<in> set ts" "thread_group_leader g" "pgrp g = pgid" using group_task_Some by blast+
    then show ?thesis using G [of g y] that g(2) sp by simp
  qed
  have own: "session p = session x" if "x \<in> set ts" "thread_group_leader x" "pgid = pid x" for x
  proof (cases "pgid = pid p")
    case True
    then have "pid p = pid x" using that(3) by (rule trans [OF sym])
    then have "p = x" by (rule unique_pid [OF d p(1) that(1)])
    then show ?thesis by (rule arg_cong)
  next
    case False
    then obtain g where "group_task pgid ts = Some g" "session g = session gl" using grp by blast
    then have "g \<in> set ts" "thread_group_leader g" "pgrp g = pgid" "session g = session gl"
      using group_task_Some by blast+
    then show ?thesis using G [of x g] that sp by simp
  qed
  let ?f = "\<lambda>q. if pid q = pid p then q\<lparr>pgrp := pgid\<rparr> else q"
  have f: "?f q = (if q = p then p\<lparr>pgrp := pgid\<rparr> else q)" if "q \<in> set ts" for q
    using unique_pid [OF d that p(1)] by auto
  have pair: "(pgrp (?f x) = pgrp (?f y) \<longrightarrow> session (?f x) = session (?f y)) \<and>
      (pgrp (?f y) = pid (?f x) \<longrightarrow> session (?f y) = session (?f x))"
    if "x \<in> set ts" "y \<in> set ts" "thread_group_leader x" "thread_group_leader y" for x y
  proof -
    note jx = join [OF that(1,3)] and jy = join [OF that(2,4)] and ox = own [OF that(1,3)]
    note g = G [OF that] and gp = G [OF p(1) that(2) p(2) that(4)]
    consider "x = p" "y = p" | "x = p" "y \<noteq> p" | "x \<noteq> p" "y = p" | "x \<noteq> p" "y \<noteq> p" by blast
    then show ?thesis
    proof cases
      case 1
      then show ?thesis by simp
    next
      case 2
      then have "?f x = p\<lparr>pgrp := pgid\<rparr>" "?f y = y" using f that by simp_all
      then show ?thesis using jy gp by auto
    next
      case 3
      then have "?f x = x" "?f y = p\<lparr>pgrp := pgid\<rparr>" using f that by simp_all
      then show ?thesis using jx ox by auto
    next
      case 4
      then have "?f x = x" "?f y = y" using f that by simp_all
      then show ?thesis using g by simp
    qed
  qed
  show ?thesis
    unfolding res
  proof (rule groups_ok_set_task [OF d _ _ pair])
    fix x assume "x \<in> set ts" "thread_group_leader x" "sleader (?f x)"
    moreover have "x \<noteq> p" using calculation(3) p(3) by auto
    ultimately show "session (?f x) = pid x \<and> pgrp (?f x) = pid x" using f [of x] L [of x] by simp
  qed simp_all
qed (simp add: ok)

lemma setsid_groups_ok:
  assumes ok: "groups_ok ts" and gl: "gl \<in> set ts" "thread_group_leader gl"
  shows "groups_ok (snd (setsid gl ts))"
proof (cases "sleader gl \<or> group_task (pid gl) ts \<noteq> None")
  case True
  then show ?thesis using ok by (auto simp: setsid_def)
next
  case False
  have d: "distinct (map pid ts)" and
    G: "\<And>x y. x \<in> set ts \<Longrightarrow> y \<in> set ts \<Longrightarrow> thread_group_leader x \<Longrightarrow> thread_group_leader y \<Longrightarrow>
        (pgrp x = pgrp y \<longrightarrow> session x = session y) \<and> (pgrp y = pid x \<longrightarrow> session y = session x)" and
    L: "\<And>x. x \<in> set ts \<Longrightarrow> thread_group_leader x \<Longrightarrow> sleader x \<Longrightarrow> session x = pid x \<and> pgrp x = pid x"
    using ok unfolding groups_ok_def by blast+
  have no: "pgrp y \<noteq> pid gl" if "y \<in> set ts" "thread_group_leader y" for y
    using group_task_None False that by blast
  let ?g = "\<lambda>p. p\<lparr>sleader := True, session := pid gl, pgrp := pid gl\<rparr>"
  let ?f = "\<lambda>p. if pid p = pid gl then ?g p else p"
  have f: "?f q = (if q = gl then ?g gl else q)" if "q \<in> set ts" for q
    using unique_pid [OF d that gl(1)] by auto
  have pair: "(pgrp (?f x) = pgrp (?f y) \<longrightarrow> session (?f x) = session (?f y)) \<and>
      (pgrp (?f y) = pid (?f x) \<longrightarrow> session (?f y) = session (?f x))"
    if "x \<in> set ts" "y \<in> set ts" "thread_group_leader x" "thread_group_leader y" for x y
  proof -
    note nx = no [OF that(1,3)] and ny = no [OF that(2,4)] and g = G [OF that]
      and u = unique_pid [OF d that(1) gl(1)]
    consider "x = gl" "y = gl" | "x = gl" "y \<noteq> gl" | "x \<noteq> gl" "y = gl" | "x \<noteq> gl" "y \<noteq> gl" by blast
    then show ?thesis
    proof cases
      case 1
      then show ?thesis by simp
    next
      case 2
      then have "?f x = ?g gl" "?f y = y" using f that by simp_all
      then show ?thesis using ny by simp
    next
      case 3
      then have "?f x = x" "?f y = ?g gl" using f that by simp_all
      then show ?thesis using nx u 3 by auto
    next
      case 4
      then have "?f x = x" "?f y = y" using f that by simp_all
      then show ?thesis using g by simp
    qed
  qed
  have res: "snd (setsid gl ts) = set_task (pid gl) ?g ts" using False by (simp add: setsid_def)
  show ?thesis
    unfolding res
  proof (rule groups_ok_set_task [OF d _ _ pair])
    fix x assume "x \<in> set ts" "thread_group_leader x" "sleader (?f x)"
    then show "session (?f x) = pid x \<and> pgrp (?f x) = pid x" using f [of x] L [of x] by auto
  qed simp_all
qed

section \<open>Properties\<close>

text \<open>A call of the group leader with number \<open>n\<close>.\<close>

datatype pg_call = Setpgid int int | Setsid

definition pg_do :: "(ptask \<Rightarrow> int \<Rightarrow> int) \<Rightarrow> int \<Rightarrow> pg_call \<Rightarrow> tasks \<Rightarrow> tasks" where
  "pg_do security n c ts =
     (case find_task n ts of
        None \<Rightarrow> ts
      | Some gl \<Rightarrow>
          if \<not> thread_group_leader gl then ts
          else case c of
            Setpgid pid0 pgid0 \<Rightarrow> snd (setpgid security gl pid0 pgid0 ts)
          | Setsid \<Rightarrow> snd (setsid gl ts))"

interpretation pg_calls: invariant_calls "\<lambda>(n, c). pg_do security n c" groups_ok
  for security :: "ptask \<Rightarrow> int \<Rightarrow> int"
proof
  fix ts and x :: "int \<times> pg_call"
  assume ok: "groups_ok ts"
  obtain n c where x: "x = (n, c)" by (cases x)
  have "groups_ok (pg_do security n c ts)"
    using ok setpgid_groups_ok setsid_groups_ok find_task_Some
    by (auto simp: pg_do_def split: option.split pg_call.split)
  then show "groups_ok ((case x of (n, c) \<Rightarrow> pg_do security n c) ts)" using x by simp
qed

text \<open>
  C9. Process groups never straddle sessions: from a task list in which every group lies in one
  session, no sequence of \<open>setpgid\<close> and \<open>setsid\<close> calls by any processes, whatever the security
  module answers, leads to one in which a group has members of two sessions, a process is in
  another session than the group of its number, or a session leader has left its group or session.
\<close>

theorem groups_stay_in_sessions:
  assumes "groups_ok ts"
  shows "groups_ok (fold (\<lambda>(n, c) ts. pg_do security n c ts) calls ts)"
  using pg_calls.inv_calls [OF assms, of security calls] by (simp add: case_prod_beta')

definition demo_tasks :: tasks where
  "demo_tasks =
     [\<lparr>pid = 1, tgid = 1, real_parent = 0, pgrp = 1, session = 1, sleader = True, did_exec = True\<rparr>,
      \<lparr>pid = 2, tgid = 2, real_parent = 1, pgrp = 1, session = 1, sleader = False, did_exec = False\<rparr>,
      \<lparr>pid = 3, tgid = 3, real_parent = 2, pgrp = 1, session = 1, sleader = False, did_exec = False\<rparr>]"

lemma demo_groups_ok: "groups_ok demo_tasks"
  by (simp add: groups_ok_def demo_tasks_def thread_group_leader_def)

corollary groups_stay_in_sessions_witness:
  "groups_ok (fold (\<lambda>(n, c) ts. pg_do (\<lambda>_ _. 0) n c ts) [(1, Setpgid 2 0), (3, Setsid), (1, Setpgid 2 1)]
     demo_tasks)"
  using groups_stay_in_sessions [OF demo_groups_ok] .

text \<open>
  \<open>setsid\<close> makes the caller the leader of a new session and of a new group of which it is the
  only member, as \<open>getsid\<close> and \<open>getpgrp\<close> then tell it, unless it already leads a session or a
  group with its number exists, in which case nothing changes; so it cannot be repeated.
\<close>

theorem setsid_new_session:
  assumes "groups_ok ts" "find_task n ts = Some gl" "thread_group_leader gl" "n \<noteq> 0"
  shows "if sleader gl \<or> (\<exists>p\<in>set ts. thread_group_leader p \<and> pgrp p = n)
    then setsid gl ts = (- EPERM, ts)
    else \<exists>gl' ts'. setsid gl ts = (n, ts') \<and> find_task n ts' = Some gl' \<and> sleader gl' \<and>
      getsid (\<lambda>_. 0) gl' 0 ts' = n \<and> getpgrp (\<lambda>_. 0) gl' ts' = n \<and>
      (\<forall>p\<in>set ts'. thread_group_leader p \<longrightarrow> pgrp p = n \<longrightarrow> p = gl') \<and>
      setsid gl' ts' = (- EPERM, ts')"
proof -
  have gl: "gl \<in> set ts" "pid gl = n" using find_task_Some [OF assms(2)] by auto
  have none: "group_task n ts = None \<longleftrightarrow> \<not> (\<exists>p\<in>set ts. thread_group_leader p \<and> pgrp p = n)"
    by (auto simp: group_task_def find_None_iff)
  show ?thesis
  proof (cases "sleader gl \<or> (\<exists>p\<in>set ts. thread_group_leader p \<and> pgrp p = n)")
    case True
    then have "setsid gl ts = (- EPERM, ts)" using none gl(2) by (auto simp: setsid_def)
    with True show ?thesis by simp
  next
    case False
    let ?f = "\<lambda>p. p\<lparr>sleader := True, session := n, pgrp := n\<rparr>"
    let ?ts = "set_task n ?f ts" and ?gl = "?f gl"
    have d: "distinct (map pid ts)" using assms(1) by (simp add: groups_ok_def)
    have res: "setsid gl ts = (n, ?ts)" using False none gl(2) by (simp add: setsid_def)
    have find_map: "find (\<lambda>p. pid p = n) (set_task n ?f xs) = map_option ?f (find (\<lambda>p. pid p = n) xs)" for xs
      by (induction xs) (auto simp: set_task_def)
    have found: "find_task n ?ts = Some ?gl" using find_map [of ts] assms(2) by (simp add: find_task_def)
    have "p = ?gl" if p: "p \<in> set ?ts" "thread_group_leader p" "pgrp p = n" for p
    proof -
      obtain q where q: "q \<in> set ts" "p = (if pid q = n then ?f q else q)"
        using p(1) by (auto simp: set_task_set)
      have "pid q = n"
      proof (rule ccontr)
        assume "pid q \<noteq> n"
        then show False using q p False by auto
      qed
      then show ?thesis using q unique_pid [OF d q(1) gl(1)] gl(2) by simp
    qed
    moreover have "tgid gl = n" using assms(3) gl(2) by (simp add: thread_group_leader_def)
    then have "leader_of ?ts ?gl = ?gl" using found by (simp add: leader_of_def)
    then have "getsid (\<lambda>_. 0) ?gl 0 ?ts = n" "getpgrp (\<lambda>_. 0) ?gl ?ts = n"
      by (simp_all add: getsid_def getpgrp_def getpgid_def)
    moreover have "setsid ?gl ?ts = (- EPERM, ?ts)" by (simp add: setsid_def)
    ultimately have "setsid gl ts = (n, ?ts) \<and> find_task n ?ts = Some ?gl \<and> sleader ?gl \<and>
      getsid (\<lambda>_. 0) ?gl 0 ?ts = n \<and> getpgrp (\<lambda>_. 0) ?gl ?ts = n \<and>
      (\<forall>p\<in>set ?ts. thread_group_leader p \<longrightarrow> pgrp p = n \<longrightarrow> p = ?gl) \<and>
      setsid ?gl ?ts = (- EPERM, ?ts)"
      using res found by simp
    then show ?thesis using False by (simp only: if_False) blast
  qed
qed

corollary setsid_new_session_witness:
  "\<exists>gl ts'. find_task 2 demo_tasks = Some gl \<and> setsid gl demo_tasks = (2, ts')"
proof -
  have f: "find_task 2 demo_tasks = Some \<lparr>pid = 2, tgid = 2, real_parent = 1, pgrp = 1, session = 1,
      sleader = False, did_exec = False\<rparr>"
    by (simp add: find_task_def demo_tasks_def)
  then show ?thesis
    using setsid_new_session [OF demo_groups_ok f]
    by (auto simp: thread_group_leader_def demo_tasks_def)
qed

end
