(* ===== verification/Rlimit.thy ===== *)
theory Rlimit
  imports Calls
begin

text \<open>
  Resource limits of \<open>preproj2/sys.c\<close>: the conversions between the 32-bit \<open>rlimit\<close> (\<open>unsigned
  long\<close> of the i686) and \<open>rlimit64\<close>, \<open>do_prlimit\<close>, \<open>check_prlimit_permission\<close> and the system calls
  \<open>prlimit64\<close>, \<open>setrlimit\<close>, \<open>getrlimit\<close>, \<open>old_getrlimit\<close>. Parameters: the capability tests, the
  security hook, \<open>sysctl_nr_open\<close>. A user pointer is an argument \<open>option\<close>: \<open>None\<close> for NULL; the copies
  to and from user space succeed, or fail as a flag says.
\<close>

section \<open>Data\<close>

record rlimit =
  rlim_cur :: "32 word"
  rlim_max :: "32 word"

record rlimit64 =
  rlim64_cur :: "64 word"
  rlim64_max :: "64 word"

record rcred =
  r_ns :: nat
  r_uid :: "32 word"
  r_euid :: "32 word"
  r_suid :: "32 word"
  r_gid :: "32 word"
  r_egid :: "32 word"
  r_sgid :: "32 word"

record rtask =
  rcred :: rcred
  has_sighand :: bool
  rlims :: "nat \<Rightarrow> rlimit"
  cpu_timer :: "32 word option"   \<comment> \<open>the argument of the last \<open>update_rlimit_cpu\<close>\<close>

record renv =
  capable_resource :: bool
  ns_capable_resource :: "nat \<Rightarrow> bool"
  sec_setrlimit :: "nat \<Rightarrow> rlimit \<Rightarrow> int"
  nr_open :: "32 word"

definition RLIM_INFINITY :: "32 word" where "RLIM_INFINITY = - 1"
definition RLIM64_INFINITY :: "64 word" where "RLIM64_INFINITY = - 1"
definition RLIM_NLIMITS :: nat where "RLIM_NLIMITS = 16"
definition RLIMIT_CPU :: nat where "RLIMIT_CPU = 0"
definition RLIMIT_NOFILE :: nat where "RLIMIT_NOFILE = 7"

section \<open>The code\<close>

text \<open>\<open>ULONG_MAX\<close> is \<open>2^32 - 1\<close> here.\<close>

definition rlim64_is_infinity :: "64 word \<Rightarrow> bool" where
  "rlim64_is_infinity x \<longleftrightarrow> x \<ge> 0xFFFFFFFF"

definition widen :: "32 word \<Rightarrow> 64 word" where
  "widen x = (if x = RLIM_INFINITY then RLIM64_INFINITY else ucast x)"

definition narrow :: "64 word \<Rightarrow> 32 word" where
  "narrow x = (if rlim64_is_infinity x then RLIM_INFINITY else ucast x)"

definition rlim_to_rlim64 :: "rlimit \<Rightarrow> rlimit64" where
  "rlim_to_rlim64 r = \<lparr>rlim64_cur = widen (rlim_cur r), rlim64_max = widen (rlim_max r)\<rparr>"

definition rlim64_to_rlim :: "rlimit64 \<Rightarrow> rlimit" where
  "rlim64_to_rlim r = \<lparr>rlim_cur = narrow (rlim64_cur r), rlim_max = narrow (rlim64_max r)\<rparr>"

text \<open>Value, task afterwards, and what was stored in \<open>*old_rlim\<close>, when it was.\<close>

definition do_prlimit ::
  "renv \<Rightarrow> rtask \<Rightarrow> nat \<Rightarrow> rlimit option \<Rightarrow> int \<times> rtask \<times> rlimit option" where
  "do_prlimit E tsk resource new_rlim =
     (if resource \<ge> RLIM_NLIMITS then (- EINVAL, tsk, None)
      else case new_rlim of
        None \<Rightarrow>
          if \<not> has_sighand tsk then (- ESRCH, tsk, None) else (0, tsk, Some (rlims tsk resource))
      | Some new \<Rightarrow>
          if rlim_cur new > rlim_max new then (- EINVAL, tsk, None)
          else if resource = RLIMIT_NOFILE \<and> rlim_max new > nr_open E then (- EPERM, tsk, None)
          else if \<not> has_sighand tsk then (- ESRCH, tsk, None)
          else
            let rlim = rlims tsk resource;
                ret = (if rlim_max new > rlim_max rlim \<and> \<not> capable_resource E then - EPERM
                       else sec_setrlimit E resource new);
                new' = (if resource = RLIMIT_CPU \<and> rlim_cur new = 0 then new\<lparr>rlim_cur := 1\<rparr> else new)
            in if ret \<noteq> 0 then (ret, tsk, None)
               else
                 let tsk' = tsk\<lparr>rlims := (rlims tsk)(resource := new')\<rparr>
                 in (0, if resource = RLIMIT_CPU \<and> rlim_cur new' \<noteq> RLIM_INFINITY
                        then tsk'\<lparr>cpu_timer := Some (rlim_cur new')\<rparr> else tsk', Some rlim))"

definition check_prlimit_permission :: "renv \<Rightarrow> bool \<Rightarrow> rcred \<Rightarrow> rcred \<Rightarrow> int" where
  "check_prlimit_permission E is_current c t =
     (if is_current then 0
      else if r_ns c = r_ns t \<and> r_uid c = r_euid t \<and> r_uid c = r_suid t \<and> r_uid c = r_uid t \<and>
              r_gid c = r_egid t \<and> r_gid c = r_sgid t \<and> r_gid c = r_gid t
      then 0
      else if ns_capable_resource E (r_ns t) then 0
      else - EPERM)"

text \<open>The tasks by pid, the pid of the caller, the pid argument (0 for the caller), the new limits
  (\<open>None\<close> for NULL) and whether the user's copies succeed.\<close>

type_synonym rtasks = "int \<Rightarrow> rtask option"

definition prlimit64 ::
  "renv \<Rightarrow> int \<Rightarrow> int \<Rightarrow> nat \<Rightarrow> rlimit64 option \<Rightarrow> bool \<Rightarrow> bool \<Rightarrow> bool \<Rightarrow> rtasks
     \<Rightarrow> int \<times> rtasks \<times> rlimit64 option" where
  "prlimit64 E cur pid resource new_rlim copy_in_ok want_old copy_out_ok ts =
     (if new_rlim \<noteq> None \<and> \<not> copy_in_ok then (- EFAULT, ts, None)
      else
        let n = (if pid = 0 then cur else pid) in
        case (ts n, ts cur) of
          (Some tsk, Some me) \<Rightarrow>
            let ret = check_prlimit_permission E (n = cur) (rcred me) (rcred tsk) in
            if ret \<noteq> 0 then (ret, ts, None)
            else
              let (ret, tsk', old) = do_prlimit E tsk resource (map_option rlim64_to_rlim new_rlim);
                  ts' = ts(n \<mapsto> tsk')
              in if ret = 0 \<and> want_old
                 then if copy_out_ok then (0, ts', map_option rlim_to_rlim64 old)
                      else (- EFAULT, ts', None)
                 else (ret, ts', None)
        | _ \<Rightarrow> (- ESRCH, ts, None))"

definition setrlimit :: "renv \<Rightarrow> nat \<Rightarrow> rlimit \<Rightarrow> bool \<Rightarrow> rtask \<Rightarrow> int \<times> rtask" where
  "setrlimit E resource new copy_in_ok me =
     (if \<not> copy_in_ok then (- EFAULT, me)
      else let (ret, me', old) = do_prlimit E me resource (Some new) in (ret, me'))"

definition getrlimit :: "renv \<Rightarrow> nat \<Rightarrow> bool \<Rightarrow> rtask \<Rightarrow> int \<times> rlimit option" where
  "getrlimit E resource copy_out_ok me =
     (let (ret, me', old) = do_prlimit E me resource None in
      if ret = 0 then if copy_out_ok then (0, old) else (- EFAULT, None) else (ret, None))"

definition old_getrlimit :: "nat \<Rightarrow> bool \<Rightarrow> rtask \<Rightarrow> int \<times> rlimit option" where
  "old_getrlimit resource copy_out_ok me =
     (if resource \<ge> RLIM_NLIMITS then (- EINVAL, None)
      else
        let x = rlims me resource;
            x1 = (if rlim_cur x > 0x7FFFFFFF then x\<lparr>rlim_cur := 0x7FFFFFFF\<rparr> else x);
            x2 = (if rlim_max x1 > 0x7FFFFFFF then x1\<lparr>rlim_max := 0x7FFFFFFF\<rparr> else x1)
        in if copy_out_ok then (0, Some x2) else (- EFAULT, None))"

section \<open>The invariant of the limits\<close>

text \<open>The soft limit is at most the hard one, but for the CPU limit, where 0 is stored as 1.\<close>

definition limit_ok :: "nat \<Rightarrow> rlimit \<Rightarrow> bool" where
  "limit_ok resource r \<longleftrightarrow>
     rlim_cur r \<le> rlim_max r \<or> resource = RLIMIT_CPU \<and> rlim_cur r = 1 \<and> rlim_max r = 0"

definition limits_ok :: "rtask \<Rightarrow> bool" where
  "limits_ok t \<longleftrightarrow> (\<forall>r<RLIM_NLIMITS. limit_ok r (rlims t r))"

lemma one_le_max: "m \<noteq> 0 \<Longrightarrow> (1 :: 32 word) \<le> m"
  by (simp add: word_le_nat_alt unat_gt_0 Suc_le_eq)

lemma do_prlimit_changes:
  assumes "do_prlimit E tsk resource new = (ret, tsk', old)"
  shows "tsk' = tsk \<or>
    (\<exists>l. new = Some l \<and> ret = 0 \<and> resource < RLIM_NLIMITS \<and> rlim_cur l \<le> rlim_max l \<and>
      (rlim_max l \<le> rlim_max (rlims tsk resource) \<or> capable_resource E) \<and>
      rlims tsk' = (rlims tsk)(resource :=
        (if resource = RLIMIT_CPU \<and> rlim_cur l = 0 then l\<lparr>rlim_cur := 1\<rparr> else l)) \<and>
      rcred tsk' = rcred tsk \<and> has_sighand tsk' = has_sighand tsk)"
proof (cases new)
  case None
  then have "tsk' = tsk" using assms by (simp add: do_prlimit_def split: if_split_asm)
  then show ?thesis by simp
next
  case (Some l)
  let ?l = "if resource = RLIMIT_CPU \<and> rlim_cur l = 0 then l\<lparr>rlim_cur := 1\<rparr> else l"
  let ?t = "tsk\<lparr>rlims := (rlims tsk)(resource := ?l)\<rparr>"
  define T where "T = (if resource = RLIMIT_CPU \<and> rlim_cur ?l \<noteq> RLIM_INFINITY
    then ?t\<lparr>cpu_timer := Some (rlim_cur ?l)\<rparr> else ?t)"
  have T: "rlims T = (rlims tsk)(resource := ?l)" "rcred T = rcred tsk" "has_sighand T = has_sighand tsk"
    by (simp_all add: T_def)
  define R where "R = (if rlim_max l > rlim_max (rlims tsk resource) \<and> \<not> capable_resource E then - EPERM
    else sec_setrlimit E resource l)"
  have eq: "do_prlimit E tsk resource new =
     (if resource \<ge> RLIM_NLIMITS then (- EINVAL, tsk, None)
      else if rlim_cur l > rlim_max l then (- EINVAL, tsk, None)
      else if resource = RLIMIT_NOFILE \<and> rlim_max l > nr_open E then (- EPERM, tsk, None)
      else if \<not> has_sighand tsk then (- ESRCH, tsk, None)
      else if R \<noteq> 0 then (R, tsk, None) else (0, T, Some (rlims tsk resource)))"
    unfolding do_prlimit_def Let_def Some option.case R_def T_def by (rule refl)
  show ?thesis
  proof (cases "resource < RLIM_NLIMITS \<and> rlim_cur l \<le> rlim_max l \<and> R = 0 \<and> tsk' \<noteq> tsk")
    case True
    then have "tsk' = T" "ret = 0" using assms unfolding eq by (simp_all split: if_split_asm)
    moreover have "rlim_max l \<le> rlim_max (rlims tsk resource) \<or> capable_resource E"
      using True by (auto simp: R_def errnos split: if_splits)
    ultimately show ?thesis using True T Some by simp
  next
    case False
    then have "tsk' = tsk"
      using assms unfolding eq by (auto simp: not_less not_le split: if_split_asm)
    then show ?thesis by simp
  qed
qed

lemma do_prlimit_limits_ok:
  assumes "do_prlimit E tsk resource new = (ret, tsk', old)" "limits_ok tsk"
  shows "limits_ok tsk'"
  using do_prlimit_changes [OF assms(1)]
proof
  assume "\<exists>l. new = Some l \<and> ret = 0 \<and> resource < RLIM_NLIMITS \<and> rlim_cur l \<le> rlim_max l \<and>
      (rlim_max l \<le> rlim_max (rlims tsk resource) \<or> capable_resource E) \<and>
      rlims tsk' = (rlims tsk)(resource :=
        (if resource = RLIMIT_CPU \<and> rlim_cur l = 0 then l\<lparr>rlim_cur := 1\<rparr> else l)) \<and>
      rcred tsk' = rcred tsk \<and> has_sighand tsk' = has_sighand tsk"
  then obtain l where "rlim_cur l \<le> rlim_max l" "rlims tsk' = (rlims tsk)(resource :=
        (if resource = RLIMIT_CPU \<and> rlim_cur l = 0 then l\<lparr>rlim_cur := 1\<rparr> else l))"
    by blast
  then show ?thesis
    using assms(2) one_le_max [of "rlim_max l"] by (auto simp: limits_ok_def limit_ok_def)
qed (use assms(2) in simp)

text \<open>Without the capability no hard limit rises.\<close>

definition hard_le :: "rtask \<Rightarrow> rtask \<Rightarrow> bool" where
  "hard_le t' t \<longleftrightarrow> (\<forall>r. rlim_max (rlims t' r) \<le> rlim_max (rlims t r))"

lemma do_prlimit_hard_le:
  assumes "do_prlimit E tsk resource new = (ret, tsk', old)" "\<not> capable_resource E"
  shows "hard_le tsk' tsk"
  using do_prlimit_changes [OF assms(1)] assms(2) by (auto simp: hard_le_def)

section \<open>Properties\<close>

record pl_call =
  pl_env :: renv
  pl_cur :: int
  pl_pid :: int
  pl_resource :: nat
  pl_new :: "rlimit64 option"
  pl_copy_in :: bool
  pl_want_old :: bool
  pl_copy_out :: bool

definition pl_do :: "pl_call \<Rightarrow> rtasks \<Rightarrow> rtasks" where
  "pl_do c ts = fst (snd (prlimit64 (pl_env c) (pl_cur c) (pl_pid c) (pl_resource c) (pl_new c)
     (pl_copy_in c) (pl_want_old c) (pl_copy_out c) ts))"

text \<open>One call changes at most one task, one to which the caller has permission, by \<open>do_prlimit\<close>.\<close>

lemma pl_do_changes:
  "pl_do c ts = ts \<or>
   (\<exists>n tsk me ret tsk' old. ts n = Some tsk \<and> ts (pl_cur c) = Some me \<and> pl_do c ts = ts(n \<mapsto> tsk') \<and>
      check_prlimit_permission (pl_env c) (n = pl_cur c) (rcred me) (rcred tsk) = 0 \<and>
      do_prlimit (pl_env c) tsk (pl_resource c) (map_option rlim64_to_rlim (pl_new c)) = (ret, tsk', old))"
proof -
  define n where "n = (if pl_pid c = 0 then pl_cur c else pl_pid c)"
  have eq: "pl_do c ts = fst (snd (if pl_new c \<noteq> None \<and> \<not> pl_copy_in c then (- EFAULT, ts, None)
      else case (ts n, ts (pl_cur c)) of
          (Some tsk, Some me) \<Rightarrow>
            if check_prlimit_permission (pl_env c) (n = pl_cur c) (rcred me) (rcred tsk) \<noteq> 0
            then (check_prlimit_permission (pl_env c) (n = pl_cur c) (rcred me) (rcred tsk), ts, None)
            else
              let (ret, tsk', old) = do_prlimit (pl_env c) tsk (pl_resource c)
                    (map_option rlim64_to_rlim (pl_new c))
              in if ret = 0 \<and> pl_want_old c
                 then if pl_copy_out c then (0, ts(n \<mapsto> tsk'), map_option rlim_to_rlim64 old)
                      else (- EFAULT, ts(n \<mapsto> tsk'), None)
                 else (ret, ts(n \<mapsto> tsk'), None)
        | _ \<Rightarrow> (- ESRCH, ts, None)))"
    unfolding pl_do_def prlimit64_def Let_def n_def by (rule refl)
  show ?thesis
  proof (cases "(pl_new c = None \<or> pl_copy_in c) \<and> ts n \<noteq> None \<and> ts (pl_cur c) \<noteq> None")
    case False
    then have "pl_do c ts = ts" unfolding eq by (auto split: option.split)
    then show ?thesis ..
  next
    case True
    then obtain tsk me where t: "ts n = Some tsk" "ts (pl_cur c) = Some me" by blast
    obtain ret tsk' old where d: "do_prlimit (pl_env c) tsk (pl_resource c)
        (map_option rlim64_to_rlim (pl_new c)) = (ret, tsk', old)" by (metis prod_cases3)
    have in_ok: "(pl_new c \<noteq> None \<and> \<not> pl_copy_in c) = False" using True by auto
    show ?thesis
    proof (cases "check_prlimit_permission (pl_env c) (n = pl_cur c) (rcred me) (rcred tsk) = 0")
      case ok: True
      have "pl_do c ts = ts(n \<mapsto> tsk')" unfolding eq in_ok t option.case prod.case using ok d by simp
      then show ?thesis using t d ok by blast
    next
      case False
      then have "pl_do c ts = ts" unfolding eq in_ok t by simp
      then show ?thesis ..
    qed
  qed
qed

lemma hard_le_trans: "hard_le a b \<Longrightarrow> hard_le b d \<Longrightarrow> hard_le a d"
  unfolding hard_le_def using order_trans by blast

definition all_limits_ok :: "rtasks \<Rightarrow> bool" where
  "all_limits_ok ts \<longleftrightarrow> (\<forall>n t. ts n = Some t \<longrightarrow> limits_ok t)"

definition no_limit_rises :: "rtasks \<Rightarrow> rtasks \<Rightarrow> bool" where
  "no_limit_rises ts ts' \<longleftrightarrow> (\<forall>n t'. ts' n = Some t' \<longrightarrow> (\<exists>t. ts n = Some t \<and> hard_le t' t))"

lemma pl_do_limits_ok:
  assumes "all_limits_ok ts"
  shows "all_limits_ok (pl_do c ts)"
  using pl_do_changes [of c ts] do_prlimit_limits_ok assms unfolding all_limits_ok_def
  by (elim disjE exE conjE) (auto split: if_splits)

lemma pl_do_hard:
  assumes "\<not> capable_resource (pl_env c)"
  shows "no_limit_rises ts (pl_do c ts)"
  using pl_do_changes [of c ts]
proof (elim disjE exE conjE)
  assume "pl_do c ts = ts"
  then show ?thesis by (simp add: no_limit_rises_def hard_le_def)
next
  fix m tsk me ret tsk' old
  assume a: "ts m = Some tsk" "pl_do c ts = ts(m \<mapsto> tsk')"
    "do_prlimit (pl_env c) tsk (pl_resource c) (map_option rlim64_to_rlim (pl_new c)) = (ret, tsk', old)"
  then show ?thesis
    using do_prlimit_hard_le [OF a(3) assms] by (auto simp: no_limit_rises_def hard_le_def)
qed

interpretation rl_calls: invariant_calls pl_do all_limits_ok
  by unfold_locales (rule pl_do_limits_ok)

interpretation rl_hard: guarded_calls pl_do "\<lambda>c _. \<not> capable_resource (pl_env c)" no_limit_rises
proof
  show "no_limit_rises s s" for s by (auto simp: no_limit_rises_def hard_le_def)
  show "no_limit_rises s u" if "no_limit_rises s t" "no_limit_rises t u" for s t u
    using that hard_le_trans unfolding no_limit_rises_def by metis
qed (rule pl_do_hard)

text \<open>
  C10. The limits stay in order: starting from tasks whose soft limits are at most their hard ones,
  no sequence of \<open>prlimit64\<close> calls by any tasks breaks this, with the one exception that a CPU limit
  of 0 and 0 is stored as a soft limit of 1 above a hard limit of 0; and calls made without
  CAP_SYS_RESOURCE never raise a hard limit of any task.
\<close>

theorem limits_stay_ok:
  assumes "\<forall>n t. ts n = Some t \<longrightarrow> limits_ok t"
  shows "(\<forall>n t. fold pl_do calls ts n = Some t \<longrightarrow> limits_ok t) \<and>
    ((\<forall>c\<in>set calls. \<not> capable_resource (pl_env c)) \<longrightarrow>
      (\<forall>n t'. fold pl_do calls ts n = Some t' \<longrightarrow> (\<exists>t. ts n = Some t \<and> hard_le t' t)))"
  using rl_calls.inv_calls [of ts calls] rl_hard.rel_calls [of calls ts] assms
  by (simp add: all_limits_ok_def no_limit_rises_def all_allowed_static)

definition demo_renv :: renv where
  "demo_renv = \<lparr>capable_resource = False, ns_capable_resource = (\<lambda>_. False),
     sec_setrlimit = (\<lambda>_ _. 0), nr_open = 1024\<rparr>"

definition demo_rtask :: rtask where
  "demo_rtask =
     \<lparr>rcred = \<lparr>r_ns = 0, r_uid = 7, r_euid = 7, r_suid = 7, r_gid = 7, r_egid = 7, r_sgid = 7\<rparr>,
      has_sighand = True, rlims = (\<lambda>_. \<lparr>rlim_cur = 5, rlim_max = 9\<rparr>), cpu_timer = None\<rparr>"

definition demo_call :: pl_call where
  "demo_call = \<lparr>pl_env = demo_renv, pl_cur = 1, pl_pid = 0, pl_resource = 0,
     pl_new = Some \<lparr>rlim64_cur = 0, rlim64_max = 0\<rparr>, pl_copy_in = True, pl_want_old = False,
     pl_copy_out = True\<rparr>"

text \<open>The exception: the call of \<open>demo_call\<close> leaves a soft limit above the hard one.\<close>

lemma cpu_limit_zero:
  "map_option (\<lambda>t. rlims t 0) (pl_do demo_call [1 \<mapsto> demo_rtask] 1) = Some \<lparr>rlim_cur = 1, rlim_max = 0\<rparr>"
  by (simp add: pl_do_def prlimit64_def Let_def demo_call_def check_prlimit_permission_def
      do_prlimit_def demo_rtask_def demo_renv_def rlim64_to_rlim_def narrow_def rlim64_is_infinity_def
      RLIM_NLIMITS_def RLIMIT_CPU_def RLIMIT_NOFILE_def RLIM_INFINITY_def)

corollary limits_stay_ok_witness:
  "\<exists>t. pl_do demo_call [1 \<mapsto> demo_rtask] 1 = Some t \<and> limits_ok t \<and> hard_le t demo_rtask"
proof -
  have ok: "\<forall>n t. [1 \<mapsto> demo_rtask] (n :: int) = Some t \<longrightarrow> limits_ok t"
    by (simp add: limits_ok_def limit_ok_def demo_rtask_def)
  obtain t where t: "pl_do demo_call [1 \<mapsto> demo_rtask] 1 = Some t"
    using cpu_limit_zero by (auto simp: map_option_case split: option.splits)
  then have f: "fold pl_do [demo_call] [1 \<mapsto> demo_rtask] 1 = Some t" by simp
  moreover have "\<forall>c\<in>set [demo_call]. \<not> capable_resource (pl_env c)"
    by (simp add: demo_call_def demo_renv_def)
  ultimately have "limits_ok t" "\<exists>t0. [1 \<mapsto> demo_rtask] (1 :: int) = Some t0 \<and> hard_le t t0"
    using limits_stay_ok [OF ok, of "[demo_call]"] by blast+
  then show ?thesis using t by auto
qed

lemma narrow_widen: "narrow (widen x) = x"
proof (cases "x = RLIM_INFINITY")
  case True
  then show ?thesis by (simp add: narrow_def widen_def rlim64_is_infinity_def RLIM64_INFINITY_def)
next
  case False
  have u: "unat x \<noteq> 2 ^ 32 - 1"
    using False by (auto simp: RLIM_INFINITY_def word_unat_eq_iff unsigned_minus_1_eq_mask mask_eq_exp_minus_1)
  moreover have "unat x < 2 ^ 32" using unsigned_less [of x] by simp
  ultimately have small: "unat x < 4294967295" by simp
  have "unat (ucast x :: 64 word) = unat x"
    using small by (simp add: unsigned_ucast_eq take_bit_nat_eq_self)
  then have "\<not> rlim64_is_infinity (ucast x :: 64 word)"
    using small by (simp add: rlim64_is_infinity_def word_le_nat_alt)
  moreover have "ucast (ucast x :: 64 word) = x" by transfer simp
  ultimately show ?thesis using False by (simp add: narrow_def widen_def)
qed

text \<open>
  C40. What was set is read back: after a successful \<open>setrlimit\<close>, \<open>getrlimit\<close> returns the limits that
  were given (a soft CPU limit of 0 as 1), \<open>old_getrlimit\<close> the same cut to \<open>2^31 - 1\<close>; and going
  through the 64-bit form and back loses nothing, infinity included.
\<close>

theorem limits_read_back:
  assumes "setrlimit E resource l True me = (0, me')"
  shows "(let l' = (if resource = RLIMIT_CPU \<and> rlim_cur l = 0 then l\<lparr>rlim_cur := 1\<rparr> else l) in
      getrlimit E resource True me' = (0, Some l') \<and>
      old_getrlimit resource True me' =
        (0, Some \<lparr>rlim_cur = min (rlim_cur l') 0x7FFFFFFF, rlim_max = min (rlim_max l') 0x7FFFFFFF\<rparr>) \<and>
      rlim64_to_rlim (rlim_to_rlim64 l') = l')"
proof -
  let ?l = "if resource = RLIMIT_CPU \<and> rlim_cur l = 0 then l\<lparr>rlim_cur := 1\<rparr> else l"
  obtain ret tsk' old where d: "do_prlimit E me resource (Some l) = (ret, tsk', old)"
    by (metis prod_cases3)
  then have e: "ret = 0" "me' = tsk'" using assms by (simp_all add: setrlimit_def)
  have k: "resource < RLIM_NLIMITS" "has_sighand me" "rlims me' = (rlims me)(resource := ?l)"
    "has_sighand me' = has_sighand me"
    using d e by (auto simp: do_prlimit_def Let_def errnos not_le split: if_split_asm)
  define q where "q = ?l"
  have q: "rlims me' resource = q" using k(3) by (simp add: q_def)
  have "getrlimit E resource True me' = (0, Some q)"
    using k(1,2,4) q by (simp add: getrlimit_def do_prlimit_def)
  moreover have "old_getrlimit resource True me' =
      (0, Some \<lparr>rlim_cur = min (rlim_cur q) 0x7FFFFFFF, rlim_max = min (rlim_max q) 0x7FFFFFFF\<rparr>)"
    using k(1) q by (cases q) (auto simp: old_getrlimit_def Let_def min_def not_less not_le)
  moreover have "rlim64_to_rlim (rlim_to_rlim64 q) = q"
    by (simp add: rlim64_to_rlim_def rlim_to_rlim64_def narrow_widen)
  ultimately show ?thesis unfolding Let_def q_def by blast
qed

corollary limits_read_back_witness:
  "getrlimit demo_renv 3 True (snd (setrlimit demo_renv 3 \<lparr>rlim_cur = 4, rlim_max = 8\<rparr> True demo_rtask))
     = (0, Some \<lparr>rlim_cur = 4, rlim_max = 8\<rparr>)"
proof -
  have "setrlimit demo_renv 3 \<lparr>rlim_cur = 4, rlim_max = 8\<rparr> True demo_rtask
      = (0, snd (setrlimit demo_renv 3 \<lparr>rlim_cur = 4, rlim_max = 8\<rparr> True demo_rtask))"
    by (simp add: setrlimit_def do_prlimit_def demo_renv_def demo_rtask_def RLIM_NLIMITS_def
        RLIMIT_CPU_def RLIMIT_NOFILE_def Let_def)
  from limits_read_back [OF this] show ?thesis by (simp add: Let_def RLIMIT_CPU_def)
qed

end
