(* ===== verification/Mailbox.thy ===== *)
theory Mailbox
  imports Prelude
begin

text \<open>
  The mailbox module that \<open>project3/addem.cpp\<close>, \<open>project3/life.cpp\<close> and
  \<open>project4/proj4.cpp\<close> share word for word: one array of mailboxes, a send semaphore and a
  receive semaphore per mailbox, and \<open>sendMsg\<close>/\<open>recvMsg\<close>. The message type is a parameter.

  The first half is the sequential meaning of the two calls. The second half is their
  interleaving: any number of agents call them on any mailbox, one semaphore operation or
  copy at a time, and the fine-grained system is shown to refine an atomic one-place box
  per mailbox. The clients (Addem, LifeProtocol, StringThreads) use the calls as atomic steps.
\<close>

section \<open>State and calls\<close>

text \<open>The message of \<open>project3/mailbox.h\<close>, repeated in both programs of project 3, and its
  types; \<open>proj4.cpp\<close> has a wider one.\<close>

record msg =
  iFrom :: int
  mtype :: int
  value1 :: int
  value2 :: int

definition RANGE :: int where "RANGE = 1"
definition ALLDONE :: int where "ALLDONE = 2"

record 'm mailbox_state =
  sem_s :: "nat \<Rightarrow> nat"
  sem_r :: "nat \<Rightarrow> nat"
  mailboxes :: "nat \<Rightarrow> 'm"

text \<open>\<open>sem_wait\<close> on a zero semaphore blocks the caller: \<open>None\<close>.\<close>

definition sem_wait :: "(nat \<Rightarrow> nat) \<Rightarrow> nat \<Rightarrow> (nat \<Rightarrow> nat) option" where
  "sem_wait sem i = (if sem i = 0 then None else Some (sem(i := sem i - 1)))"

definition sem_post :: "(nat \<Rightarrow> nat) \<Rightarrow> nat \<Rightarrow> (nat \<Rightarrow> nat)" where
  "sem_post sem i = sem(i := sem i + 1)"

definition sendMsg :: "nat \<Rightarrow> 'm \<Rightarrow> 'm mailbox_state \<Rightarrow> 'm mailbox_state option" where
  "sendMsg iTo message s =
     (case sem_wait (sem_s s) iTo of
        None \<Rightarrow> None
      | Some ss \<Rightarrow> Some (s\<lparr>sem_s := ss,
                          mailboxes := (mailboxes s)(iTo := message),
                          sem_r := sem_post (sem_r s) iTo\<rparr>))"

definition recvMsg :: "nat \<Rightarrow> 'm mailbox_state \<Rightarrow> ('m \<times> 'm mailbox_state) option" where
  "recvMsg i s =
     (case sem_wait (sem_r s) i of
        None \<Rightarrow> None
      | Some sr \<Rightarrow> Some (mailboxes s i,
                         s\<lparr>sem_r := sr, sem_s := sem_post (sem_s s) i\<rparr>))"

text \<open>
  The two initialisation loops: the arrays have \<open>MAXTHREAD + 1\<close> entries, and the semaphores
  beyond them do not exist (here: zero, so a call on them never returns).
\<close>

definition init_mailboxes :: "nat \<Rightarrow> 'm \<Rightarrow> 'm mailbox_state" where
  "init_mailboxes maxthread junk =
     \<lparr>sem_s = (\<lambda>i. if i < maxthread + 1 then 1 else 0), sem_r = (\<lambda>_. 0),
      mailboxes = (\<lambda>_. junk)\<rparr>"

text \<open>
  The start of the three programs: both loops of \<open>sem_init\<close>, and the creation of threads 1 to \<open>n\<close>, each
  of which ends the program when it fails. Which calls succeed is a parameter.
\<close>

record startup =
  sem_s_init :: "nat \<Rightarrow> bool"
  sem_r_init :: "nat \<Rightarrow> bool"
  thread_create :: "nat \<Rightarrow> bool"

datatype start_error = Sem_init | Pthread_create

definition sem_inits :: "nat \<Rightarrow> startup \<Rightarrow> start_error option" where
  "sem_inits maxthread E =
     (if \<not> list_all (sem_s_init E) [0..<maxthread + 1] then Some Sem_init
      else if \<not> list_all (sem_r_init E) [0..<maxthread + 1] then Some Sem_init
      else None)"

definition create_threads :: "startup \<Rightarrow> nat \<Rightarrow> start_error option" where
  "create_threads E n = (if \<not> list_all (thread_create E) [1..<n + 1] then Some Pthread_create else None)"

definition start_threads :: "nat \<Rightarrow> startup \<Rightarrow> nat \<Rightarrow> start_error option" where
  "start_threads maxthread E n =
     (case sem_inits maxthread E of Some e \<Rightarrow> Some e | None \<Rightarrow> create_threads E n)"

text \<open>An operating system that refuses nothing.\<close>

definition all_starts :: startup where
  "all_starts = \<lparr>sem_s_init = (\<lambda>_. True), sem_r_init = (\<lambda>_. True), thread_create = (\<lambda>_. True)\<rparr>"

lemma start_threads_None:
  "start_threads maxthread E n = None \<longleftrightarrow>
     (\<forall>i\<le>maxthread. sem_s_init E i \<and> sem_r_init E i) \<and> (\<forall>i. 1 \<le> i \<and> i \<le> n \<longrightarrow> thread_create E i)"
  by (auto simp: start_threads_def sem_inits_def create_threads_def list_all_iff less_Suc_eq_le)

lemma all_starts [simp]: "start_threads maxthread all_starts n = None" "sem_inits maxthread all_starts = None"
  "create_threads all_starts n = None"
  by (auto simp: start_threads_def sem_inits_def create_threads_def all_starts_def list_all_iff)

text \<open>
  What a mailbox holds, and the balance of its two semaphores when no call is under way.
\<close>

definition peek :: "'m mailbox_state \<Rightarrow> nat \<Rightarrow> 'm option" where
  "peek s i = (if sem_r s i = 0 then None else Some (mailboxes s i))"

definition balanced :: "nat \<Rightarrow> 'm mailbox_state \<Rightarrow> bool" where
  "balanced n s \<longleftrightarrow> (\<forall>i\<le>n. sem_s s i + sem_r s i = 1)"

section \<open>The channel interface\<close>

text \<open>
  What the thread programs rely on: a bounded family of one-place boxes. \<open>put\<close> blocks on a
  full box, \<open>get\<close> on an empty one, and neither touches another box.
\<close>

locale channel =
  fixes put :: "nat \<Rightarrow> 'm \<Rightarrow> 's \<Rightarrow> 's option"
    and get :: "nat \<Rightarrow> 's \<Rightarrow> ('m \<times> 's) option"
    and box :: "'s \<Rightarrow> nat \<Rightarrow> 'm option"
    and ok :: "nat \<Rightarrow> 's \<Rightarrow> bool"
  assumes put_full: "ok n s \<Longrightarrow> i \<le> n \<Longrightarrow> box s i \<noteq> None \<Longrightarrow> put i m s = None"
    and put_empty: "ok n s \<Longrightarrow> i \<le> n \<Longrightarrow> box s i = None \<Longrightarrow>
          \<exists>s'. put i m s = Some s' \<and> ok n s' \<and> box s' = (box s)(i \<mapsto> m)"
    and get_empty: "ok n s \<Longrightarrow> i \<le> n \<Longrightarrow> box s i = None \<Longrightarrow> get i s = None"
    and get_full: "ok n s \<Longrightarrow> i \<le> n \<Longrightarrow> box s i = Some m \<Longrightarrow>
          \<exists>s'. get i s = Some (m, s') \<and> ok n s' \<and> box s' = (box s)(i := None)"
begin

lemma put_SomeD:
  assumes "put i m s = Some s'" "ok n s" "i \<le> n"
  shows "box s i = None \<and> ok n s' \<and> box s' = (box s)(i \<mapsto> m)"
  using assms put_full [of n s i m] put_empty [of n s i m] by (cases "box s i") auto

lemma get_SomeD:
  assumes "get i s = Some (m, s')" "ok n s" "i \<le> n"
  shows "box s i = Some m \<and> ok n s' \<and> box s' = (box s)(i := None)"
  using assms get_empty [of n s i] get_full [of n s i] by (cases "box s i") auto

lemma put_enabled: "ok n s \<Longrightarrow> i \<le> n \<Longrightarrow> (\<exists>s'. put i m s = Some s') \<longleftrightarrow> box s i = None"
  using put_full [of n s i m] put_empty [of n s i m] by (cases "box s i") auto

lemma get_enabled: "ok n s \<Longrightarrow> i \<le> n \<Longrightarrow> (\<exists>m s'. get i s = Some (m, s')) \<longleftrightarrow> box s i \<noteq> None"
  using get_empty [of n s i] get_full [of n s i] by (cases "box s i") auto

lemma put_get:
  assumes "put i m s = Some s'" "ok n s" "i \<le> n"
  shows "\<exists>s''. get i s' = Some (m, s'') \<and> box s'' = box s"
  using put_SomeD [OF assms] get_full [of n s' i m] assms(3)
  by (auto simp: fun_upd_idem)

lemma put_put_blocks:
  assumes "put i m s = Some s'" "ok n s" "i \<le> n"
  shows "put i m' s' = None"
  using put_SomeD [OF assms] put_full [of n s' i] assms(3) by simp

end

interpretation mb: channel sendMsg recvMsg peek balanced
proof
  show "sendMsg i m s = None" if "balanced n s" "i \<le> n" "peek s i \<noteq> None"
    for n i and s :: "'a mailbox_state" and m
    using that by (auto simp: balanced_def peek_def sendMsg_def sem_wait_def split: if_splits)
  show "\<exists>s'. sendMsg i m s = Some s' \<and> balanced n s' \<and> peek s' = (peek s)(i \<mapsto> m)"
    if "balanced n s" "i \<le> n" "peek s i = None" for n i and s :: "'a mailbox_state" and m
    using that
    by (auto simp: balanced_def peek_def sendMsg_def sem_wait_def sem_post_def split: if_splits)
  show "recvMsg i s = None" if "balanced n s" "i \<le> n" "peek s i = None"
    for n i and s :: "'a mailbox_state"
    using that by (auto simp: balanced_def peek_def recvMsg_def sem_wait_def split: if_splits)
  show "\<exists>s'. recvMsg i s = Some (m, s') \<and> balanced n s' \<and> peek s' = (peek s)(i := None)"
    if "balanced n s" "i \<le> n" "peek s i = Some m" for n i and s :: "'a mailbox_state" and m
    using that
    by (auto simp: balanced_def peek_def recvMsg_def sem_wait_def sem_post_def
        intro!: ext split: if_splits)
qed

lemma balanced_init [simp]: "n \<le> maxthread \<Longrightarrow> balanced n (init_mailboxes maxthread junk)"
  by (simp add: balanced_def init_mailboxes_def)

lemma peek_init [simp]: "peek (init_mailboxes maxthread junk) i = None"
  by (simp add: peek_def init_mailboxes_def)


section \<open>The interleaved calls\<close>

text \<open>
  An agent is idle or inside a call, at one of the three operations of \<open>sendMsg\<close>
  (\<open>sem_wait\<close>, \<open>memcpy\<close>, \<open>sem_post\<close>) or of \<open>recvMsg\<close>. \<open>SendWait i m\<close> is about to
  wait, \<open>SendCopy i m\<close> about to copy, \<open>SendPost i\<close> about to post.
\<close>

datatype 'm agent =
    Idle
  | SendWait nat 'm | SendCopy nat 'm | SendPost nat
  | RecvWait nat | RecvCopy nat | RecvPost nat 'm

record 'm mailbox_system = "'m mailbox_state" +
  agents :: "nat \<Rightarrow> 'm agent"

text \<open>An event records the two copies; the semaphore operations are silent.\<close>

datatype 'm event = Tau | Put nat 'm | Get nat 'm

inductive mb_step :: "'m mailbox_system \<Rightarrow> 'm event \<Rightarrow> 'm mailbox_system \<Rightarrow> bool" where
  send_call: "agents s a = Idle \<Longrightarrow>
     mb_step s Tau (s\<lparr>agents := (agents s)(a := SendWait i m)\<rparr>)"
| send_wait: "agents s a = SendWait i m \<Longrightarrow> sem_wait (sem_s s) i = Some ss \<Longrightarrow>
     mb_step s Tau (s\<lparr>sem_s := ss, agents := (agents s)(a := SendCopy i m)\<rparr>)"
| send_copy: "agents s a = SendCopy i m \<Longrightarrow>
     mb_step s (Put i m) (s\<lparr>mailboxes := (mailboxes s)(i := m),
                            agents := (agents s)(a := SendPost i)\<rparr>)"
| send_post: "agents s a = SendPost i \<Longrightarrow>
     mb_step s Tau (s\<lparr>sem_r := sem_post (sem_r s) i, agents := (agents s)(a := Idle)\<rparr>)"
| recv_call: "agents s a = Idle \<Longrightarrow>
     mb_step s Tau (s\<lparr>agents := (agents s)(a := RecvWait i)\<rparr>)"
| recv_wait: "agents s a = RecvWait i \<Longrightarrow> sem_wait (sem_r s) i = Some sr \<Longrightarrow>
     mb_step s Tau (s\<lparr>sem_r := sr, agents := (agents s)(a := RecvCopy i)\<rparr>)"
| recv_copy: "agents s a = RecvCopy i \<Longrightarrow>
     mb_step s (Get i (mailboxes s i)) (s\<lparr>agents := (agents s)(a := RecvPost i (mailboxes s i))\<rparr>)"
| recv_post: "agents s a = RecvPost i m \<Longrightarrow>
     mb_step s Tau (s\<lparr>sem_s := sem_post (sem_s s) i, agents := (agents s)(a := Idle)\<rparr>)"

inductive mb_run :: "'m mailbox_system \<Rightarrow> 'm event list \<Rightarrow> 'm mailbox_system \<Rightarrow> bool" where
  run_nil: "mb_run s [] s"
| run_snoc: "mb_run s es t \<Longrightarrow> mb_step t e u \<Longrightarrow> mb_run s (es @ [e]) u"

definition mb_init :: "nat \<Rightarrow> 'm \<Rightarrow> 'm mailbox_system" where
  "mb_init maxthread junk =
     \<lparr>sem_s = (\<lambda>i. if i < maxthread + 1 then 1 else 0), sem_r = (\<lambda>_. 0),
      mailboxes = (\<lambda>_. junk), agents = (\<lambda>_. Idle)\<rparr>"

text \<open>The agents that hold mailbox \<open>i\<close>: past its wait, not yet past its post.\<close>

fun holds :: "'m agent \<Rightarrow> nat \<Rightarrow> bool" where
  "holds (SendCopy i m) j = (i = j)"
| "holds (SendPost i) j = (i = j)"
| "holds (RecvCopy i) j = (i = j)"
| "holds (RecvPost i m) j = (i = j)"
| "holds _ j = False"

text \<open>An agent that reads or writes the mailbox's memory in its next step.\<close>

fun copying :: "'m agent \<Rightarrow> nat \<Rightarrow> bool" where
  "copying (SendCopy i m) j = (i = j)"
| "copying (RecvCopy i) j = (i = j)"
| "copying _ j = False"

fun filled :: "'m agent \<Rightarrow> nat \<Rightarrow> bool" where
  "filled (SendPost i) j = (i = j)"
| "filled (RecvCopy i) j = (i = j)"
| "filled _ j = False"

definition one_token :: "'m mailbox_system \<Rightarrow> nat \<Rightarrow> bool" where
  "one_token s i \<longleftrightarrow>
     (\<forall>a b. holds (agents s a) i \<longrightarrow> holds (agents s b) i \<longrightarrow> a = b) \<and>
     sem_s s i + sem_r s i \<le> 1 \<and>
     ((\<exists>a. holds (agents s a) i) \<longrightarrow> sem_s s i + sem_r s i = 0)"

definition some_token :: "'m mailbox_system \<Rightarrow> nat \<Rightarrow> bool" where
  "some_token s i \<longleftrightarrow> sem_s s i + sem_r s i = 1 \<or> (\<exists>a. holds (agents s a) i)"

text \<open>The abstract box: full from the copy of a send to the copy of the matching receive.\<close>

definition abs_box :: "'m mailbox_system \<Rightarrow> nat \<Rightarrow> 'm option" where
  "abs_box s i =
     (if sem_r s i = 1 \<or> (\<exists>a. filled (agents s a) i) then Some (mailboxes s i) else None)"

inductive box_step :: "(nat \<Rightarrow> 'm option) \<Rightarrow> 'm event \<Rightarrow> (nat \<Rightarrow> 'm option) \<Rightarrow> bool" where
  box_tau: "box_step b Tau b"
| box_put: "b i = None \<Longrightarrow> box_step b (Put i m) (b(i \<mapsto> m))"
| box_get: "b i = Some m \<Longrightarrow> box_step b (Get i m) (b(i := None))"

inductive_cases box_putE: "box_step b (Put i m) b'"
inductive_cases box_getE: "box_step b (Get i m) b'"
inductive_cases box_tauE: "box_step b Tau b'"

lemma filled_holds: "filled p i \<Longrightarrow> holds p i"
  by (cases p) auto

lemma copying_holds: "copying p i \<Longrightarrow> holds p i"
  by (cases p) auto


text \<open>Who holds a mailbox excludes everyone else, and empties both semaphores.\<close>

lemma holderD:
  assumes "one_token s i" "holds (agents s a) i"
  shows "sem_s s i = 0" "sem_r s i = 0" "\<And>b. holds (agents s b) i \<Longrightarrow> b = a"
    "filled (agents s a) i \<longleftrightarrow> (\<exists>b. filled (agents s b) i)"
  using assms filled_holds by (auto simp: one_token_def)

lemma one_token_step:
  assumes "mb_step s e t" and inv: "\<forall>i. one_token s i"
  shows "one_token t i"
  using assms(1)
proof (cases rule: mb_step.cases)
  case (send_wait a j m ss)
  with spec [OF inv, of j] spec [OF inv, of i] show ?thesis
    by (auto simp: one_token_def sem_wait_def split: if_splits)
next
  case (recv_wait a j sr)
  with spec [OF inv, of j] spec [OF inv, of i] show ?thesis
    by (auto simp: one_token_def sem_wait_def split: if_splits)
next
  case (send_post a j)
  with spec [OF inv, of i] show ?thesis
    by (auto simp: one_token_def sem_post_def split: if_splits) (metis holds.simps(2))+
next
  case (recv_post a j m)
  with spec [OF inv, of i] show ?thesis
    by (auto simp: one_token_def sem_post_def split: if_splits) (metis holds.simps(4))+
next
  case (send_copy a j m)
  with spec [OF inv, of i] show ?thesis
    by (auto simp: one_token_def split: if_splits) (metis holds.simps(1))+
next
  case (recv_copy a j)
  with spec [OF inv, of i] show ?thesis
    by (auto simp: one_token_def split: if_splits) (metis holds.simps(3))+
qed (use spec [OF inv, of i] in \<open>auto simp: one_token_def\<close>)

lemma some_token_step:
  assumes "mb_step s e t" "some_token s i" "\<forall>i. one_token s i"
  shows "some_token t i"
  using assms
proof (cases rule: mb_step.cases)
  case (send_wait a j m ss)
  then show ?thesis using assms(2)
    by (auto simp: some_token_def sem_wait_def split: if_splits) (metis holds.simps(6,7))+
next
  case (recv_wait a j sr)
  then show ?thesis using assms(2)
    by (auto simp: some_token_def sem_wait_def split: if_splits) (metis holds.simps(6,7))+
next
  case (send_post a j)
  then have "sem_s s j = 0" "sem_r s j = 0"
    using holderD(1,2) [OF spec [OF assms(3)], of a j] by auto
  then show ?thesis using assms(2) send_post
    by (auto simp: some_token_def sem_post_def split: if_splits) (metis holds.simps(2))+
next
  case (recv_post a j m)
  then have "sem_s s j = 0" "sem_r s j = 0"
    using holderD(1,2) [OF spec [OF assms(3)], of a j] by auto
  then show ?thesis using assms(2) recv_post
    by (auto simp: some_token_def sem_post_def split: if_splits) (metis holds.simps(4))+
qed (use assms(2) in \<open>(clarsimp simp: some_token_def split: if_splits; metis holds.simps(1-5))+\<close>)


definition mb_inv :: "nat \<Rightarrow> 'm mailbox_system \<Rightarrow> bool" where
  "mb_inv n s \<longleftrightarrow> (\<forall>i. one_token s i) \<and> (\<forall>i\<le>n. some_token s i)"

lemma mb_inv_init: "mb_inv n (mb_init n junk)"
  by (simp add: mb_inv_def mb_init_def one_token_def some_token_def)

lemma mb_inv_step: "mb_step s e t \<Longrightarrow> mb_inv n s \<Longrightarrow> mb_inv n t"
  using one_token_step some_token_step by (metis mb_inv_def)

lemma mb_inv_run: "mb_run s es t \<Longrightarrow> mb_inv n s \<Longrightarrow> mb_inv n t"
  by (induction rule: mb_run.induct) (auto intro: mb_inv_step)

lemma abs_box_holder:
  assumes "one_token s i" "holds (agents s a) i"
  shows "abs_box s i = (if filled (agents s a) i then Some (mailboxes s i) else None)"
  using holderD [OF assms] by (simp add: abs_box_def)

lemma abs_box_free:
  assumes "\<And>a. \<not> holds (agents s a) i"
  shows "abs_box s i = (if sem_r s i = 1 then Some (mailboxes s i) else None)"
  using assms filled_holds by (auto simp: abs_box_def)

text \<open>An agent that leaves mailbox \<open>i\<close> alone does not change its abstract content.\<close>

lemma abs_box_frame:
  assumes "agents t = (agents s)(a := p)" "\<not> filled p i" "\<not> filled (agents s a) i"
    "sem_r t i = sem_r s i" "mailboxes t i = mailboxes s i"
  shows "abs_box t i = abs_box s i"
  using assms by (auto simp: abs_box_def split: if_splits)


lemma abs_box_keep:
  assumes "one_token s j" "one_token t j" "holds (agents s a) j" "holds (agents t a) j"
    and "filled (agents s a) j \<longleftrightarrow> filled (agents t a) j" "mailboxes t j = mailboxes s j"
  shows "abs_box t j = abs_box s j"
  using assms by (simp add: abs_box_holder)

lemma mb_step_refines:
  assumes step: "mb_step s e t" and inv: "mb_inv n s"
  shows "box_step (abs_box s) e (abs_box t)"
proof -
  have os: "one_token s j" and ot: "one_token t j" for j
    using inv mb_inv_step [OF step inv] by (auto simp: mb_inv_def)
  have no_holder: "\<not> holds (agents s b) j" if "sem_s s j \<noteq> 0 \<or> sem_r s j \<noteq> 0" for b j
    using os [of j] that by (auto simp: one_token_def)
  have le1: "sem_r s j \<le> 1" for j using os [of j] by (auto simp: one_token_def)
  from step show ?thesis
  proof (cases rule: mb_step.cases)
    case (send_call a j m)
    then have "abs_box t = abs_box s" by (intro ext abs_box_frame [where a = a]) auto
    with send_call show ?thesis by (simp add: box_tau)
  next
    case (recv_call a j)
    then have "abs_box t = abs_box s" by (intro ext abs_box_frame [where a = a]) auto
    with recv_call show ?thesis by (simp add: box_tau)
  next
    case (send_wait a j m ss)
    then have "abs_box t = abs_box s" by (intro ext abs_box_frame [where a = a]) auto
    with send_wait show ?thesis by (simp add: box_tau)
  next
    case (send_copy a j m)
    have "abs_box s j = None" "abs_box t j = Some m"
      using send_copy abs_box_holder [OF os [of j], of a] abs_box_holder [OF ot [of j], of a]
      by auto
    moreover have "abs_box t i = abs_box s i" if "i \<noteq> j" for i
      using send_copy that by (intro abs_box_frame [where a = a]) auto
    ultimately have "abs_box t = (abs_box s)(j \<mapsto> m)" by auto
    with send_copy \<open>abs_box s j = None\<close> show ?thesis by (simp add: box_put)
  next
    case (send_post a j)
    have "abs_box t j = abs_box s j"
      using send_post abs_box_holder [OF os [of j], of a] holderD(2) [OF os [of j], of a]
      by (simp add: abs_box_def sem_post_def)
    moreover have "abs_box t i = abs_box s i" if "i \<noteq> j" for i
      using send_post that by (intro abs_box_frame [where a = a]) (auto simp: sem_post_def)
    ultimately have "abs_box t = abs_box s" by (metis ext)
    with send_post show ?thesis by (simp add: box_tau)
  next
    case (recv_wait a j sr)
    then have pos: "sem_r s j = 1" using le1 [of j] by (auto simp: sem_wait_def split: if_splits)
    have "abs_box t j = abs_box s j"
      using recv_wait pos abs_box_holder [OF ot [of j], of a] by (simp add: abs_box_def)
    moreover have "abs_box t i = abs_box s i" if "i \<noteq> j" for i
      using recv_wait that by (intro abs_box_frame [where a = a])
        (auto simp: sem_wait_def split: if_splits)
    ultimately have "abs_box t = abs_box s" by (metis ext)
    with recv_wait show ?thesis by (simp add: box_tau)
  next
    case (recv_copy a j)
    have "abs_box s j = Some (mailboxes s j)" "abs_box t j = None"
      using recv_copy abs_box_holder [OF os [of j], of a] abs_box_holder [OF ot [of j], of a]
      by auto
    moreover have "abs_box t i = abs_box s i" if "i \<noteq> j" for i
      using recv_copy that by (intro abs_box_frame [where a = a]) auto
    ultimately have "abs_box t = (abs_box s)(j := None)" by auto
    with recv_copy \<open>abs_box s j = _\<close> show ?thesis by (simp add: box_get)
  next
    case (recv_post a j m)
    then have "abs_box t = abs_box s" by (intro ext abs_box_frame [where a = a]) auto
    with recv_post show ?thesis by (simp add: box_tau)
  qed
qed

section \<open>What a run of interleaved calls guarantees\<close>

definition puts :: "nat \<Rightarrow> 'm event list \<Rightarrow> 'm list" where
  "puts i es = concat (map (\<lambda>e. case e of Put j m \<Rightarrow> if j = i then [m] else [] | _ \<Rightarrow> []) es)"

definition gets :: "nat \<Rightarrow> 'm event list \<Rightarrow> 'm list" where
  "gets i es = concat (map (\<lambda>e. case e of Get j m \<Rightarrow> if j = i then [m] else [] | _ \<Rightarrow> []) es)"

lemma puts_gets_snoc [simp]:
  "puts i [] = []" "gets i [] = []"
  "puts i (es @ [e]) = puts i es @ (case e of Put j m \<Rightarrow> if j = i then [m] else [] | _ \<Rightarrow> [])"
  "gets i (es @ [e]) = gets i es @ (case e of Get j m \<Rightarrow> if j = i then [m] else [] | _ \<Rightarrow> [])"
  by (simp_all add: puts_def gets_def)

lemma puts_gets_box_step:
  assumes "box_step b e b'" "puts i es = gets i es @ (case b i of None \<Rightarrow> [] | Some m \<Rightarrow> [m])"
  shows "puts i (es @ [e]) = gets i (es @ [e]) @ (case b' i of None \<Rightarrow> [] | Some m \<Rightarrow> [m])"
  using assms by (induction rule: box_step.induct) auto

text \<open>C3. Every interleaving of \<open>sendMsg\<close> and \<open>recvMsg\<close> calls is an interleaving of atomic
  puts and gets on one-place boxes: each small step is silent on the boxes or one put into
  an empty box or one get from a full one.\<close>

theorem calls_refine_atomic_boxes:
  assumes "mb_run (mb_init n junk) es s" "mb_step s e t"
  shows "box_step (abs_box s) e (abs_box t)"
  by (rule mb_step_refines [OF assms(2) mb_inv_run [OF assms(1) mb_inv_init]])

text \<open>C35. No message is lost, duplicated, reordered or invented: what has been received from
  a mailbox is what was sent to it, in order, but for the at most one message inside it.\<close>

theorem mailbox_fifo:
  assumes "mb_run (mb_init n junk) es s"
  shows "puts i es = gets i es @ (case abs_box s i of None \<Rightarrow> [] | Some m \<Rightarrow> [m])"
  using assms
proof (induction "mb_init n junk" es s rule: mb_run.induct)
  case run_nil
  show ?case by (simp add: abs_box_def mb_init_def)
next
  case (run_snoc es t e u)
  have "box_step (abs_box t) e (abs_box u)"
    by (rule mb_step_refines [OF run_snoc(3) mb_inv_run [OF run_snoc(1) mb_inv_init]])
  from puts_gets_box_step [OF this run_snoc(2)] show ?case .
qed

text \<open>The copies into and out of one mailbox never overlap: two agents that are about to
  run the \<open>memcpy\<close> of the same mailbox are the same agent.\<close>

theorem mailbox_copies_exclusive:
  assumes "mb_run (mb_init n junk) es s"
    and "copying (agents s a) i" "copying (agents s b) i"
  shows "a = b"
  using mb_inv_run [OF assms(1) mb_inv_init] copying_holds assms(2,3)
  by (metis mb_inv_def one_token_def)


section \<open>Witnesses\<close>

text \<open>Agent 0 calls \<open>sendMsg(1, 5)\<close> and passes the wait; agent 1 has called \<open>recvMsg(1)\<close>.\<close>

lemma demo_send:
  "\<exists>s. mb_run (mb_init 1 (0::int)) [Tau, Tau] s \<and> agents s 0 = SendCopy 1 5
     \<and> agents s 1 = Idle"
proof -
  let ?i = "mb_init 1 (0::int)"
  let ?s1 = "?i\<lparr>agents := (agents ?i)(0 := SendWait 1 5)\<rparr>"
  let ?s2 = "?s1\<lparr>sem_s := (sem_s ?s1)(1 := 0), agents := (agents ?s1)(0 := SendCopy 1 5)\<rparr>"
  have "mb_step ?i Tau ?s1" by (rule send_call) (simp add: mb_init_def)
  moreover have "mb_step ?s1 Tau ?s2"
    by (rule send_wait [where m = 5]) (simp_all add: mb_init_def sem_wait_def)
  ultimately have "mb_run ?i [Tau, Tau] ?s2"
    using run_snoc [OF run_snoc [OF run_nil]] by fastforce
  moreover have "agents ?s2 0 = SendCopy 1 5 \<and> agents ?s2 1 = Idle"
    by (simp add: mb_init_def)
  ultimately show ?thesis by blast
qed

theorem calls_refine_atomic_boxes_witness:
  "\<exists>s t. mb_run (mb_init 1 (0::int)) [Tau, Tau] s \<and> mb_step s (Put 1 5) t
     \<and> box_step (abs_box s) (Put 1 5) (abs_box t)"
proof -
  obtain s where s: "mb_run (mb_init 1 (0::int)) [Tau, Tau] s" "agents s 0 = SendCopy 1 5"
    using demo_send by blast
  note t = send_copy [OF s(2)]
  from calls_refine_atomic_boxes [OF s(1) t] s(1) t show ?thesis by blast
qed

theorem mailbox_fifo_witness:
  "\<exists>s. mb_run (mb_init 1 (0::int)) [Tau, Tau, Put 1 5] s \<and>
     puts 1 [Tau, Tau, Put 1 5] = gets 1 [Tau, Tau, Put 1 (5::int)] @
       (case abs_box s 1 of None \<Rightarrow> [] | Some m \<Rightarrow> [m])"
proof -
  obtain s where s: "mb_run (mb_init 1 (0::int)) [Tau, Tau] s" "agents s 0 = SendCopy 1 5"
    using demo_send by blast
  obtain t where t: "mb_run (mb_init 1 (0::int)) [Tau, Tau, Put 1 5] t"
    using run_snoc [OF s(1) send_copy [OF s(2)]] by auto
  from mailbox_fifo [OF t, of 1] t show ?thesis by blast
qed

theorem mailbox_copies_exclusive_witness:
  "\<exists>s. mb_run (mb_init 1 (0::int)) [Tau, Tau] s \<and> copying (agents s 0) 1
     \<and> (\<forall>b. copying (agents s b) 1 \<longrightarrow> 0 = b)"
proof -
  obtain s where s: "mb_run (mb_init 1 (0::int)) [Tau, Tau] s" "agents s 0 = SendCopy 1 5"
    using demo_send by blast
  then have c: "copying (agents s 0) 1" by simp
  from mailbox_copies_exclusive [OF s(1) c] s(1) c show ?thesis by blast
qed

end
