(* ===== verification/Addem.thy ===== *)
theory Addem
  imports Mailbox CString
begin

text \<open>
  \<open>project3/addem.cpp\<close>: the parent splits \<open>1 .. maxValue\<close> into one range per thread, sends
  each thread its range through the thread's mailbox, and adds up the sums that come back
  through mailbox 0.
\<close>

definition MAXTHREAD :: nat where "MAXTHREAD = 10"
section \<open>The worker's loop\<close>

text \<open>
  \<open>for (value = value1; value <= value2; ++value) sum += value;\<close> in wrapping \<open>int\<close>
  arithmetic. With \<open>value2 = INT_MAX\<close> the condition never fails: \<open>None\<close>.
\<close>

partial_function (option) sum_loop :: "int \<Rightarrow> int \<Rightarrow> int \<Rightarrow> int option" where
  "sum_loop val hi acc =
     (if val \<le> hi then sum_loop (wrap32 (val + 1)) hi (wrap32 (acc + val))
      else Some acc)"

text \<open>The reply of \<open>sumthread\<close> to the message it received.\<close>

definition sum_reply :: "msg \<Rightarrow> msg option" where
  "sum_reply message =
     map_option (\<lambda>sum. message\<lparr>mtype := ALLDONE, value1 := sum\<rparr>)
       (sum_loop (value1 message) (value2 message) 0)"

section \<open>The parent's split\<close>

definition range_of :: "nat \<Rightarrow> int \<Rightarrow> int" where
  "range_of numberOfThreads maxValue = maxValue sdiv int numberOfThreads"

text \<open>The message for thread \<open>i + 1\<close>: the loop body for \<open>i < numberOfThreads - 1\<close>, the
  code after the loop for the last thread, which takes the rest.\<close>

definition range_msg :: "nat \<Rightarrow> int \<Rightarrow> nat \<Rightarrow> msg" where
  "range_msg numberOfThreads maxValue i =
     (let range = range_of numberOfThreads maxValue in
      if i < numberOfThreads - 1
      then \<lparr>iFrom = 0, mtype = RANGE,
            value1 = wrap32 (int i * range + 1), value2 = wrap32 ((int i + 1) * range)\<rparr>
      else \<lparr>iFrom = 0, mtype = RANGE,
            value1 = wrap32 ((int numberOfThreads - 1) * range + 1), value2 = maxValue\<rparr>)"

section \<open>The program's arguments\<close>

datatype addem_exit = Bad_argc | No_threads | Too_many_threads

text \<open>\<open>main\<close> up to the creation of the threads: an exit, or the two numbers it runs with.\<close>

definition addem_args :: "string list \<Rightarrow> addem_exit + (nat \<times> int)" where
  "addem_args argv =
     (if length argv \<noteq> 3 then Inl Bad_argc
      else let numberOfThreads = atoi (argv ! 1) in
        if numberOfThreads \<le> 0 then Inl No_threads
        else if numberOfThreads > int MAXTHREAD then Inl Too_many_threads
        else Inr (nat numberOfThreads, atoi (argv ! 2)))"

text \<open>\<open>main\<close> up to its first message: also the semaphores and the threads.\<close>

definition addem_main :: "startup \<Rightarrow> string list \<Rightarrow> addem_exit + start_error + (nat \<times> int)" where
  "addem_main E argv =
     (case addem_args argv of
        Inl e \<Rightarrow> Inl e
      | Inr (numberOfThreads, maxValue) \<Rightarrow>
          (case start_threads MAXTHREAD E numberOfThreads of
             Some e \<Rightarrow> Inr (Inl e)
           | None \<Rightarrow> Inr (Inr (numberOfThreads, maxValue))))"

section \<open>The running program\<close>

datatype worker = WRecv | WSum msg | WSend msg | WExit

text \<open>\<open>MSend i\<close>: about to send to thread \<open>i + 1\<close>; \<open>MRecv i\<close>: about to receive answer \<open>i\<close>;
  \<open>MPrint\<close>; \<open>MJoin i\<close>: about to join thread \<open>i\<close>; \<open>MDone\<close>.\<close>

datatype parent = MSend nat | MRecv nat | MPrint | MJoin nat | MDone

record addem =
  mail :: "msg mailbox_state"
  workers :: "nat \<Rightarrow> worker"
  parent :: parent
  fullSum :: int
  improper :: nat
  printed :: "int option"

definition addem_init :: addem where
  "addem_init =
     \<lparr>mail = init_mailboxes MAXTHREAD \<lparr>iFrom = 0, mtype = 0, value1 = 0, value2 = 0\<rparr>,
      workers = (\<lambda>_. WRecv), parent = MSend 0, fullSum = 0, improper = 0, printed = None\<rparr>"

inductive addem_step :: "nat \<Rightarrow> int \<Rightarrow> addem \<Rightarrow> addem \<Rightarrow> bool" for n :: nat and maxV :: int where
  parent_send: "parent s = MSend i \<Longrightarrow> sendMsg (i + 1) (range_msg n maxV i) (mail s) = Some m \<Longrightarrow>
     addem_step n maxV s
       (s\<lparr>mail := m, parent := if i + 1 < n then MSend (i + 1) else MRecv 1\<rparr>)"
| parent_recv: "parent s = MRecv i \<Longrightarrow> recvMsg 0 (mail s) = Some (message, m) \<Longrightarrow>
     addem_step n maxV s
       (s\<lparr>mail := m, fullSum := wrap32 (fullSum s + value1 message),
          improper := (if mtype message \<noteq> ALLDONE then improper s + 1 else improper s),
          parent := if i + 1 \<le> n then MRecv (i + 1) else MPrint\<rparr>)"
| parent_print: "parent s = MPrint \<Longrightarrow>
     addem_step n maxV s (s\<lparr>printed := Some (fullSum s), parent := MJoin 1\<rparr>)"
| parent_join: "parent s = MJoin i \<Longrightarrow> workers s i = WExit \<Longrightarrow>
     addem_step n maxV s (s\<lparr>parent := if i + 1 \<le> n then MJoin (i + 1) else MDone\<rparr>)"
| worker_recv: "1 \<le> j \<Longrightarrow> j \<le> n \<Longrightarrow> workers s j = WRecv \<Longrightarrow>
     recvMsg j (mail s) = Some (message, m) \<Longrightarrow>
     addem_step n maxV s (s\<lparr>mail := m, workers := (workers s)(j := WSum message)\<rparr>)"
| worker_sum: "1 \<le> j \<Longrightarrow> j \<le> n \<Longrightarrow> workers s j = WSum message \<Longrightarrow>
     sum_reply message = Some reply \<Longrightarrow>
     addem_step n maxV s (s\<lparr>workers := (workers s)(j := WSend reply)\<rparr>)"
| worker_send: "1 \<le> j \<Longrightarrow> j \<le> n \<Longrightarrow> workers s j = WSend message \<Longrightarrow>
     sendMsg 0 message (mail s) = Some m \<Longrightarrow>
     addem_step n maxV s (s\<lparr>mail := m, workers := (workers s)(j := WExit)\<rparr>)"

text \<open>\<open>addem_run n maxV k s\<close>: some \<open>k\<close> steps lead from the start to \<open>s\<close>.\<close>

inductive addem_run :: "nat \<Rightarrow> int \<Rightarrow> nat \<Rightarrow> addem \<Rightarrow> bool" for n :: nat and maxV :: int where
  addem_start: "addem_run n maxV 0 addem_init"
| addem_next: "addem_run n maxV k s \<Longrightarrow> addem_step n maxV s t \<Longrightarrow> addem_run n maxV (Suc k) t"

section \<open>The loop computes the sum of its range\<close>

definition isum :: "int \<Rightarrow> int \<Rightarrow> int" where "isum a b = \<Sum>{a..b}"

lemma isum_empty [simp]: "b < a \<Longrightarrow> isum a b = 0"
  by (simp add: isum_def)

lemma isum_split:
  assumes "a \<le> m + 1" "m \<le> b"
  shows "isum a b = isum a m + isum (m + 1) b"
proof -
  have "{a..b} = {a..m} \<union> {m + 1..b}" "{a..m} \<inter> {m + 1..b} = {}" using assms by auto
  then show ?thesis by (simp add: isum_def sum.union_disjoint)
qed

lemma isum_first: "a \<le> b \<Longrightarrow> isum a b = a + isum (a + 1) b"
  using isum_split [of a a b] by (simp add: isum_def)

lemma sum_loop_correct:
  assumes "in_int a" "b < INT_MAX" "in_int s"
  shows "sum_loop a b s = Some (wrap32 (s + isum a b))"
  using assms
proof (induction "nat (b + 1 - a)" arbitrary: a s)
  case 0
  then show ?case by (subst sum_loop.simps) simp
next
  case (Suc k)
  then have le: "a \<le> b" by simp
  with Suc have w: "wrap32 (a + 1) = a + 1" and i: "in_int (a + 1)"
    by (auto simp: in_int_def)
  have "sum_loop a b s = sum_loop (a + 1) b (wrap32 (s + a))"
    using le w by (subst sum_loop.simps) simp
  also have "\<dots> = Some (wrap32 (wrap32 (s + a) + isum (a + 1) b))"
    using Suc.hyps Suc.prems i by (intro Suc.hyps(1)) auto
  also have "\<dots> = Some (wrap32 (s + isum a b))"
    using le by (simp add: wrap_simps isum_first [of a b] add.assoc)
  finally show ?case .
qed


text \<open>The share of thread \<open>j\<close>: what it is to add up.\<close>

definition share :: "nat \<Rightarrow> int \<Rightarrow> nat \<Rightarrow> int" where
  "share n maxV j = isum (value1 (range_msg n maxV (j - 1))) (value2 (range_msg n maxV (j - 1)))"

lemma range_of_nonneg: "0 \<le> maxV \<Longrightarrow> range_of n maxV = maxV div int n"
  by (simp add: range_of_def signed_divide_int_def sgn_if)

lemma range_of_neg: "maxV < 0 \<Longrightarrow> 0 < n \<Longrightarrow> range_of n maxV = - ((- maxV) div int n)"
  by (simp add: range_of_def signed_divide_int_def sgn_if)

lemma range_of_abs: "0 < n \<Longrightarrow> \<bar>range_of n maxV\<bar> * int n \<le> \<bar>maxV\<bar>"
  using int_div_mult_le [of "int n" maxV] int_div_mult_le [of "int n" "- maxV"]
  by (cases "0 \<le> maxV") (simp_all add: range_of_nonneg range_of_neg pos_imp_zdiv_nonneg_iff)

text \<open>None of the bounds the parent computes overflows.\<close>

lemma range_of_mult:
  assumes "0 < n" "k \<le> n"
  shows "\<bar>int k * range_of n maxV\<bar> \<le> \<bar>maxV\<bar>"
proof -
  have "\<bar>int k * range_of n maxV\<bar> \<le> int n * \<bar>range_of n maxV\<bar>"
    using assms(2) by (simp add: abs_mult mult_right_mono)
  with range_of_abs [OF assms(1), of maxV] show ?thesis by (simp add: mult.commute)
qed

lemma range_of_sign:
  assumes "0 < n"
  shows "0 \<le> maxV \<Longrightarrow> 0 \<le> range_of n maxV" "maxV < 0 \<Longrightarrow> range_of n maxV \<le> 0"
  using assms by (simp_all add: range_of_nonneg range_of_neg pos_imp_zdiv_nonneg_iff)

lemma in_int_bound_right:
  assumes "in_int maxV" "0 < n" "k \<le> n"
  shows "in_int (int k * range_of n maxV)"
proof (cases "0 \<le> maxV")
  case True
  then have "0 \<le> int k * range_of n maxV" using range_of_sign(1) [OF assms(2)] by simp
  with range_of_mult [OF assms(2,3), of maxV] assms(1) True show ?thesis
    by (simp add: in_int_bounds)
next
  case False
  then have "int k * range_of n maxV \<le> 0"
    using range_of_sign(2) [OF assms(2)] by (simp add: mult_nonneg_nonpos)
  with range_of_mult [OF assms(2,3), of maxV] assms(1) False show ?thesis
    by (simp add: in_int_bounds)
qed

lemma in_int_bound_left:
  assumes "in_int maxV" "0 < n" "k < n"
  shows "in_int (int k * range_of n maxV + 1)"
proof (cases "0 < range_of n maxV")
  case True
  then have "int k * range_of n maxV + 1 \<le> int (k + 1) * range_of n maxV"
    by (simp add: algebra_simps)
  moreover have "0 \<le> int k * range_of n maxV" using True by simp
  ultimately show ?thesis
    using in_int_bound_right [OF assms(1,2), of "k + 1"] assms(3) by (simp add: in_int_bounds)
next
  case False
  then have "int k * range_of n maxV \<le> 0" by (simp add: mult_nonneg_nonpos)
  with in_int_bound_right [OF assms(1,2), of k] assms(3) show ?thesis
    by (simp add: in_int_bounds)
qed

lemma range_msg_exact:
  assumes "in_int maxV" "0 < n" "i < n"
  shows "range_msg n maxV i =
    \<lparr>iFrom = 0, mtype = RANGE, value1 = int i * range_of n maxV + 1,
     value2 = (if i < n - 1 then (int i + 1) * range_of n maxV else maxV)\<rparr>"
proof -
  have "in_int (int i * range_of n maxV + 1)"
    using in_int_bound_left [OF assms] .
  moreover have "in_int ((int i + 1) * range_of n maxV)"
    using in_int_bound_right [OF assms(1,2), of "i + 1"] assms(3) by (simp add: add.commute)
  moreover have "int i = int n - 1" if "\<not> i < n - 1" using that assms(2,3) by linarith
  ultimately show ?thesis by (auto simp: range_msg_def Let_def)
qed

text \<open>The ranges of the first \<open>k\<close> threads together are \<open>1 .. k * range\<close>.\<close>

lemma isum_prefix:
  assumes "0 \<le> r"
  shows "(\<Sum>i<k. isum (int i * r + 1) ((int i + 1) * r)) = isum 1 (int k * r)"
proof (induction k)
  case 0
  show ?case by simp
next
  case (Suc k)
  have "isum 1 (int (Suc k) * r) = isum 1 (int k * r) + isum (int k * r + 1) ((int k + 1) * r)"
    using isum_split [of 1 "int k * r" "int (Suc k) * r"] assms
    by (simp add: algebra_simps)
  with Suc show ?case by simp
qed

text \<open>The shares of all threads add up to the whole sum.\<close>

lemma sum_shares:
  assumes "in_int maxV" "0 < n"
  shows "(\<Sum>j\<in>{1..n}. share n maxV j) = isum 1 maxV"
proof -
  let ?r = "range_of n maxV"
  let ?f = "\<lambda>i. isum (int i * ?r + 1) (if i < n - 1 then (int i + 1) * ?r else maxV)"
  have "(\<Sum>j\<in>{1..n}. share n maxV j) = (\<Sum>i<n. ?f i)"
    unfolding share_def
    by (rule sum.reindex_bij_witness [where i = Suc and j = "\<lambda>j. j - 1"])
      (auto simp: range_msg_exact [OF assms])
  also have "\<dots> = (\<Sum>i<n - 1. ?f i) + ?f (n - 1)"
    using sum.lessThan_Suc [of ?f "n - 1"] assms(2) by simp
  also have "\<dots> = isum 1 maxV"
  proof (cases "0 \<le> maxV")
    case True
    then have r: "0 \<le> ?r" by (rule range_of_sign(1) [OF assms(2)])
    have "int (n - 1) * ?r \<le> maxV" using range_of_mult [OF assms(2), of "n - 1" maxV] True by simp
    then have "isum 1 maxV = isum 1 (int (n - 1) * ?r) + isum (int (n - 1) * ?r + 1) maxV"
      using r by (intro isum_split) (auto simp: mult_nonneg_nonneg)
    moreover have "(\<Sum>i<n - 1. ?f i) = isum 1 (int (n - 1) * ?r)"
      using isum_prefix [OF r, of "n - 1"] by simp
    ultimately show ?thesis by simp
  next
    case False
    then have r: "?r \<le> 0" using range_of_sign(2) [OF assms(2)] by simp
    then have "?f i = 0" if "i < n - 1" for i using that by (simp add: algebra_simps)
    moreover have "maxV \<le> int (n - 1) * ?r"
      using range_of_mult [OF assms(2), of "n - 1" maxV] False by linarith
    ultimately show ?thesis using False by simp
  qed
  finally show ?thesis .
qed

lemma isum_closed: "0 \<le> m \<Longrightarrow> isum 1 m = m * (m + 1) div 2"
proof -
  assume m: "0 \<le> m"
  have "isum 1 (int k * 1) * 2 = int k * (int k + 1)" for k
    by (subst isum_prefix [symmetric]) (simp, induction k, auto simp: isum_def algebra_simps)
  from this [of "nat m"] m show ?thesis by simp
qed


section \<open>The invariant of the running program\<close>

fun sent_upto :: "nat \<Rightarrow> parent \<Rightarrow> nat" where
  "sent_upto n (MSend i) = i"
| "sent_upto n _ = n"

fun received :: "nat \<Rightarrow> parent \<Rightarrow> nat" where
  "received n (MSend i) = 0"
| "received n (MRecv i) = i - 1"
| "received n _ = n"

fun parent_ok :: "nat \<Rightarrow> parent \<Rightarrow> bool" where
  "parent_ok n (MSend i) = (i < n)"
| "parent_ok n (MRecv i) = (1 \<le> i \<and> i \<le> n)"
| "parent_ok n (MJoin i) = (1 \<le> i \<and> i \<le> n)"
| "parent_ok n _ = True"

text \<open>Where the work of thread \<open>j\<close> is, given how far the parent's sends have got.\<close>

definition worker_ok :: "nat \<Rightarrow> int \<Rightarrow> nat \<Rightarrow> nat \<Rightarrow> worker \<Rightarrow> msg option \<Rightarrow> bool" where
  "worker_ok n maxV sent j w b =
     (case w of
        WRecv \<Rightarrow> b = (if j \<le> sent then Some (range_msg n maxV (j - 1)) else None)
      | WSum m \<Rightarrow> j \<le> sent \<and> b = None \<and> m = range_msg n maxV (j - 1)
      | WSend m \<Rightarrow> j \<le> sent \<and> b = None \<and> mtype m = ALLDONE
                  \<and> value1 m = wrap32 (share n maxV j)
      | WExit \<Rightarrow> j \<le> sent \<and> b = None)"

text \<open>The shares not yet sent back, and the threads that have exited.\<close>

definition pending :: "nat \<Rightarrow> int \<Rightarrow> (nat \<Rightarrow> worker) \<Rightarrow> int" where
  "pending n maxV ws = (\<Sum>j\<in>{1..n}. if ws j = WExit then 0 else share n maxV j)"

definition exited :: "nat \<Rightarrow> (nat \<Rightarrow> worker) \<Rightarrow> int" where
  "exited n ws = (\<Sum>j\<in>{1..n}. if ws j = WExit then 1 else 0)"

definition in_box0 :: "addem \<Rightarrow> int" where
  "in_box0 s = (case peek (mail s) 0 of None \<Rightarrow> 0 | Some m \<Rightarrow> value1 m)"

definition box0_full :: "addem \<Rightarrow> int" where
  "box0_full s = (if peek (mail s) 0 = None then 0 else 1)"

definition mail_inv :: "nat \<Rightarrow> int \<Rightarrow> addem \<Rightarrow> bool" where
  "mail_inv n maxV s \<longleftrightarrow> balanced MAXTHREAD (mail s) \<and> parent_ok n (parent s) \<and>
     (\<forall>j\<in>{1..n}. worker_ok n maxV (sent_upto n (parent s)) j (workers s j) (peek (mail s) j)) \<and>
     (\<forall>m. peek (mail s) 0 = Some m \<longrightarrow> mtype m = ALLDONE) \<and> improper s = 0"

definition count_inv :: "nat \<Rightarrow> int \<Rightarrow> addem \<Rightarrow> bool" where
  "count_inv n maxV s \<longleftrightarrow>
     int (received n (parent s)) + box0_full s = exited n (workers s) \<and>
     wrap32 (fullSum s + in_box0 s + pending n maxV (workers s)) = wrap32 (isum 1 maxV) \<and>
     in_int (fullSum s) \<and>
     printed s = (case parent s of MJoin _ \<Rightarrow> Some (fullSum s) | MDone \<Rightarrow> Some (fullSum s)
                                 | _ \<Rightarrow> None)"

lemma pending_upd:
  "j \<in> {1..n} \<Longrightarrow> pending n maxV (ws(j := w)) =
     pending n maxV ws - (if ws j = WExit then 0 else share n maxV j)
                       + (if w = WExit then 0 else share n maxV j)"
  unfolding pending_def by (rule sum_fun_upd) auto

lemma exited_upd:
  "j \<in> {1..n} \<Longrightarrow> exited n (ws(j := w)) =
     exited n ws - (if ws j = WExit then 1 else 0) + (if w = WExit then 1 else 0)"
  unfolding exited_def by (rule sum_fun_upd) auto

lemma exited_le: "exited n ws \<le> int n"
  unfolding exited_def using sum_bounded_above [of "{1..n}" "\<lambda>j. if ws j = WExit then 1 else 0" "1::int"]
  by simp

lemma exited_all: "exited n ws = int n \<Longrightarrow> j \<in> {1..n} \<Longrightarrow> ws j = WExit"
  using exited_upd [of j n ws WExit] exited_le [of n "ws(j := WExit)"] by (auto split: if_splits)

lemma exited_some: "exited n ws < int n \<Longrightarrow> \<exists>j\<in>{1..n}. ws j \<noteq> WExit"
proof (rule ccontr)
  assume "exited n ws < int n" "\<not> (\<exists>j\<in>{1..n}. ws j \<noteq> WExit)"
  then show False by (simp add: exited_def)
qed

lemma pending_all: "(\<And>j. j \<in> {1..n} \<Longrightarrow> ws j = WExit) \<Longrightarrow> pending n maxV ws = 0"
  by (simp add: pending_def)

lemma worker_ok_frame:
  "worker_ok n maxV sent j w b \<Longrightarrow> j \<noteq> Suc sent \<Longrightarrow> worker_ok n maxV (Suc sent) j w b"
  by (auto simp: worker_ok_def split: worker.splits)

lemma mail_inv_init: "0 < n \<Longrightarrow> mail_inv n maxV addem_init"
  by (simp add: mail_inv_def addem_init_def worker_ok_def MAXTHREAD_def)

lemma count_inv_init:
  assumes "in_int maxV" "0 < n"
  shows "count_inv n maxV addem_init"
  using sum_shares [OF assms]
  by (simp add: count_inv_def addem_init_def exited_def pending_def in_box0_def box0_full_def
      in_int_bounds)

lemma sum_reply_range:
  assumes "in_int maxV" "maxV < INT_MAX" "0 < n" "n \<le> MAXTHREAD" "1 \<le> j" "j \<le> n"
  shows "\<exists>r. sum_reply (range_msg n maxV (j - 1)) = Some r \<and> mtype r = ALLDONE
           \<and> value1 r = wrap32 (share n maxV j)"
proof -
  let ?m = "range_msg n maxV (j - 1)"
  have ex: "?m = \<lparr>iFrom = 0, mtype = RANGE, value1 = int (j - 1) * range_of n maxV + 1,
     value2 = (if j - 1 < n - 1 then (int (j - 1) + 1) * range_of n maxV else maxV)\<rparr>"
    using range_msg_exact [of maxV n "j - 1"] assms by simp
  have lo: "in_int (value1 ?m)" using in_int_bound_left [of maxV n "j - 1"] assms ex by simp
  have hi: "value2 ?m < INT_MAX"
  proof (cases "j - 1 < n - 1")
    case True
    then have "int j * range_of n maxV \<le> max maxV 0"
      using range_of_mult [OF assms(3), of j maxV] range_of_sign [OF assms(3), of maxV] assms(6)
        mult_nonneg_nonpos [of "int j" "range_of n maxV"]
      by (cases "0 \<le> maxV") auto
    then show ?thesis using True ex assms(2,5) by (simp add: INT_MAX_def of_nat_diff)
  next
    case False
    then show ?thesis using ex assms(2) by simp
  qed
  have "sum_loop (value1 ?m) (value2 ?m) 0 = Some (wrap32 (isum (value1 ?m) (value2 ?m)))"
    using sum_loop_correct [OF lo hi, of 0] by (simp add: in_int_bounds)
  then show ?thesis by (simp add: sum_reply_def share_def)
qed


text \<open>With \<open>INT_MAX\<close> as its last value the loop never ends.\<close>

lemma sum_loop_INT_MAX: "in_int a \<Longrightarrow> sum_loop a INT_MAX acc = None"
proof (rule ccontr)
  assume a: "in_int a" and "sum_loop a INT_MAX acc \<noteq> None"
  then obtain r where r: "sum_loop a INT_MAX acc = Some r" by blast
  have "INT_MAX = INT_MAX \<longrightarrow> in_int a \<longrightarrow> False"
  proof (rule sum_loop.raw_induct [where P = "\<lambda>a b _ _. b = INT_MAX \<longrightarrow> in_int a \<longrightarrow> False", OF _ r])
    fix f a b acc r
    assume IH: "\<And>a b acc r. f a b acc = Some r \<Longrightarrow> b = INT_MAX \<longrightarrow> in_int a \<longrightarrow> False"
      and eq: "(if a \<le> b then f (wrap32 (a + 1)) b (wrap32 (acc + a)) else Some acc) = Some r"
    show "b = INT_MAX \<longrightarrow> in_int a \<longrightarrow> False"
      using eq IH [of "wrap32 (a + 1)" b "wrap32 (acc + a)" r] in_int_INT_MAX [of a] by auto
  qed
  with a show False by simp
qed

lemma sum_reply_SomeD:
  assumes "in_int maxV" "0 < n" "n \<le> MAXTHREAD" "1 \<le> j" "j \<le> n"
    and "sum_reply (range_msg n maxV (j - 1)) = Some r"
  shows "mtype r = ALLDONE \<and> value1 r = wrap32 (share n maxV j)"
proof -
  let ?m = "range_msg n maxV (j - 1)"
  have lo: "in_int (value1 ?m)"
    using range_msg_exact [of maxV n "j - 1"] in_int_bound_left [of maxV n "j - 1"] assms by simp
  have "in_int (value2 ?m)"
    using range_msg_exact [of maxV n "j - 1"] in_int_bound_right [of maxV n j] assms
    by (simp add: of_nat_diff)
  moreover have "value2 ?m \<noteq> INT_MAX"
    using sum_loop_INT_MAX [OF lo] assms(6) by (auto simp: sum_reply_def)
  ultimately have hi: "value2 ?m < INT_MAX" by (simp add: in_int_def)
  show ?thesis using sum_loop_correct [OF lo hi, of 0] assms(6)
    by (auto simp: sum_reply_def share_def in_int_bounds)
qed

text \<open>The parameters under which the program runs its threads (see \<open>addem_args\<close>); and the same
  without the one value of \<open>maxValue\<close> for which the last thread's loop does not end.\<close>

definition addem_pre :: "nat \<Rightarrow> int \<Rightarrow> bool" where
  "addem_pre n maxV \<longleftrightarrow> 0 < n \<and> n \<le> MAXTHREAD \<and> in_int maxV"

definition addem_ok :: "nat \<Rightarrow> int \<Rightarrow> bool" where
  "addem_ok n maxV \<longleftrightarrow> addem_pre n maxV \<and> maxV < INT_MAX"

lemma addem_mail_inv_step:
  assumes ok: "addem_pre n maxV" and inv: "mail_inv n maxV s" and step: "addem_step n maxV s t"
  shows "mail_inv n maxV t"
proof -
  have n: "n \<le> MAXTHREAD" "0 < n" using ok by (auto simp: addem_pre_def)
  have bal: "balanced MAXTHREAD (mail s)" and pok: "parent_ok n (parent s)"
    and wok: "\<And>j. j \<in> {1..n} \<Longrightarrow>
       worker_ok n maxV (sent_upto n (parent s)) j (workers s j) (peek (mail s) j)"
    and box0: "\<And>m. peek (mail s) 0 = Some m \<Longrightarrow> mtype m = ALLDONE" and imp: "improper s = 0"
    using inv by (auto simp: mail_inv_def)
  from step show ?thesis
  proof (cases rule: addem_step.cases)
    case (parent_send i m)
    have "i < n" using pok parent_send by simp
    have m: "balanced MAXTHREAD m" "peek m = (peek (mail s))(i + 1 \<mapsto> range_msg n maxV i)"
      using mb.put_SomeD [OF parent_send(3) bal] \<open>i < n\<close> n by auto
    have "worker_ok n maxV (Suc i) j (workers s j) (peek m j)" if "j \<in> {1..n}" for j
      using wok [OF that] parent_send(2) m(2)
      by (cases "j = Suc i") (auto simp: worker_ok_def split: worker.splits)
    moreover have "sent_upto n (parent t) = Suc i" using parent_send \<open>i < n\<close> by auto
    ultimately show ?thesis using parent_send m box0 imp n \<open>i < n\<close> by (auto simp: mail_inv_def)
  next
    case (parent_recv i message m)
    have m: "balanced MAXTHREAD m" "peek m = (peek (mail s))(0 := None)"
      "peek (mail s) 0 = Some message"
      using mb.get_SomeD [OF parent_recv(3) bal] by auto
    with box0 have "mtype message = ALLDONE" by simp
    with parent_recv m wok imp pok show ?thesis by (auto simp: mail_inv_def)
  next
    case (worker_recv j message m)
    have m: "balanced MAXTHREAD m" "peek m = (peek (mail s))(j := None)"
      "peek (mail s) j = Some message"
      using mb.get_SomeD [OF worker_recv(5) bal] worker_recv(3) n by auto
    have "worker_ok n maxV (sent_upto n (parent s)) i (((workers s)(j := WSum message)) i) (peek m i)"
      if "i \<in> {1..n}" for i
      using wok [OF that] worker_recv(4) m
      by (cases "i = j") (auto simp: worker_ok_def split: if_splits)
    with worker_recv m box0 imp pok show ?thesis by (auto simp: mail_inv_def)
  next
    case (worker_sum j message reply)
    have j: "message = range_msg n maxV (j - 1)" "j \<le> sent_upto n (parent s)" "peek (mail s) j = None"
      using wok [of j] worker_sum by (auto simp: worker_ok_def)
    then have "mtype reply = ALLDONE \<and> value1 reply = wrap32 (share n maxV j)"
      using sum_reply_SomeD [of maxV n j reply] ok worker_sum by (auto simp: addem_pre_def)
    then have "worker_ok n maxV (sent_upto n (parent s)) i (((workers s)(j := WSend reply)) i)
        (peek (mail s) i)" if "i \<in> {1..n}" for i
      using wok [OF that] j by (cases "i = j") (auto simp: worker_ok_def)
    with worker_sum bal box0 imp pok show ?thesis by (auto simp: mail_inv_def)
  next
    case (worker_send j message m)
    have m: "balanced MAXTHREAD m" "peek m = (peek (mail s))(0 \<mapsto> message)"
      using mb.put_SomeD [OF worker_send(5) bal] by auto
    have j: "j \<le> sent_upto n (parent s)" "peek (mail s) j = None" "mtype message = ALLDONE"
      using wok [of j] worker_send by (auto simp: worker_ok_def)
    then have "worker_ok n maxV (sent_upto n (parent s)) i (((workers s)(j := WExit)) i) (peek m i)"
      if "i \<in> {1..n}" for i
      using wok [OF that] m that by (cases "i = j") (auto simp: worker_ok_def)
    with worker_send m j imp pok show ?thesis by (auto simp: mail_inv_def)
  qed (use bal pok wok box0 imp n in \<open>auto simp: mail_inv_def\<close>)
qed


lemma wrap_share: "wrap32 (a + wrap32 b + c) = wrap32 (a + b + c)"
  by (metis add.assoc add.commute wrap32_add_left)

lemma addem_count_inv_step:
  assumes ok: "addem_pre n maxV" and inv: "mail_inv n maxV s" "count_inv n maxV s"
    and step: "addem_step n maxV s t"
  shows "count_inv n maxV t"
proof -
  have n: "n \<le> MAXTHREAD" "0 < n" using ok by (auto simp: addem_pre_def)
  have bal: "balanced MAXTHREAD (mail s)" and pok: "parent_ok n (parent s)"
    and wok: "\<And>j. j \<in> {1..n} \<Longrightarrow>
       worker_ok n maxV (sent_upto n (parent s)) j (workers s j) (peek (mail s) j)"
    using inv by (auto simp: mail_inv_def)
  have cnt: "int (received n (parent s)) + box0_full s = exited n (workers s)"
    and tot: "wrap32 (fullSum s + in_box0 s + pending n maxV (workers s)) = wrap32 (isum 1 maxV)"
    and int: "in_int (fullSum s)"
    and pr: "printed s = (case parent s of MJoin _ \<Rightarrow> Some (fullSum s) | MDone \<Rightarrow> Some (fullSum s)
                                 | _ \<Rightarrow> None)"
    using inv(2) by (auto simp: count_inv_def)
  from step show ?thesis
  proof (cases rule: addem_step.cases)
    case (parent_send i m)
    have "i < n" using pok parent_send by simp
    have "peek m 0 = peek (mail s) 0"
      using mb.put_SomeD [OF parent_send(3) bal] \<open>i < n\<close> n by auto
    then show ?thesis using parent_send cnt tot int pr
      by (auto simp: count_inv_def box0_full_def in_box0_def)
  next
    case (parent_recv i message m)
    have m: "peek m 0 = None" "peek (mail s) 0 = Some message"
      using mb.get_SomeD [OF parent_recv(3) bal] by auto
    have "1 \<le> i" "i \<le> n" using pok parent_recv by auto
    with parent_recv m cnt tot int pr show ?thesis
      by (auto simp: count_inv_def box0_full_def in_box0_def wrap_simps of_nat_diff)
  next
    case (worker_recv j message m)
    have m: "peek m 0 = peek (mail s) 0"
      using mb.get_SomeD [OF worker_recv(5) bal] worker_recv(2,3) n by auto
    then show ?thesis using worker_recv cnt tot int pr
      by (auto simp: count_inv_def box0_full_def in_box0_def exited_upd pending_upd split: parent.split)
  next
    case (worker_sum j message reply)
    then show ?thesis using cnt tot int pr
      by (auto simp: count_inv_def box0_full_def in_box0_def exited_upd pending_upd split: parent.split)
  next
    case (worker_send j message m)
    have m: "peek (mail s) 0 = None" "peek m 0 = Some message"
      using mb.put_SomeD [OF worker_send(5) bal] by auto
    have "value1 message = wrap32 (share n maxV j)"
      using wok [of j] worker_send by (auto simp: worker_ok_def)
    moreover have "pending n maxV (workers t) = pending n maxV (workers s) - share n maxV j"
      using worker_send by (simp add: pending_upd)
    ultimately have "wrap32 (fullSum t + in_box0 t + pending n maxV (workers t)) = wrap32 (isum 1 maxV)"
      using worker_send m tot
        wrap_share [of "fullSum s" "share n maxV j" "pending n maxV (workers s) - share n maxV j"]
      by (simp add: in_box0_def)
    then show ?thesis using worker_send m cnt int pr
      by (auto simp: count_inv_def box0_full_def exited_upd split: parent.split)
  qed (use cnt tot int pr in \<open>auto simp: count_inv_def box0_full_def in_box0_def\<close>)
qed

lemma addem_run_inv:
  "addem_run n maxV k s \<Longrightarrow> addem_pre n maxV \<Longrightarrow> mail_inv n maxV s \<and> count_inv n maxV s"
proof (induction rule: addem_run.induct)
  case addem_start
  then show ?case by (simp add: addem_pre_def mail_inv_init count_inv_init)
next
  case (addem_next k s t)
  then show ?case using addem_mail_inv_step addem_count_inv_step by metis
qed

text \<open>All answers received: nothing is pending, and the sum is the whole sum.\<close>

lemma all_received:
  assumes "count_inv n maxV s" "received n (parent s) = n"
  shows "\<forall>j\<in>{1..n}. workers s j = WExit" "fullSum s = wrap32 (isum 1 maxV)"
proof -
  have le: "exited n (workers s) \<le> int n" by (rule exited_le)
  have "box0_full s = 0" "exited n (workers s) = int n"
    using assms le by (auto simp: count_inv_def box0_full_def split: if_splits)
  then show all: "\<forall>j\<in>{1..n}. workers s j = WExit" using exited_all by blast
  have "in_box0 s = 0" using \<open>box0_full s = 0\<close>
    by (auto simp: in_box0_def box0_full_def split: if_splits)
  then show "fullSum s = wrap32 (isum 1 maxV)"
    using assms(1) pending_all [of n "workers s" maxV] all by (auto simp: count_inv_def)
qed

section \<open>Progress and termination\<close>

fun parent_left :: "nat \<Rightarrow> parent \<Rightarrow> int" where
  "parent_left n (MSend i) = int n - int i + 2 * int n + 1"
| "parent_left n (MRecv i) = int n + 1 - int i + 1 + int n"
| "parent_left n MPrint = 1 + int n"
| "parent_left n (MJoin i) = int n + 1 - int i"
| "parent_left n MDone = 0"

fun worker_left :: "worker \<Rightarrow> int" where
  "worker_left WRecv = 3" | "worker_left (WSum m) = 2" | "worker_left (WSend m) = 1"
| "worker_left WExit = 0"

definition workers_left :: "nat \<Rightarrow> (nat \<Rightarrow> worker) \<Rightarrow> int" where
  "workers_left n ws = (\<Sum>j\<in>{1..n}. worker_left (ws j))"

definition steps_left :: "nat \<Rightarrow> addem \<Rightarrow> int" where
  "steps_left n s = parent_left n (parent s) + workers_left n (workers s)"

lemma workers_left_upd:
  "j \<in> {1..n} \<Longrightarrow> workers_left n (ws(j := w)) =
     workers_left n ws - worker_left (ws j) + worker_left w"
  unfolding workers_left_def by (rule sum_fun_upd [where g = "\<lambda>_. worker_left"]) auto

lemma steps_left_step:
  assumes "parent_ok n (parent s)" "addem_step n maxV s t"
  shows "steps_left n s = steps_left n t + 1"
  using assms(2)
proof (cases rule: addem_step.cases)
  case (parent_send i m)
  have "i < n" using assms(1) parent_send by simp
  then have "i + 1 < n \<or> int n = int i + 1" by linarith
  with parent_send show ?thesis by (auto simp: steps_left_def)
next
  case (parent_recv i message m)
  have "i \<le> n" using assms(1) parent_recv by simp
  then have "i + 1 \<le> n \<or> n = i" by linarith
  with parent_recv show ?thesis by (auto simp: steps_left_def)
next
  case (parent_join i)
  have "i \<le> n" using assms(1) parent_join by simp
  then have "i + 1 \<le> n \<or> n = i" by linarith
  with parent_join show ?thesis by (auto simp: steps_left_def)
qed (auto simp: steps_left_def workers_left_upd)

lemma steps_left_run:
  assumes "addem_run n maxV k s" "addem_pre n maxV"
  shows "steps_left n s = 6 * int n + 1 - int k"
  using assms(1)
proof (induction rule: addem_run.induct)
  case addem_start
  show ?case by (simp add: steps_left_def workers_left_def addem_init_def)
next
  case (addem_next k s t)
  have "parent_ok n (parent s)"
    using addem_run_inv [OF addem_next(1) assms(2)] by (simp add: mail_inv_def)
  from steps_left_step [OF this addem_next(2)] addem_next(3) show ?case by simp
qed

lemma worker_enabled:
  assumes ok: "addem_ok n maxV" and inv: "mail_inv n maxV s" and j: "j \<in> {1..n}"
    and sent: "sent_upto n (parent s) = n" and box0: "peek (mail s) 0 = None"
    and w: "workers s j \<noteq> WExit"
  shows "\<exists>t. addem_step n maxV s t"
proof -
  have bal: "balanced MAXTHREAD (mail s)" and jM: "j \<le> MAXTHREAD"
    using inv ok j by (auto simp: mail_inv_def addem_ok_def addem_pre_def)
  have wok: "worker_ok n maxV n j (workers s j) (peek (mail s) j)"
    using inv j sent unfolding mail_inv_def by (metis (no_types))
  show ?thesis
  proof (cases "workers s j")
    case WRecv
    then have "peek (mail s) j = Some (range_msg n maxV (j - 1))"
      using wok j by (simp add: worker_ok_def)
    then obtain message m where "recvMsg j (mail s) = Some (message, m)"
      using mb.get_enabled [OF bal jM] by auto
    then show ?thesis using worker_recv [of j n s message m maxV] j WRecv by auto
  next
    case (WSum message)
    then have "message = range_msg n maxV (j - 1)" using wok by (simp add: worker_ok_def)
    then obtain r where "sum_reply message = Some r"
      using sum_reply_range [of maxV n j] ok j by (auto simp: addem_ok_def addem_pre_def)
    then show ?thesis using worker_sum [of j n s message r maxV] j WSum by auto
  next
    case (WSend message)
    obtain m where "sendMsg 0 message (mail s) = Some m"
      using mb.put_enabled [OF bal, of 0] box0 by auto
    then show ?thesis using worker_send [of j n s message m maxV] j WSend by auto
  qed (use w in simp)
qed

lemma addem_progress:
  assumes ok: "addem_ok n maxV" and run: "addem_run n maxV k s" and "parent s \<noteq> MDone"
  shows "\<exists>t. addem_step n maxV s t"
proof -
  have inv: "mail_inv n maxV s" "count_inv n maxV s" using addem_run_inv [OF run] ok by (auto simp: addem_ok_def)
  have bal: "balanced MAXTHREAD (mail s)" and pok: "parent_ok n (parent s)"
    using inv by (auto simp: mail_inv_def)
  show ?thesis
  proof (cases "parent s")
    case (MSend i)
    then have i: "i < n" "i + 1 \<le> MAXTHREAD" using pok ok by (auto simp: addem_ok_def addem_pre_def)
    have "worker_ok n maxV i (i + 1) (workers s (i + 1)) (peek (mail s) (i + 1))"
      using inv(1) i MSend by (auto simp: mail_inv_def)
    then have "peek (mail s) (i + 1) = None"
      by (auto simp: worker_ok_def split: worker.splits)
    then obtain m where "sendMsg (i + 1) (range_msg n maxV i) (mail s) = Some m"
      using mb.put_enabled [OF bal i(2)] by blast
    then show ?thesis using parent_send [of s i n maxV m] MSend by auto
  next
    case (MRecv i)
    show ?thesis
    proof (cases "peek (mail s) 0")
      case None
      then have "exited n (workers s) < int n"
        using inv(2) MRecv pok by (simp add: count_inv_def box0_full_def of_nat_diff)
      then obtain j where "j \<in> {1..n}" "workers s j \<noteq> WExit" using exited_some by blast
      then show ?thesis using worker_enabled [OF ok inv(1)] None MRecv by simp
    next
      case (Some message)
      then obtain m where "recvMsg 0 (mail s) = Some (message, m)"
        using mb.get_full [OF bal, of 0] by auto
      then show ?thesis using parent_recv [of s i message m n maxV] MRecv by auto
    qed
  next
    case MPrint
    then show ?thesis using parent_print [of s n maxV] by auto
  next
    case (MJoin i)
    then have "workers s i = WExit" using all_received(1) [OF inv(2)] pok by simp
    then show ?thesis using parent_join [of s i n maxV] MJoin by auto
  qed (use assms(3) in simp)
qed


section \<open>With INT_MAX as second argument the program hangs\<close>

definition last_stuck :: "nat \<Rightarrow> addem \<Rightarrow> bool" where
  "last_stuck n s \<longleftrightarrow> (workers s n = WRecv \<or> (\<exists>m. workers s n = WSum m))"

lemma sum_reply_last: "0 < n \<Longrightarrow> sum_reply (range_msg n INT_MAX (n - 1)) = None"
  by (simp add: sum_reply_def range_msg_def Let_def sum_loop_INT_MAX)

lemma last_stuck_step:
  assumes "last_stuck n s" "mail_inv n INT_MAX s" "addem_step n INT_MAX s t" "0 < n"
  shows "last_stuck n t"
  using assms(3)
proof (cases rule: addem_step.cases)
  case (worker_sum j message reply)
  have "worker_ok n INT_MAX (sent_upto n (parent s)) j (WSum message) (peek (mail s) j)"
    using assms(2) worker_sum unfolding mail_inv_def by (metis atLeastAtMost_iff)
  then have "j \<noteq> n" using worker_sum sum_reply_last [OF assms(4)] by (auto simp: worker_ok_def)
  with worker_sum assms(1) show ?thesis by (auto simp: last_stuck_def)
qed (use assms(1) in \<open>auto simp: last_stuck_def\<close>)

lemma last_stuck_run:
  assumes "addem_run n INT_MAX k s" "addem_pre n INT_MAX"
  shows "last_stuck n s"
  using assms(1)
proof (induction rule: addem_run.induct)
  case addem_start
  show ?case by (simp add: last_stuck_def addem_init_def)
next
  case (addem_next k s t)
  have "mail_inv n INT_MAX s" using addem_run_inv [OF addem_next(1) assms(2)] by simp
  with addem_next assms(2) show ?case by (auto simp: addem_pre_def intro: last_stuck_step)
qed

text \<open>Every run can be continued to the end of the program.\<close>

lemma addem_run_to_end:
  assumes "addem_run n maxV k s" "addem_ok n maxV"
  shows "\<exists>k' t. addem_run n maxV k' t \<and> parent t = MDone"
  using assms
proof (induction "nat (steps_left n s)" arbitrary: k s rule: less_induct)
  case less
  show ?case
  proof (cases "parent s = MDone")
    case True
    with less.prems show ?thesis by blast
  next
    case False
    then obtain t where t: "addem_step n maxV s t"
      using addem_progress less.prems by blast
    have pre: "addem_pre n maxV" using less.prems by (simp add: addem_ok_def)
    have inv: "mail_inv n maxV s" "mail_inv n maxV t"
      using addem_run_inv [OF less.prems(1) pre] addem_run_inv [OF addem_next [OF less.prems(1) t] pre]
      by simp_all
    have "0 \<le> worker_left w" for w by (cases w) auto
    then have "0 \<le> workers_left n (workers t)" unfolding workers_left_def by (intro sum_nonneg)
    moreover have "0 \<le> parent_left n (parent t)"
      using inv(2) by (cases "parent t") (auto simp: mail_inv_def)
    ultimately have "0 \<le> steps_left n t" by (simp add: steps_left_def)
    moreover have "steps_left n s = steps_left n t + 1"
      using steps_left_step [OF _ t] inv(1) by (simp add: mail_inv_def)
    ultimately have "nat (steps_left n t) < nat (steps_left n s)" by simp
    from less.hyps [OF this addem_next [OF less.prems(1) t] less.prems(2)] show ?thesis .
  qed
qed

section \<open>The properties of the program\<close>

text \<open>\<open>main\<close> starts its threads only with 1 to 10 threads and an \<open>int\<close> maximum, and
  says which check failed otherwise.\<close>

theorem addem_args_checked:
  "(case addem_args argv of
      Inl Bad_argc \<Rightarrow> length argv \<noteq> 3
    | Inl No_threads \<Rightarrow> length argv = 3 \<and> atoi (argv ! 1) \<le> 0
    | Inl Too_many_threads \<Rightarrow> length argv = 3 \<and> atoi (argv ! 1) > 10
    | Inr (n, maxV) \<Rightarrow> length argv = 3 \<and> 0 < n \<and> n \<le> MAXTHREAD \<and> in_int maxV
        \<and> int n = atoi (argv ! 1) \<and> maxV = atoi (argv ! 2))"
  by (auto simp: addem_args_def Let_def MAXTHREAD_def)

lemma addem_main_started:
  assumes "addem_main E argv = Inr (Inr (n, maxV))"
  shows "0 < n" "n \<le> MAXTHREAD" "in_int maxV" "int n = atoi (argv ! 1)" "maxV = atoi (argv ! 2)"
  using addem_args_checked [of argv] assms
  by (auto simp: addem_main_def split: sum.splits option.splits)

text \<open>C5. Whatever the scheduling, started with arguments \<open>main\<close> accepts, the number the program
  has printed when it ends is the sum of \<open>1 .. maxValue\<close> (as a 32-bit \<open>int\<close>), \<open>maxValue\<close> being the
  number its second argument stands for, and every reply was an \<open>ALLDONE\<close> message.\<close>

theorem addem_prints_the_sum:
  assumes "addem_main E argv = Inr (Inr (n, maxV))" "addem_run n maxV k s" "parent s = MDone"
  shows "printed s = Some (wrap32 (\<Sum>{1..atoi (argv ! 2)})) \<and> improper s = 0"
proof -
  have inv: "mail_inv n maxV s" "count_inv n maxV s"
    using addem_run_inv [OF assms(2)] addem_main_started [OF assms(1)] by (simp_all add: addem_pre_def)
  then show ?thesis using all_received(2) [OF inv(2)] assms(3) addem_main_started(5) [OF assms(1)]
    by (simp add: count_inv_def mail_inv_def isum_def)
qed

text \<open>Called with \<open>INT_MAX\<close> as maximum, the program never prints anything: the last
  thread's loop condition \<open>value <= value2\<close> holds for every \<open>int\<close>.\<close>

lemma addem_hangs_at_INT_MAX:
  assumes "0 < n" "n \<le> MAXTHREAD" "addem_run n INT_MAX k s"
  shows "printed s = None"
proof -
  have pre: "addem_pre n INT_MAX" using assms(1,2) by (simp add: addem_pre_def in_int_bounds INT_MAX_def)
  have "workers s n \<noteq> WExit" using last_stuck_run [OF assms(3) pre] by (auto simp: last_stuck_def)
  then have "received n (parent s) \<noteq> n"
    using all_received(1) addem_run_inv [OF assms(3) pre] assms(1) by force
  then show ?thesis using addem_run_inv [OF assms(3) pre]
    by (cases "parent s") (auto simp: count_inv_def)
qed

lemma addem_ends:
  assumes "0 < n" "n \<le> MAXTHREAD" "in_int maxV" "maxV < INT_MAX" "addem_run n maxV k s"
  shows "k \<le> 6 * n + 1 \<and> (parent s \<noteq> MDone \<longrightarrow> (\<exists>t. addem_step n maxV s t))
    \<and> (parent s = MDone \<longrightarrow> k = 6 * n + 1)"
proof -
  have ok: "addem_ok n maxV" "addem_pre n maxV"
    using assms(1-4) by (simp_all add: addem_ok_def addem_pre_def)
  have left: "steps_left n s = 6 * int n + 1 - int k" by (rule steps_left_run [OF assms(5) ok(2)])
  have "0 \<le> worker_left w" for w by (cases w) auto
  then have w0: "0 \<le> workers_left n (workers s)" unfolding workers_left_def by (intro sum_nonneg)
  have inv: "mail_inv n maxV s" "count_inv n maxV s" using addem_run_inv [OF assms(5) ok(2)] by auto
  have "0 \<le> parent_left n (parent s)"
    using inv(1) by (cases "parent s") (auto simp: mail_inv_def)
  with left w0 have "k \<le> 6 * n + 1" by (simp add: steps_left_def)
  moreover have "k = 6 * n + 1" if "parent s = MDone"
  proof -
    have "workers_left n (workers s) = 0"
      using all_received(1) [OF inv(2)] that by (simp add: workers_left_def)
    then show ?thesis using left that by (simp add: steps_left_def)
  qed
  ultimately show ?thesis using addem_progress [OF ok(1) assms(5)] by blast
qed

text \<open>C36. With a maximum below \<open>INT_MAX\<close> the program always comes to its end: no reachable state before the
  end is stuck (the parent and the threads never deadlock on the mailboxes), and a run is at most
  \<open>6 * n + 1\<close> steps long. With \<open>INT_MAX\<close> it never prints anything.\<close>

theorem addem_terminates:
  assumes "addem_main E argv = Inr (Inr (n, maxV))" "addem_run n maxV k s"
  shows "(maxV < INT_MAX \<longrightarrow> k \<le> 6 * n + 1 \<and> (parent s \<noteq> MDone \<longrightarrow> (\<exists>t. addem_step n maxV s t)) \<and>
      (parent s = MDone \<longrightarrow> k = 6 * n + 1)) \<and>
    (maxV = INT_MAX \<longrightarrow> printed s = None)"
  using addem_ends [OF addem_main_started(1-3) [OF assms(1)] _ assms(2)]
    addem_hangs_at_INT_MAX [OF addem_main_started(1,2) [OF assms(1)], of k s] assms(2) by blast

text \<open>For \<open>0 \<le> maxValue \<le> 65535\<close> nothing overflows: the program prints
  \<open>maxValue * (maxValue + 1) / 2\<close>.\<close>

theorem addem_exact_without_overflow:
  assumes "0 < n" "n \<le> MAXTHREAD" "0 \<le> maxV" "maxV \<le> 65535"
    and "addem_run n maxV k s" "parent s = MDone"
  shows "printed s = Some (maxV * (maxV + 1) div 2)"
proof -
  have "in_int maxV" using assms(3,4) by (simp add: in_int_bounds)
  moreover from this have inv: "count_inv n maxV s"
    using addem_run_inv [OF assms(5)] assms(1,2) by (simp add: addem_pre_def)
  moreover have "maxV * (maxV + 1) \<le> 65535 * 65536"
    using assms(3,4) by (intro mult_mono) auto
  then have "in_int (maxV * (maxV + 1) div 2)"
    using assms(3) by (auto simp: in_int_bounds intro: order_trans [OF _ pos_imp_zdiv_nonneg_iff [THEN iffD2]])
  ultimately show ?thesis
    using all_received(2) [OF inv] assms(6) isum_closed [OF assms(3)] by (simp add: count_inv_def)
qed

section \<open>Witnesses\<close>

lemma addem_ok_small: "0 < n \<Longrightarrow> n \<le> 10 \<Longrightarrow> 0 \<le> v \<Longrightarrow> v \<le> 1000 \<Longrightarrow> addem_ok n v"
  by (simp add: addem_ok_def addem_pre_def MAXTHREAD_def in_int_bounds INT_MAX_def)

theorem addem_prints_the_sum_witness:
  "\<exists>k s. addem_run 3 10 k s \<and> parent s = MDone \<and> printed s = Some 55 \<and> improper s = 0"
proof -
  obtain k s where s: "addem_run 3 10 k s" "parent s = MDone"
    using addem_run_to_end [OF addem_start addem_ok_small [of 3 10]] by auto
  have "wrap32 (\<Sum>{1..10}) = 55"
    using isum_closed [of 10] by (simp add: isum_def in_int_bounds)
  moreover have "atoi ''3'' = 3" "atoi ''10'' = 10" by code_simp+
  then have "addem_main all_starts [''addem'', ''3'', ''10''] = Inr (Inr (3, 10))" "atoi ''10'' = 10"
    by (simp_all add: addem_main_def addem_args_def MAXTHREAD_def)
  ultimately show ?thesis using addem_prints_the_sum [OF _ s, of all_starts "[''addem'', ''3'', ''10'']"] s by auto
qed

theorem addem_terminates_witness:
  "\<exists>k s. addem_run 3 10 k s \<and> parent s = MDone \<and> k = 19"
proof -
  obtain k s where s: "addem_run 3 10 k s" "parent s = MDone"
    using addem_run_to_end [OF addem_start addem_ok_small [of 3 10]] by auto
  moreover have "addem_main all_starts [''addem'', ''3'', ''10''] = Inr (Inr (3, 10))"
  proof -
    have "atoi ''3'' = 3" "atoi ''10'' = 10" by code_simp+
    then show ?thesis by (simp add: addem_main_def addem_args_def MAXTHREAD_def)
  qed
  ultimately show ?thesis
    using addem_terminates [of all_starts "[''addem'', ''3'', ''10'']" 3 10 k s] by (auto simp: INT_MAX_def)
qed

theorem addem_exact_without_overflow_witness:
  "\<exists>k s. addem_run 10 100 k s \<and> parent s = MDone \<and> printed s = Some 5050"
proof -
  obtain k s where s: "addem_run 10 100 k s" "parent s = MDone"
    using addem_run_to_end [OF addem_start addem_ok_small [of 10 100]] by auto
  with addem_exact_without_overflow [OF _ _ _ _ s] show ?thesis by (auto simp: MAXTHREAD_def)
qed

theorem addem_hangs_at_INT_MAX_witness:
  "\<exists>s. addem_run 1 INT_MAX 1 s \<and> parent s = MRecv 1 \<and> printed s = None"
proof -
  have "peek (mail addem_init) 1 = None" "balanced MAXTHREAD (mail addem_init)"
    by (simp_all add: addem_init_def)
  then obtain m where "sendMsg (0 + 1) (range_msg 1 INT_MAX 0) (mail addem_init) = Some m"
    using mb.put_enabled [of MAXTHREAD "mail addem_init" 1] by (auto simp: MAXTHREAD_def)
  moreover have "parent addem_init = MSend 0" by (simp add: addem_init_def)
  ultimately obtain s where "addem_step 1 INT_MAX addem_init s" "parent s = MRecv 1"
    using parent_send [of addem_init 0 1 INT_MAX m] by force
  then have s: "addem_run 1 INT_MAX 1 s" "parent s = MRecv 1"
    using addem_next [OF addem_start] by auto
  with addem_hangs_at_INT_MAX [OF _ _ s(1)] show ?thesis by (auto simp: MAXTHREAD_def)
qed

end
