(* ===== verification/StringScan.thy ===== *)
theory StringScan
  imports CString Mailbox
begin

text \<open>
  The sequential half of \<open>project4/proj4.cpp\<close>: the loop that counts strings of at least four
  readable characters, its two readers (buffered \<open>regular_read\<close> and \<open>mmap_regular_read\<close>)
  and the parsing of the command line. The kernel's file calls are parameters: a record of
  what \<open>open\<close>, \<open>fstat\<close>, \<open>mmap\<close> and \<open>read\<close> answer.
\<close>

definition MAXTHREAD4 :: nat where "MAXTHREAD4 = 16"

definition readable :: "char \<Rightarrow> bool" where
  "readable c \<longleftrightarrow> isspace c \<or> isprint c"

lemma not_readable_NUL [simp]: "\<not> readable NUL"
  by (simp add: readable_def isspace_def isprint_def byte_def NUL_def)

section \<open>The scanning loop\<close>

record scan =
  str_length :: int
  num_strings :: int
  max_length :: int

text \<open>The body of the loop over characters, the same in both readers.\<close>

definition scan_char :: "char \<Rightarrow> scan \<Rightarrow> scan" where
  "scan_char c s =
     (let s' = (if readable c
                then let l = str_length s + 1
                     in s\<lparr>str_length := l,
                          max_length := (if max_length s < l then l else max_length s)\<rparr>
                else s\<lparr>str_length := 0\<rparr>)
      in if str_length s' = 4 then s'\<lparr>num_strings := num_strings s' + 1\<rparr> else s')"

definition scan_chars :: "string \<Rightarrow> scan \<Rightarrow> scan" where
  "scan_chars cs s = fold scan_char cs s"

text \<open>\<open>main\<close> starts with \<open>str_length = 0\<close>, \<open>num_strings = 0\<close>, \<open>max_length = -1\<close>.\<close>

definition scan_init :: scan where
  "scan_init = \<lparr>str_length = 0, num_strings = 0, max_length = - 1\<rparr>"

section \<open>The readers\<close>

record os =
  os_open :: "string \<Rightarrow> string option"    \<comment> \<open>the contents of a file that can be opened\<close>
  os_fstat :: "string \<Rightarrow> bool"             \<comment> \<open>whether \<open>fstat\<close> succeeds\<close>
  os_mmap :: "string \<Rightarrow> string option"    \<comment> \<open>the mapped bytes, \<open>None\<close> for MAP_FAILED\<close>
  os_munmap :: "string \<Rightarrow> bool"
  os_read :: "nat \<Rightarrow> string \<Rightarrow> nat"        \<comment> \<open>bytes returned: request, rest of the file\<close>
  os_start :: startup                     \<comment> \<open>semaphores and threads\<close>

datatype read_error = File_open | No_stat | No_mmap | No_munmap | Not_started start_error

text \<open>
  The \<open>while\<close> loop over \<open>read\<close>: a call returns at most the request and at most what is
  left, and 0 or an error ends the loop. The buffer was filled with NUL bytes beforehand and
  is scanned up to \<open>BUFSIZE\<close>, not up to \<open>cnt\<close>.
\<close>

function read_loop :: "(nat \<Rightarrow> string \<Rightarrow> nat) \<Rightarrow> nat \<Rightarrow> string \<Rightarrow> scan \<Rightarrow> scan" where
  "read_loop rd BUFSIZE file s =
     (let cnt = min (rd BUFSIZE file) (min BUFSIZE (length file)) in
      if cnt > 0
      then read_loop rd BUFSIZE (drop cnt file)
             (scan_chars (take cnt file @ replicate (BUFSIZE - cnt) NUL) s)
      else s)"
  by pat_completeness auto
termination
  by (relation "measure (\<lambda>(rd, B, file, s). length file)") auto

declare read_loop.simps [simp del]

definition regular_read :: "os \<Rightarrow> nat \<Rightarrow> string \<Rightarrow> scan \<Rightarrow> read_error + (int \<times> scan)" where
  "regular_read os BUFSIZE filename s =
     (case os_open os filename of
        None \<Rightarrow> Inl File_open
      | Some file \<Rightarrow>
          if \<not> os_fstat os filename then Inl No_stat
          else Inr (wrap32 (int (length file)), read_loop (os_read os) BUFSIZE file s))"

text \<open>\<open>int fileSize = sb.st_size\<close> keeps the low 32 bits.\<close>

definition mmap_regular_read :: "os \<Rightarrow> string \<Rightarrow> scan \<Rightarrow> read_error + (int \<times> scan)" where
  "mmap_regular_read os filename s =
     (case os_open os filename of
        None \<Rightarrow> Inl File_open
      | Some file \<Rightarrow>
          if \<not> os_fstat os filename then Inl No_stat
          else case os_mmap os file of
            None \<Rightarrow> Inl No_mmap
          | Some pchFile \<Rightarrow>
              let fileSize = wrap32 (int (length file));
                  s' = scan_chars (take (nat fileSize) pchFile) s
              in if \<not> os_munmap os pchFile then Inl No_munmap
                 else Inr (fileSize, s'))"

section \<open>The command line\<close>

datatype mode = Regular nat | Mmap | Threads nat

datatype arg_error = Bad_args | Threads_too_few | Threads_too_many | Buffer_too_small
  | Buffer_too_big

text \<open>\<open>main\<close> up to the call of a reader: the mode and the file name, or the message before
  \<open>exit\<close>. A third argument that is none of the documented forms selects the default.\<close>

definition parse_args :: "string list \<Rightarrow> arg_error + (mode \<times> string)" where
  "parse_args argv =
     (let argc = length argv in
      if argc < 2 \<or> argc > 3 then Inl Bad_args
      else
        let a = (if argc = 3 then c_str (argv ! 2) else []);
            c0 = (if a = [] then NUL else hd a);
            ismmap = (argc = 3 \<and> (a = ''mmap'' \<or> c0 = CHR ''p''));
            multi = (argc = 3 \<and> c0 = CHR ''p'');
            threads = (if multi then atoi (tl a) else 1);
            buf = (if argc = 3 \<and> isdigit c0 then atoi a else - 1)
        in if multi \<and> threads \<le> 0 then Inl Threads_too_few
           else if multi \<and> threads > int MAXTHREAD4 then Inl Threads_too_many
           else if argc = 3 \<and> isdigit c0 \<and> buf \<le> 0 then Inl Buffer_too_small
           else
             let BUFSIZE = (if buf > 0 then buf else 1024)
             in if BUFSIZE > 8192 then Inl Buffer_too_big
                else Inr (if \<not> ismmap then Regular (nat BUFSIZE)
                          else if multi then Threads (nat threads) else Mmap,
                          argv ! 1))"

section \<open>What a scan computes\<close>

text \<open>
  Three functions of a text and the length \<open>L\<close> of the readable run before it: the run at its
  end, how many runs reach length four in it, and the longest run seen in it (0 without a
  readable character).
\<close>

fun end_run :: "int \<Rightarrow> string \<Rightarrow> int" where
  "end_run L [] = L"
| "end_run L (c # cs) = end_run (if readable c then L + 1 else 0) cs"

fun long_runs :: "int \<Rightarrow> string \<Rightarrow> int" where
  "long_runs L [] = 0"
| "long_runs L (c # cs) =
     (let l = (if readable c then L + 1 else 0)
      in (if l = 4 then 1 else 0) + long_runs l cs)"

fun max_run :: "int \<Rightarrow> string \<Rightarrow> int" where
  "max_run L [] = 0"
| "max_run L (c # cs) =
     (let l = (if readable c then L + 1 else 0) in max l (max_run l cs))"

definition some_readable :: "string \<Rightarrow> bool" where
  "some_readable cs \<longleftrightarrow> (\<exists>c\<in>set cs. readable c)"

lemma max_run_nonneg [simp]: "0 \<le> max_run L cs"
  by (induction cs arbitrary: L) (auto simp: Let_def le_max_iff_disj)

lemma max_run_none [simp]: "\<not> some_readable cs \<Longrightarrow> max_run L cs = 0"
  by (induction cs arbitrary: L) (auto simp: Let_def some_readable_def)

lemma max_run_some: "some_readable cs \<Longrightarrow> 0 \<le> L \<Longrightarrow> 1 \<le> max_run L cs"
  by (induction cs arbitrary: L) (auto simp: Let_def some_readable_def le_max_iff_disj)

lemma scan_chars_Nil [simp]: "scan_chars [] s = s"
  by (simp add: scan_chars_def)

lemma scan_chars_Cons [simp]: "scan_chars (c # cs) s = scan_chars cs (scan_char c s)"
  by (simp add: scan_chars_def)

lemma scan_chars_append [simp]: "scan_chars (xs @ ys) s = scan_chars ys (scan_chars xs s)"
  by (simp add: scan_chars_def)

lemma scan_char_fields:
  "str_length (scan_char c s) = (if readable c then str_length s + 1 else 0)"
  "num_strings (scan_char c s) =
     num_strings s + (if readable c \<and> str_length s + 1 = 4 then 1 else 0)"
  "max_length (scan_char c s) =
     (if readable c then max (max_length s) (str_length s + 1) else max_length s)"
  by (auto simp: scan_char_def Let_def)

lemma scan_chars_fields:
  assumes "0 \<le> str_length s"
  shows "str_length (scan_chars cs s) = end_run (str_length s) cs"
    and "num_strings (scan_chars cs s) = num_strings s + long_runs (str_length s) cs"
    and "max_length (scan_chars cs s) =
       (if some_readable cs then max (max_length s) (max_run (str_length s) cs) else max_length s)"
  using assms
proof (induction cs arbitrary: s)
  case Nil
  { case 1 show ?case by simp next case 2 show ?case by simp
    next case 3 show ?case by (simp add: some_readable_def) }
next
  case (Cons c cs)
  have pos: "0 \<le> str_length (scan_char c s)" if "0 \<le> str_length s"
    for s :: scan using that by (simp add: scan_char_fields)
  { case 1 then show ?case using Cons(1) [OF pos [OF 1]] by (simp add: scan_char_fields) next
    case 2 then show ?case using Cons(2) [OF pos [OF 2]] by (simp add: scan_char_fields Let_def) next
    case 3
    show ?case
    proof (cases "some_readable cs")
      case True
      then show ?thesis using Cons(3) [OF pos [OF 3]] 3
        by (auto simp: scan_char_fields Let_def some_readable_def max_def) 
    next
      case False
      then show ?thesis using Cons(3) [OF pos [OF 3]] 3
        by (auto simp: scan_char_fields Let_def some_readable_def)
    qed }
qed


section \<open>Texts one after the other\<close>

lemma end_run_append [simp]: "end_run L (xs @ ys) = end_run (end_run L xs) ys"
  by (induction xs arbitrary: L) auto

lemma long_runs_append [simp]:
  "long_runs L (xs @ ys) = long_runs L xs + long_runs (end_run L xs) ys"
  by (induction xs arbitrary: L) (auto simp: Let_def)

lemma max_run_append [simp]:
  "max_run L (xs @ ys) = max (max_run L xs) (max_run (end_run L xs) ys)"
  by (induction xs arbitrary: L) (auto simp: Let_def)

lemma some_readable_append [simp]:
  "some_readable (xs @ ys) \<longleftrightarrow> some_readable xs \<or> some_readable ys"
  by (auto simp: some_readable_def)

lemma end_run_nonneg [simp]: "0 \<le> L \<Longrightarrow> 0 \<le> end_run L cs"
  by (induction cs arbitrary: L) auto

lemma some_readable_NULs [simp]: "\<not> some_readable (replicate n NUL)"
  by (simp add: some_readable_def)

lemma long_runs_NULs [simp]: "long_runs L (replicate n NUL) = 0"
  by (induction n arbitrary: L) (simp_all add: Let_def)

lemma end_run_NULs [simp]: "end_run L (replicate n NUL) = (if n = 0 then L else 0)"
  by (induction n arbitrary: L) simp_all

text \<open>A run of readable characters, and a text with an unreadable one in it.\<close>

lemma readable_run:
  assumes "\<forall>c\<in>set p. readable c" "0 \<le> L"
  shows "end_run L p = L + int (length p)"
    and "long_runs L p = (if L < 4 \<and> 4 \<le> L + int (length p) then 1 else 0)"
    and "max_run L p = (if p = [] then 0 else L + int (length p))"
  using assms by (induction p arbitrary: L) (auto simp: Let_def)

section \<open>The buffered reader\<close>

text \<open>Full reads: every call but those at the end of the file returns the whole request.\<close>

definition full_reads :: "(nat \<Rightarrow> string \<Rightarrow> nat) \<Rightarrow> bool" where
  "full_reads rd \<longleftrightarrow> (\<forall>n dat. rd n dat = min n (length dat))"

lemma scan_eqI:
  fixes s t :: scan
  shows "str_length s = str_length t \<Longrightarrow> num_strings s = num_strings t \<Longrightarrow>
    max_length s = max_length t \<Longrightarrow> s = t"
  by simp

lemma read_loop_full:
  assumes "full_reads rd" "0 < B" "0 \<le> str_length s"
  shows "num_strings (read_loop rd B dat s) = num_strings (scan_chars dat s)
    \<and> max_length (read_loop rd B dat s) = max_length (scan_chars dat s)"
  using assms
proof (induction rd B dat s rule: read_loop.induct)
  case (1 rd B dat s)
  let ?cnt = "min B (length dat)"
  have cnt: "min (rd B dat) (min B (length dat)) = ?cnt"
    using "1.prems"(1) by (simp add: full_reads_def)
  show ?case
  proof (cases "dat = []")
    case True
    then show ?thesis by (simp add: read_loop.simps [of rd B "[]" s])
  next
    case False
    with "1.prems"(2) have pos: "0 < ?cnt" by simp
    let ?buf = "take ?cnt dat @ replicate (B - ?cnt) NUL"
    have nn: "0 \<le> str_length (scan_chars ?buf s)"
      using "1.prems"(3) by (simp only: scan_chars_fields end_run_nonneg)
    have unfold: "read_loop rd B dat s = read_loop rd B (drop ?cnt dat) (scan_chars ?buf s)"
      using pos cnt by (simp add: read_loop.simps [of rd B dat s] Let_def)
    have IH: "num_strings (read_loop rd B (drop ?cnt dat) (scan_chars ?buf s)) =
          num_strings (scan_chars (drop ?cnt dat) (scan_chars ?buf s))
        \<and> max_length (read_loop rd B (drop ?cnt dat) (scan_chars ?buf s)) =
          max_length (scan_chars (drop ?cnt dat) (scan_chars ?buf s))"
      using "1.IH" [OF refl, unfolded cnt] pos nn "1.prems" by blast
    show ?thesis
    proof (cases "length dat < B")
      case True
      then show ?thesis using IH "1.prems"(3)
        by (simp add: unfold scan_chars_fields)
    next
      case False
      then have "?buf = take ?cnt dat" by simp
      then show ?thesis using IH unfold
        by (metis append_take_drop_id scan_chars_append)
    qed
  qed
qed

text \<open>
  C34. With a buffer of any size, and as long as \<open>read\<close> returns as many bytes as it was asked for while
  the file has them (\<open>full_reads\<close>), the buffered reader counts the same
  strings and finds the same maximum as one scan over the whole file, across buffer
  boundaries and in spite of the NUL padding of the last buffer. The comment above the function in the
  source says that it does not work for some reason; for the function as it stands there this is not so.
\<close>

theorem regular_read_scans_file:
  assumes "full_reads (os_read os)" "0 < B" "0 \<le> str_length s" "in_int (int (length dat))"
    and "os_open os name = Some dat" "os_fstat os name"
  shows "\<exists>s'. regular_read os B name s = Inr (int (length dat), s')
    \<and> num_strings s' = num_strings (scan_chars dat s)
    \<and> max_length s' = max_length (scan_chars dat s)"
  using assms read_loop_full [OF assms(1-3), of dat] by (simp add: regular_read_def)

text \<open>The two readers agree: for a file that can be opened and mapped, buffered reading
  and memory-mapped reading print the same three numbers.\<close>

theorem readers_agree:
  assumes "full_reads (os_read os)" "0 < B" "in_int (int (length dat))"
    and "os_open os name = Some dat" "os_fstat os name"
    and "os_mmap os dat = Some dat" "os_munmap os dat"
  shows "\<exists>r m. regular_read os B name scan_init = Inr (int (length dat), r)
    \<and> mmap_regular_read os name scan_init = Inr (int (length dat), m)
    \<and> num_strings r = num_strings m \<and> max_length r = max_length m"
  using assms read_loop_full [OF assms(1,2), of scan_init dat]
  by (simp add: regular_read_def mmap_regular_read_def Let_def scan_init_def)


section \<open>Witnesses\<close>

text \<open>A disk with the one file \<open>f\<close>, all calls successful.\<close>

definition demo_os :: "string \<Rightarrow> os" where
  "demo_os contents =
     \<lparr>os_open = (\<lambda>name. if name = ''f'' then Some contents else None), os_fstat = (\<lambda>_. True),
      os_mmap = Some, os_munmap = (\<lambda>_. True), os_read = (\<lambda>n dat. min n (length dat)),
      os_start = all_starts\<rparr>"

lemma demo_os_calls [simp]:
  "full_reads (os_read (demo_os contents))" "os_open (demo_os contents) ''f'' = Some contents"
  "os_fstat (demo_os contents) name" "os_mmap (demo_os contents) dat = Some dat"
  "os_munmap (demo_os contents) dat" "os_start (demo_os contents) = all_starts"
  by (simp_all add: full_reads_def demo_os_def)

theorem regular_read_scans_file_witness:
  "\<exists>s'. regular_read (demo_os ''ab cdefg'') 4 ''f'' scan_init = Inr (8, s')
    \<and> num_strings s' = 1 \<and> max_length s' = 8"
proof -
  have "num_strings (scan_chars ''ab cdefg'' scan_init) = 1"
    "max_length (scan_chars ''ab cdefg'' scan_init) = 8"
    by (simp_all add: scan_init_def scan_char_def readable_def isspace_def isprint_def byte_def
        Let_def)
  moreover have "0 \<le> str_length scan_init" by (simp add: scan_init_def)
  moreover have "in_int (int (length ''ab cdefg''))" by (simp add: in_int_bounds)
  ultimately show ?thesis
    using regular_read_scans_file [of "demo_os ''ab cdefg''" 4 scan_init "''ab cdefg''" "''f''"]
    by auto
qed

theorem readers_agree_witness:
  "\<exists>r m. regular_read (demo_os ''ab cdefg'') 4 ''f'' scan_init = Inr (8, r)
    \<and> mmap_regular_read (demo_os ''ab cdefg'') ''f'' scan_init = Inr (8, m)
    \<and> num_strings r = num_strings m \<and> max_length r = max_length m"
proof -
  have "in_int (int (length ''ab cdefg''))" by (simp add: in_int_bounds)
  then show ?thesis
    using readers_agree [of "demo_os ''ab cdefg''" 4 "''ab cdefg''" "''f''"] by auto
qed

end
