(* ===== verification/StringThreads.thy ===== *)
theory StringThreads
  imports StringScan
begin

text \<open>
  The threaded half of \<open>project4/proj4.cpp\<close>: \<open>sumthread\<close> scans one range of the mapped
  file, \<open>mmap_read\<close> sends the ranges, joins the threads and merges their answers.
\<close>

definition RANGE4 :: int where "RANGE4 = 1"
definition ALLDONE4 :: int where "ALLDONE4 = 2"

record msg4 =
  iFrom4 :: int
  mtype4 :: int
  val1 :: int
  val2 :: int
  val3 :: int
  val4 :: int

section \<open>One thread\<close>

record tscan =
  isBeginning :: bool
  charsAtBegin :: int
  t_num_strings :: int
  t_str_length :: int
  t_max_length :: int

definition tscan_init :: tscan where
  "tscan_init = \<lparr>isBeginning = True, charsAtBegin = 0, t_num_strings = 0, t_str_length = 0,
                 t_max_length = 0\<rparr>"

definition tscan_char :: "char \<Rightarrow> tscan \<Rightarrow> tscan" where
  "tscan_char c s =
     (let s' = (if readable c
                then let l = t_str_length s + 1
                     in s\<lparr>charsAtBegin := (if isBeginning s then charsAtBegin s + 1
                                           else charsAtBegin s),
                          t_str_length := l,
                          t_max_length := (if t_max_length s < l then l else t_max_length s)\<rparr>
                else s\<lparr>isBeginning := False, t_str_length := 0\<rparr>)
      in if t_str_length s' = 4 then s'\<lparr>t_num_strings := t_num_strings s' + 1\<rparr> else s')"

text \<open>The bytes \<open>byteFrom .. byteTo\<close> of the mapped file.\<close>

definition bytes_between :: "string \<Rightarrow> int \<Rightarrow> int \<Rightarrow> string" where
  "bytes_between pchFile byteFrom byteTo =
     take (nat (byteTo - byteFrom + 1)) (drop (nat byteFrom) pchFile)"

text \<open>\<open>sumthread\<close> between its \<open>recvMsg\<close> and its \<open>sendMsg\<close>; \<open>None\<close> is the \<open>exit(1)\<close> after
  a first message that is not a RANGE.\<close>

definition thread_reply :: "string \<Rightarrow> msg4 \<Rightarrow> msg4 option" where
  "thread_reply pchFile message =
     (if mtype4 message \<noteq> RANGE4 then None
      else let t = fold tscan_char (bytes_between pchFile (val1 message) (val2 message)) tscan_init
           in Some (message\<lparr>val1 := t_num_strings t, val2 := charsAtBegin t,
                            val3 := t_str_length t, val4 := t_max_length t, mtype4 := ALLDONE4\<rparr>))"

section \<open>The ranges and the merge\<close>

definition range_msg4 :: "nat \<Rightarrow> int \<Rightarrow> nat \<Rightarrow> msg4" where
  "range_msg4 numberOfThreads fileSize i =
     (let range = fileSize sdiv int numberOfThreads in
      if i < numberOfThreads - 1
      then \<lparr>iFrom4 = 0, mtype4 = RANGE4, val1 = int i * range, val2 = (int i + 1) * range - 1,
            val3 = 0, val4 = 0\<rparr>
      else \<lparr>iFrom4 = 0, mtype4 = RANGE4, val1 = (int numberOfThreads - 1) * range,
            val2 = fileSize - 1, val3 = 0, val4 = 0\<rparr>)"

record merge =
  m_num_strings :: int
  m_max_length :: int
  maxLengthEnd :: "nat \<Rightarrow> int"
  maxStringLength :: "nat \<Rightarrow> int"
  previous_end :: int
  m_improper :: nat

definition merge_init :: "int \<Rightarrow> merge" where
  "merge_init max_len =
     \<lparr>m_num_strings = 0, m_max_length = max_len, maxLengthEnd = (\<lambda>_. 0),
      maxStringLength = (\<lambda>_. 0), previous_end = 0, m_improper = 0\<rparr>"

text \<open>The body of the loop that "smushes" the answer of thread \<open>i\<close> into the result.\<close>

definition merge_step :: "nat \<Rightarrow> msg4 \<Rightarrow> merge \<Rightarrow> merge" where
  "merge_step i message st =
     (if mtype4 message = ALLDONE4 then
        let numberOfStrings = val1 message;
            charsBegin = val2 message;
            charsAtEnd = val3 message;
            maxLengthProv = val4 message;
            num = m_num_strings st + numberOfStrings
        in if numberOfStrings \<le> 1 \<and> charsBegin = charsAtEnd \<and> charsBegin \<noteq> 0 then
             let mle = maxLengthEnd st (i - 1) + charsBegin
             in st\<lparr>maxLengthEnd := (maxLengthEnd st)(i := mle),
                   maxStringLength := (maxStringLength st)(i := mle),
                   m_max_length := (if mle > m_max_length st then mle else m_max_length st),
                   m_num_strings := (if previous_end st \<ge> 4 then num - 1 else num),
                   previous_end := charsAtEnd\<rparr>
           else
             let merged = maxLengthEnd st (i - 1) + charsBegin;
                 msl = (if merged > maxLengthProv then merged else maxLengthProv)
             in st\<lparr>maxLengthEnd := (maxLengthEnd st)(i := charsAtEnd),
                   maxStringLength := (maxStringLength st)(i := msl),
                   m_max_length := (if msl > m_max_length st then msl else m_max_length st),
                   m_num_strings :=
                     (if previous_end st + charsBegin \<ge> 4 \<and> (charsBegin < 4 \<and> previous_end st < 4)
                      then num + 1
                      else if previous_end st \<ge> 4 \<and> charsBegin \<ge> 4 then num - 1 else num),
                   previous_end := charsAtEnd\<rparr>
      else st\<lparr>m_improper := m_improper st + 1\<rparr>)"

text \<open>The loop over \<open>i = 1 .. numberOfThreads\<close>.\<close>

fun merge_all :: "nat \<Rightarrow> msg4 list \<Rightarrow> merge \<Rightarrow> merge" where
  "merge_all i [] st = st"
| "merge_all i (m # ms) st = merge_all (Suc i) ms (merge_step i m st)"

section \<open>What a thread reports about its range\<close>

lemma tscan_fields:
  assumes "0 \<le> t_str_length s"
  shows "t_str_length (fold tscan_char cs s) = end_run (t_str_length s) cs"
    and "t_num_strings (fold tscan_char cs s) = t_num_strings s + long_runs (t_str_length s) cs"
    and "t_max_length (fold tscan_char cs s) =
       (if some_readable cs then max (t_max_length s) (max_run (t_str_length s) cs)
        else t_max_length s)"
    and "charsAtBegin (fold tscan_char cs s) =
       charsAtBegin s + (if isBeginning s then int (length (takeWhile readable cs)) else 0)"
proof -
  have "t_str_length (fold tscan_char cs s) = end_run (t_str_length s) cs \<and>
    t_num_strings (fold tscan_char cs s) = t_num_strings s + long_runs (t_str_length s) cs \<and>
    t_max_length (fold tscan_char cs s) =
       (if some_readable cs then max (t_max_length s) (max_run (t_str_length s) cs)
        else t_max_length s) \<and>
    charsAtBegin (fold tscan_char cs s) =
       charsAtBegin s + (if isBeginning s then int (length (takeWhile readable cs)) else 0)"
    using assms
  proof (induction cs arbitrary: s)
    case Nil
    then show ?case by (simp add: some_readable_def)
  next
    case (Cons c cs)
    have "0 \<le> t_str_length (tscan_char c s)"
      using Cons.prems by (simp add: tscan_char_def Let_def)
    from Cons.IH [OF this] Cons.prems show ?case
      by (auto simp: tscan_char_def Let_def some_readable_def max_def)
  qed
  then show "t_str_length (fold tscan_char cs s) = end_run (t_str_length s) cs"
    and "t_num_strings (fold tscan_char cs s) = t_num_strings s + long_runs (t_str_length s) cs"
    and "t_max_length (fold tscan_char cs s) =
       (if some_readable cs then max (t_max_length s) (max_run (t_str_length s) cs)
        else t_max_length s)"
    and "charsAtBegin (fold tscan_char cs s) =
       charsAtBegin s + (if isBeginning s then int (length (takeWhile readable cs)) else 0)"
    by blast+
qed


text \<open>The leading and the trailing run of a range, as a thread reports them.\<close>

definition begin_run :: "string \<Rightarrow> int" where
  "begin_run cs = int (length (takeWhile readable cs))"

definition all_readable :: "string \<Rightarrow> bool" where
  "all_readable cs \<longleftrightarrow> (\<forall>c\<in>set cs. readable c)"

definition reports :: "msg4 \<Rightarrow> string \<Rightarrow> bool" where
  "reports m cs \<longleftrightarrow> mtype4 m = ALLDONE4 \<and> val1 m = long_runs 0 cs \<and> val2 m = begin_run cs \<and>
     val3 m = end_run 0 cs \<and> val4 m = max_run 0 cs"

lemma thread_reply_reports:
  assumes "mtype4 message = RANGE4"
  shows "\<exists>m. thread_reply pchFile message = Some m \<and>
    reports m (bytes_between pchFile (val1 message) (val2 message))"
  using assms tscan_fields [of tscan_init]
  by (simp add: thread_reply_def Let_def reports_def begin_run_def tscan_init_def)

section \<open>A range after a text that ends in a run of length L\<close>

lemma run_all_readable:
  assumes "all_readable cs" "0 \<le> L"
  shows "end_run L cs = L + begin_run cs"
    and "long_runs L cs = (if L < 4 \<and> 4 \<le> L + begin_run cs then 1 else 0)"
    and "max_run L cs = (if cs = [] then 0 else L + begin_run cs)"
proof -
  have tw: "takeWhile readable cs = cs"
    using assms(1) by (simp add: all_readable_def takeWhile_eq_all_conv)
  show "end_run L cs = L + begin_run cs"
    and "long_runs L cs = (if L < 4 \<and> 4 \<le> L + begin_run cs then 1 else 0)"
    and "max_run L cs = (if cs = [] then 0 else L + begin_run cs)"
    using readable_run [of cs L] assms by (simp_all add: all_readable_def begin_run_def tw)
qed

lemma split_at_unreadable:
  assumes "\<not> all_readable cs"
  obtains x r where "cs = takeWhile readable cs @ x # r" "\<not> readable x"
proof -
  have "dropWhile readable cs \<noteq> []" using assms by (auto simp: all_readable_def)
  then obtain x r where d: "dropWhile readable cs = x # r" by (cases "dropWhile readable cs") auto
  then have "\<not> readable x" using hd_dropWhile [of readable cs] by simp
  with d that show thesis by (metis takeWhile_dropWhile_id)
qed

lemma run_some_unreadable:
  assumes "\<not> all_readable cs" "0 \<le> L"
  shows "end_run L cs = end_run 0 cs"
    and "long_runs L cs = long_runs 0 cs +
       (if L < 4 \<and> begin_run cs < 4 \<and> 4 \<le> L + begin_run cs then 1
        else if 4 \<le> L \<and> 4 \<le> begin_run cs then - 1 else 0)"
    and "max_run L cs = max (max_run 0 cs) (if begin_run cs = 0 then 0 else L + begin_run cs)"
proof -
  obtain x r where cs: "cs = takeWhile readable cs @ x # r" and x: "\<not> readable x"
    using split_at_unreadable [OF assms(1)] .
  have p: "\<forall>c\<in>set (takeWhile readable cs). readable c" by (auto dest: set_takeWhileD)
  note runL = readable_run [OF p assms(2)] and run0 = readable_run [OF p order_refl]
  show "end_run L cs = end_run 0 cs"
    by (subst (1 2) cs) (simp add: x)
  show "long_runs L cs = long_runs 0 cs +
       (if L < 4 \<and> begin_run cs < 4 \<and> 4 \<le> L + begin_run cs then 1
        else if 4 \<le> L \<and> 4 \<le> begin_run cs then - 1 else 0)"
    using runL run0 assms(2) by (subst (1 2) cs) (simp add: x Let_def begin_run_def)
  show "max_run L cs = max (max_run 0 cs) (if begin_run cs = 0 then 0 else L + begin_run cs)"
    using runL run0 assms(2)
    by (subst (1 2) cs) (auto simp: x Let_def begin_run_def max.assoc max.commute max.left_commute
        max_absorb1 max_absorb2)
qed

lemma end_run_le_max: "0 \<le> L \<Longrightarrow> end_run L cs \<le> max L (max_run L cs)"
proof (induction cs arbitrary: L)
  case (Cons c cs)
  then show ?case using Cons.IH [of "if readable c then L + 1 else 0"] 
    by (auto simp: Let_def max_absorb2 le_max_iff_disj)
qed simp

text \<open>
  The ranges for which the merge is right. A range without an unreadable byte has to hold at
  least four bytes. A range with one must not be taken for such a range: the test of
  \<open>mmap_read\<close> (at most one string, leading and trailing run equal and not empty) must fail.
\<close>

definition mergeable :: "string \<Rightarrow> bool" where
  "mergeable cs \<longleftrightarrow>
     (if all_readable cs then 4 \<le> length cs
      else \<not> (long_runs 0 cs \<le> 1 \<and> begin_run cs = end_run 0 cs \<and> begin_run cs \<noteq> 0))"

definition merge_inv :: "nat \<Rightarrow> string \<Rightarrow> merge \<Rightarrow> bool" where
  "merge_inv i pre st \<longleftrightarrow>
     maxLengthEnd st (i - 1) = end_run 0 pre \<and>
     m_num_strings st = long_runs 0 pre \<and>
     max 0 (m_max_length st) = max_run 0 pre \<and> - 1 \<le> m_max_length st \<and>
     (if end_run 0 pre < 4 then previous_end st = end_run 0 pre else 4 \<le> previous_end st) \<and>
     m_improper st = 0"

lemma merge_step_inv:
  assumes inv: "merge_inv i pre st" and i: "1 \<le> i" and rep: "reports m cs" and ok: "mergeable cs"
  shows "merge_inv (Suc i) (pre @ cs) (merge_step i m st)
    \<and> 0 \<le> m_max_length (merge_step i m st)"
proof -
  obtain E where E: "end_run 0 pre = E" by simp
  have L: "0 \<le> E" "E \<le> max_run 0 pre"
    using end_run_le_max [of 0 pre] end_run_nonneg [of 0 pre] unfolding E
    by (simp_all add: max_absorb2)
  have b: "0 \<le> begin_run cs" by (simp add: begin_run_def)
  show ?thesis
  proof (cases "all_readable cs")
    case True
    then have "takeWhile readable cs = cs"
      by (simp add: all_readable_def takeWhile_eq_all_conv)
    then have "begin_run cs = int (length cs)" by (simp only: begin_run_def)
    with ok True have b4: "4 \<le> begin_run cs" "cs \<noteq> []" by (auto simp: mergeable_def)
    note r0 = run_all_readable [OF True order_refl] and rL = run_all_readable [OF True L(1)]
    show ?thesis using inv rep i L b4 r0 rL
      by (auto simp: merge_inv_def merge_step_def reports_def Let_def max_def E split: if_splits)
  next
    case False
    note rL = run_some_unreadable [OF False L(1)]
    have nw: "\<not> (long_runs 0 cs \<le> 1 \<and> begin_run cs = end_run 0 cs \<and> begin_run cs \<noteq> 0)"
      using ok False by (simp add: mergeable_def)
    let ?st = "merge_step i m st"
    have nums: "m_num_strings ?st = long_runs 0 (pre @ cs)"
      using inv rep nw rL(2) L(1) b
      by (auto simp: merge_inv_def merge_step_def reports_def Let_def E split: if_splits)
    have "m_max_length ?st = max (m_max_length st) (max (E + begin_run cs) (max_run 0 cs))"
      using inv rep nw i by (auto simp: merge_inv_def merge_step_def reports_def Let_def E max_def)
    moreover have "max_run 0 (pre @ cs) =
        max (max 0 (m_max_length st)) (max (E + begin_run cs) (max_run 0 cs))"
      using inv L b by (auto simp: merge_inv_def E rL(3) max_def)
    moreover have "0 \<le> max (E + begin_run cs) (max_run 0 cs)" by (simp add: le_max_iff_disj)
    ultimately have maxs: "m_max_length ?st = max_run 0 (pre @ cs)" "0 \<le> m_max_length ?st"
      by (simp_all add: max.assoc max.left_commute max_absorb2 le_max_iff_disj)
    have "maxLengthEnd ?st i = end_run 0 cs" "previous_end ?st = end_run 0 cs"
      "m_improper ?st = 0"
      using inv rep nw by (auto simp: merge_inv_def merge_step_def reports_def Let_def)
    with nums maxs show ?thesis by (simp add: merge_inv_def E rL(1))
  qed
qed


lemma merge_all_inv:
  assumes "merge_inv i pre st" "1 \<le> i" "list_all2 reports ms css" "\<forall>cs\<in>set css. mergeable cs"
  shows "merge_inv (i + length ms) (pre @ concat css) (merge_all i ms st)
    \<and> (ms \<noteq> [] \<longrightarrow> 0 \<le> m_max_length (merge_all i ms st))"
  using assms(3,1,2,4)
proof (induction ms css arbitrary: i pre st rule: list_all2_induct)
  case Nil
  then show ?case by simp
next
  case (Cons m ms cs css)
  have step: "merge_inv (Suc i) (pre @ cs) (merge_step i m st)"
    "0 \<le> m_max_length (merge_step i m st)"
    using merge_step_inv [OF Cons.prems(1,2) Cons.hyps(1)] Cons.prems(3) by auto
  from Cons.IH [OF step(1)] Cons.prems(3) step(2) show ?case by (cases ms) auto
qed

lemma merge_inv_init: "m = 0 \<or> m = - 1 \<Longrightarrow> merge_inv 1 [] (merge_init m)"
  by (auto simp: merge_inv_def merge_init_def)

section \<open>The ranges cover the file\<close>

definition range_text :: "nat \<Rightarrow> string \<Rightarrow> nat \<Rightarrow> string" where
  "range_text n dat i =
     bytes_between dat (val1 (range_msg4 n (int (length dat)) i))
       (val2 (range_msg4 n (int (length dat)) i))"

lemma sdiv_nat: "int a sdiv int b = int (a div b)"
  by (cases "a = 0 \<or> b = 0") (auto simp: signed_divide_int_def zdiv_int)

lemma bytes_between_nat:
  "bytes_between dat (int a) (int a + int k - 1) = take k (drop a dat)"
  by (simp add: bytes_between_def)

lemma bytes_between_rest:
  "a \<le> length dat \<Longrightarrow> bytes_between dat (int a) (int (length dat) - 1) = drop a dat"
  by (simp add: bytes_between_def)

lemma range_text_eq:
  assumes "0 < n" "i < n"
  shows "range_text n dat i =
    (if i < n - 1 then take (length dat div n) (drop (i * (length dat div n)) dat)
     else drop ((n - 1) * (length dat div n)) dat)"
proof -
  obtain r where r: "length dat div n = r" by simp
  have "(n - 1) * r \<le> length dat"
    using times_div_less_eq_dividend [of n "length dat"] mult_le_mono1 [of "n - 1" n r] r
    by (metis diff_le_self le_trans)
  then have last: "bytes_between dat (int ((n - 1) * r)) (int (length dat) - 1) = drop ((n - 1) * r) dat"
    by (rule bytes_between_rest)
  have "range_msg4 n (int (length dat)) i =
     \<lparr>iFrom4 = 0, mtype4 = RANGE4, val1 = int ((if i < n - 1 then i else n - 1) * r),
      val2 = (if i < n - 1 then int (i * r) + int r - 1 else int (length dat) - 1),
      val3 = 0, val4 = 0\<rparr>"
    using assms by (simp add: range_msg4_def Let_def sdiv_nat r algebra_simps of_nat_diff)
  then show ?thesis
    using bytes_between_nat [of dat "i * r" r] last by (simp add: range_text_def r)
qed

lemma concat_ranges:
  assumes "0 < n"
  shows "concat (map (range_text n dat) [0..<n]) = dat"
proof -
  let ?r = "length dat div n"
  have pre: "concat (map (range_text n dat) [0..<k]) = take (k * ?r) dat" if "k \<le> n - 1" for k
    using that
  proof (induction k)
    case (Suc k)
    then have "k < n - 1" "k < n" by auto
    with Suc assms show ?case
      using take_add [of "k * ?r" ?r dat] by (simp add: range_text_eq add.commute)
  qed simp
  have "[0..<n] = [0..<n - 1] @ [n - 1]" using assms upt_Suc_append [of 0 "n - 1"] by simp
  then have "concat (map (range_text n dat) [0..<n]) =
      take ((n - 1) * ?r) dat @ drop ((n - 1) * ?r) dat"
    using pre [of "n - 1"] assms by (simp add: range_text_eq)
  then show ?thesis by simp
qed


section \<open>The running program\<close>

datatype worker4 = TRecv | TSend msg4 | TExit

datatype parent4 = PSend nat | PJoin nat | PRecv nat | PDone | PAbort

record threads =
  mail4 :: "msg4 mailbox_state"
  workers4 :: "nat \<Rightarrow> worker4"
  parent4 :: parent4
  merged :: merge

definition threads_init :: "int \<Rightarrow> threads" where
  "threads_init max_len =
     \<lparr>mail4 = init_mailboxes MAXTHREAD4
        \<lparr>iFrom4 = 0, mtype4 = 0, val1 = 0, val2 = 0, val3 = 0, val4 = 0\<rparr>,
      workers4 = (\<lambda>_. TRecv), parent4 = PSend 0, merged = merge_init max_len\<rparr>"

text \<open>
  \<open>mmap_read\<close> from the creation of the threads to the end of its last loop. The parent sends
  to the mailboxes of the threads, joins all of them, and only then receives from the same
  mailboxes. A first message that is not a RANGE ends the process (\<open>PAbort\<close>).
\<close>

inductive threads_step :: "nat \<Rightarrow> string \<Rightarrow> threads \<Rightarrow> threads \<Rightarrow> bool"
  for n :: nat and pchFile :: string where
  p_send: "parent4 s = PSend i \<Longrightarrow>
     sendMsg (i + 1) (range_msg4 n (int (length pchFile)) i) (mail4 s) = Some m \<Longrightarrow>
     threads_step n pchFile s
       (s\<lparr>mail4 := m, parent4 := if i + 1 < n then PSend (i + 1) else PJoin 1\<rparr>)"
| p_join: "parent4 s = PJoin i \<Longrightarrow> workers4 s i = TExit \<Longrightarrow>
     threads_step n pchFile s (s\<lparr>parent4 := if i + 1 \<le> n then PJoin (i + 1) else PRecv 1\<rparr>)"
| p_recv: "parent4 s = PRecv i \<Longrightarrow> recvMsg i (mail4 s) = Some (message, m) \<Longrightarrow>
     threads_step n pchFile s
       (s\<lparr>mail4 := m, merged := merge_step i message (merged s),
          parent4 := if i + 1 \<le> n then PRecv (i + 1) else PDone\<rparr>)"
| t_recv: "1 \<le> j \<Longrightarrow> j \<le> n \<Longrightarrow> workers4 s j = TRecv \<Longrightarrow>
     recvMsg j (mail4 s) = Some (message, m) \<Longrightarrow> thread_reply pchFile message = Some reply \<Longrightarrow>
     threads_step n pchFile s (s\<lparr>mail4 := m, workers4 := (workers4 s)(j := TSend reply)\<rparr>)"
| t_abort: "1 \<le> j \<Longrightarrow> j \<le> n \<Longrightarrow> workers4 s j = TRecv \<Longrightarrow>
     recvMsg j (mail4 s) = Some (message, m) \<Longrightarrow> thread_reply pchFile message = None \<Longrightarrow>
     threads_step n pchFile s (s\<lparr>mail4 := m, parent4 := PAbort\<rparr>)"
| t_send: "1 \<le> j \<Longrightarrow> j \<le> n \<Longrightarrow> workers4 s j = TSend message \<Longrightarrow>
     sendMsg j message (mail4 s) = Some m \<Longrightarrow>
     threads_step n pchFile s (s\<lparr>mail4 := m, workers4 := (workers4 s)(j := TExit)\<rparr>)"

inductive threads_run :: "nat \<Rightarrow> string \<Rightarrow> int \<Rightarrow> nat \<Rightarrow> threads \<Rightarrow> bool"
  for n :: nat and pchFile :: string and max_len :: int where
  threads_start: "threads_run n pchFile max_len 0 (threads_init max_len)"
| threads_next: "threads_run n pchFile max_len k s \<Longrightarrow> threads_step n pchFile s t \<Longrightarrow>
     threads_run n pchFile max_len (Suc k) t"

text \<open>The answer of thread \<open>i + 1\<close>, and the merge of the first \<open>k\<close> answers.\<close>

definition answer :: "nat \<Rightarrow> string \<Rightarrow> nat \<Rightarrow> msg4" where
  "answer n dat i = the (thread_reply dat (range_msg4 n (int (length dat)) i))"

definition merged_upto :: "nat \<Rightarrow> string \<Rightarrow> int \<Rightarrow> nat \<Rightarrow> merge" where
  "merged_upto n dat max_len k = merge_all 1 (map (answer n dat) [0..<k]) (merge_init max_len)"

lemma range_msg4_type [simp]: "mtype4 (range_msg4 n sz i) = RANGE4"
  by (simp add: range_msg4_def Let_def)

lemma answer_reports: "reports (answer n dat i) (range_text n dat i)"
  using thread_reply_reports [of "range_msg4 n (int (length dat)) i" dat]
  by (auto simp: answer_def range_text_def)

lemma thread_reply_answer:
  "thread_reply dat (range_msg4 n (int (length dat)) i) = Some (answer n dat i)"
  using thread_reply_reports [of "range_msg4 n (int (length dat)) i" dat]
  by (auto simp: answer_def)

lemma merge_all_snoc: "merge_all i (ms @ [m]) st = merge_step (i + length ms) m (merge_all i ms st)"
  by (induction ms arbitrary: i st) auto

lemma merged_upto_Suc:
  "merged_upto n dat ml (Suc k) = merge_step (Suc k) (answer n dat k) (merged_upto n dat ml k)"
  by (simp add: merged_upto_def merge_all_snoc)

subsection \<open>Invariant\<close>

fun sent4 :: "nat \<Rightarrow> parent4 \<Rightarrow> nat" where
  "sent4 n (PSend i) = i" | "sent4 n _ = n"

fun taken4 :: "nat \<Rightarrow> parent4 \<Rightarrow> nat" where
  "taken4 n (PRecv i) = i - 1" | "taken4 n PDone = n" | "taken4 n _ = 0"

fun joined4 :: "nat \<Rightarrow> parent4 \<Rightarrow> nat" where
  "joined4 n (PSend i) = 0" | "joined4 n (PJoin i) = i - 1" | "joined4 n _ = n"

fun parent4_ok :: "nat \<Rightarrow> parent4 \<Rightarrow> bool" where
  "parent4_ok n (PSend i) = (i < n)" | "parent4_ok n (PJoin i) = (1 \<le> i \<and> i \<le> n)"
| "parent4_ok n (PRecv i) = (1 \<le> i \<and> i \<le> n)" | "parent4_ok n PDone = True"
| "parent4_ok n PAbort = False"

definition worker4_ok :: "nat \<Rightarrow> string \<Rightarrow> parent4 \<Rightarrow> nat \<Rightarrow> worker4 \<Rightarrow> msg4 option \<Rightarrow> bool" where
  "worker4_ok n dat p j w b =
     (case w of
        TRecv \<Rightarrow> joined4 n p < j \<and>
          b = (if j \<le> sent4 n p then Some (range_msg4 n (int (length dat)) (j - 1)) else None)
      | TSend m \<Rightarrow> joined4 n p < j \<and> j \<le> sent4 n p \<and> b = None \<and> m = answer n dat (j - 1)
      | TExit \<Rightarrow> j \<le> sent4 n p \<and>
          b = (if j \<le> taken4 n p then None else Some (answer n dat (j - 1))))"

definition threads_inv :: "nat \<Rightarrow> string \<Rightarrow> int \<Rightarrow> threads \<Rightarrow> bool" where
  "threads_inv n dat ml s \<longleftrightarrow> balanced MAXTHREAD4 (mail4 s) \<and> parent4_ok n (parent4 s) \<and>
     (\<forall>j\<in>{1..n}. worker4_ok n dat (parent4 s) j (workers4 s j) (peek (mail4 s) j)) \<and>
     merged s = merged_upto n dat ml (taken4 n (parent4 s))"

lemma threads_inv_init: "0 < n \<Longrightarrow> threads_inv n dat ml (threads_init ml)"
  by (simp add: threads_inv_def threads_init_def worker4_ok_def merged_upto_def MAXTHREAD4_def)

lemma threads_inv_step:
  assumes n: "0 < n" "n \<le> MAXTHREAD4" and inv: "threads_inv n dat ml s"
    and step: "threads_step n dat s t"
  shows "threads_inv n dat ml t"
proof -
  have bal: "balanced MAXTHREAD4 (mail4 s)" and pok: "parent4_ok n (parent4 s)"
    and wok: "\<And>j. j \<in> {1..n} \<Longrightarrow>
       worker4_ok n dat (parent4 s) j (workers4 s j) (peek (mail4 s) j)"
    and mg: "merged s = merged_upto n dat ml (taken4 n (parent4 s))"
    using inv by (auto simp: threads_inv_def)
  from step show ?thesis
  proof (cases rule: threads_step.cases)
    case (p_send i m)
    have "i < n" using pok p_send by simp
    have m: "balanced MAXTHREAD4 m"
      "peek m = (peek (mail4 s))(i + 1 \<mapsto> range_msg4 n (int (length dat)) i)"
      using mb.put_SomeD [OF p_send(3) bal] \<open>i < n\<close> n by auto
    have last: "n = Suc i" if "\<not> i + 1 < n" using that \<open>i < n\<close> by simp
    have "worker4_ok n dat (parent4 t) j (workers4 s j) (peek m j)" if "j \<in> {1..n}" for j
      using wok [OF that] p_send m(2) that last
      by (cases "j = Suc i") (auto simp: worker4_ok_def split: worker4.splits)
    then show ?thesis using p_send m mg n \<open>i < n\<close> by (auto simp: threads_inv_def)
  next
    case (p_join i)
    have i: "1 \<le> i" "i \<le> n" using pok p_join by auto
    have "worker4_ok n dat (parent4 t) j (workers4 s j) (peek (mail4 s) j)" if "j \<in> {1..n}" for j
      using wok [OF that] p_join that i
      by (cases "j = i") (auto simp: worker4_ok_def split: worker4.splits)
    then show ?thesis using p_join bal mg n i by (auto simp: threads_inv_def)
  next
    case (p_recv i message m)
    have i: "1 \<le> i" "i \<le> n" using pok p_recv by auto
    have m: "balanced MAXTHREAD4 m" "peek m = (peek (mail4 s))(i := None)"
      "peek (mail4 s) i = Some message"
      using mb.get_SomeD [OF p_recv(3) bal] i n by auto
    have "message = answer n dat (i - 1)"
      using wok [of i] i p_recv(2) m(3)
      by (auto simp: worker4_ok_def split: worker4.splits if_splits)
    then have mg': "merged t = merged_upto n dat ml i"
      using p_recv mg i merged_upto_Suc [of n dat ml "i - 1"] by simp
    have "worker4_ok n dat (parent4 t) j (workers4 s j) (peek m j)" if "j \<in> {1..n}" for j
      using wok [OF that] p_recv that i m
      by (cases "j = i") (auto simp: worker4_ok_def split: worker4.splits)
    moreover have "taken4 n (parent4 t) = i" using p_recv i by auto
    ultimately show ?thesis using p_recv(1) m mg' i by (auto simp: threads_inv_def)
  next
    case (t_recv j message m reply)
    have m: "balanced MAXTHREAD4 m" "peek m = (peek (mail4 s))(j := None)"
      "peek (mail4 s) j = Some message"
      using mb.get_SomeD [OF t_recv(5) bal] t_recv n by auto
    have "message = range_msg4 n (int (length dat)) (j - 1) \<and> j \<le> sent4 n (parent4 s)"
      using wok [of j] t_recv m by (auto simp: worker4_ok_def split: if_splits)
    then have r: "reply = answer n dat (j - 1)" "j \<le> sent4 n (parent4 s)"
      using t_recv(6) thread_reply_answer by auto
    have "worker4_ok n dat (parent4 s) i (((workers4 s)(j := TSend reply)) i) (peek m i)"
      if "i \<in> {1..n}" for i
      using wok [OF that] t_recv m r by (cases "i = j") (auto simp: worker4_ok_def)
    then show ?thesis using t_recv m mg pok by (auto simp: threads_inv_def)
  next
    case (t_abort j message m)
    have "peek (mail4 s) j = Some message"
      using mb.get_SomeD [OF t_abort(5) bal] t_abort n by auto
    then have "message = range_msg4 n (int (length dat)) (j - 1)"
      using wok [of j] t_abort by (auto simp: worker4_ok_def split: if_splits)
    with t_abort(6) thread_reply_answer show ?thesis by simp
  next
    case (t_send j message m)
    have m: "balanced MAXTHREAD4 m" "peek m = (peek (mail4 s))(j \<mapsto> message)"
      using mb.put_SomeD [OF t_send(5) bal] t_send n by auto
    have j: "joined4 n (parent4 s) < j" "j \<le> sent4 n (parent4 s)" "message = answer n dat (j - 1)"
      using wok [of j] t_send by (auto simp: worker4_ok_def)
    then have "\<not> j \<le> taken4 n (parent4 s)" using t_send pok by (cases "parent4 s") auto
    then have "worker4_ok n dat (parent4 s) i (((workers4 s)(j := TExit)) i) (peek m i)"
      if "i \<in> {1..n}" for i
      using wok [OF that] t_send m j by (cases "i = j") (auto simp: worker4_ok_def)
    then show ?thesis using t_send m mg pok by (auto simp: threads_inv_def)
  qed
qed


lemma threads_run_inv:
  "threads_run n dat ml k s \<Longrightarrow> 0 < n \<Longrightarrow> n \<le> MAXTHREAD4 \<Longrightarrow> threads_inv n dat ml s"
proof (induction rule: threads_run.induct)
  case threads_start
  then show ?case by (simp add: threads_inv_init)
next
  case (threads_next k s t)
  then show ?case using threads_inv_step by blast
qed

subsection \<open>Progress and termination\<close>

fun parent4_left :: "nat \<Rightarrow> parent4 \<Rightarrow> int" where
  "parent4_left n (PSend i) = int n - int i + 2 * int n"
| "parent4_left n (PJoin i) = int n + 1 - int i + int n"
| "parent4_left n (PRecv i) = int n + 1 - int i"
| "parent4_left n PDone = 0"
| "parent4_left n PAbort = 0"

fun worker4_left :: "worker4 \<Rightarrow> int" where
  "worker4_left TRecv = 2" | "worker4_left (TSend m) = 1" | "worker4_left TExit = 0"

definition workers4_left :: "nat \<Rightarrow> (nat \<Rightarrow> worker4) \<Rightarrow> int" where
  "workers4_left n ws = (\<Sum>j\<in>{1..n}. worker4_left (ws j))"

definition threads_left :: "nat \<Rightarrow> threads \<Rightarrow> int" where
  "threads_left n s = parent4_left n (parent4 s) + workers4_left n (workers4 s)"

lemma workers4_left_upd:
  "j \<in> {1..n} \<Longrightarrow> workers4_left n (ws(j := w)) =
     workers4_left n ws - worker4_left (ws j) + worker4_left w"
  unfolding workers4_left_def by (rule sum_fun_upd [where g = "\<lambda>_. worker4_left"]) auto

lemma workers4_left_nonneg [simp]: "0 \<le> workers4_left n ws"
proof -
  have "0 \<le> worker4_left w" for w by (cases w) auto
  then show ?thesis unfolding workers4_left_def by (intro sum_nonneg)
qed

lemma threads_left_step:
  assumes "parent4_ok n (parent4 s)" "parent4_ok n (parent4 t)" "threads_step n dat s t"
  shows "threads_left n s = threads_left n t + 1"
  using assms(3)
proof (cases rule: threads_step.cases)
  case (p_send i m)
  then have "i + 1 < n \<or> int n = int i + 1" using assms(1) by auto
  with p_send show ?thesis by (auto simp: threads_left_def)
next
  case (p_join i)
  then have "i + 1 \<le> n \<or> n = i" using assms(1) by auto
  with p_join show ?thesis by (auto simp: threads_left_def)
next
  case (p_recv i message m)
  then have "i + 1 \<le> n \<or> n = i" using assms(1) by auto
  with p_recv show ?thesis by (auto simp: threads_left_def)
qed (use assms(2) in \<open>auto simp: threads_left_def workers4_left_upd\<close>)

lemma threads_left_run:
  assumes "threads_run n dat ml k s" "0 < n" "n \<le> MAXTHREAD4"
  shows "threads_left n s = 5 * int n - int k"
  using assms(1)
proof (induction rule: threads_run.induct)
  case threads_start
  show ?case by (simp add: threads_left_def workers4_left_def threads_init_def)
next
  case (threads_next k s t)
  have "parent4_ok n (parent4 s)" "parent4_ok n (parent4 t)"
    using threads_run_inv [OF threads_next(1) assms(2,3)]
      threads_run_inv [OF threads_run.threads_next [OF threads_next(1,2)] assms(2,3)]
    by (simp_all add: threads_inv_def)
  from threads_left_step [OF this threads_next(2)] threads_next(3) show ?case by simp
qed

lemma worker4_enabled:
  assumes "threads_inv n dat ml s" "j \<in> {1..n}" "n \<le> MAXTHREAD4" "j \<le> sent4 n (parent4 s)"
    and "workers4 s j \<noteq> TExit"
  shows "\<exists>t. threads_step n dat s t"
proof -
  have bal: "balanced MAXTHREAD4 (mail4 s)" and j: "1 \<le> j" "j \<le> n" "j \<le> MAXTHREAD4"
    and wok: "worker4_ok n dat (parent4 s) j (workers4 s j) (peek (mail4 s) j)"
    using assms by (auto simp: threads_inv_def)
  show ?thesis
  proof (cases "workers4 s j")
    case TRecv
    then have b: "peek (mail4 s) j = Some (range_msg4 n (int (length dat)) (j - 1))"
      using wok assms(4) by (simp add: worker4_ok_def)
    then obtain m where "recvMsg j (mail4 s) = Some (range_msg4 n (int (length dat)) (j - 1), m)"
      using mb.get_full [OF bal j(3) b] by auto
    from t_recv [OF j(1,2) TRecv this thread_reply_answer] show ?thesis ..
  next
    case (TSend message)
    then have "peek (mail4 s) j = None" using wok by (simp add: worker4_ok_def)
    then obtain m where "sendMsg j message (mail4 s) = Some m"
      using mb.put_enabled [OF bal j(3)] by auto
    from t_send [OF j(1,2) TSend this] show ?thesis ..
  qed (use assms(5) in simp)
qed

lemma threads_progress:
  assumes n: "0 < n" "n \<le> MAXTHREAD4" and run: "threads_run n dat ml k s"
    and "parent4 s \<noteq> PDone"
  shows "\<exists>t. threads_step n dat s t"
proof -
  have inv: "threads_inv n dat ml s" by (rule threads_run_inv [OF run n])
  then have bal: "balanced MAXTHREAD4 (mail4 s)" and pok: "parent4_ok n (parent4 s)"
    and wok: "\<And>j. j \<in> {1..n} \<Longrightarrow> worker4_ok n dat (parent4 s) j (workers4 s j) (peek (mail4 s) j)"
    by (auto simp: threads_inv_def)
  show ?thesis
  proof (cases "parent4 s")
    case (PSend i)
    then have i: "i < n" "i + 1 \<le> MAXTHREAD4" using pok n by auto
    have "peek (mail4 s) (i + 1) = None"
      using wok [of "i + 1"] PSend i by (auto simp: worker4_ok_def split: worker4.splits)
    then obtain m where
      "sendMsg (i + 1) (range_msg4 n (int (length dat)) i) (mail4 s) = Some m"
      using mb.put_enabled [OF bal i(2)] by blast
    from p_send [OF PSend this] show ?thesis ..
  next
    case (PJoin i)
    then have i: "i \<in> {1..n}" "i \<le> sent4 n (parent4 s)" using pok by auto
    show ?thesis
    proof (cases "workers4 s i = TExit")
      case True
      from p_join [OF PJoin True] show ?thesis ..
    next
      case False
      from worker4_enabled [OF inv i(1) n(2) i(2) False] show ?thesis .
    qed
  next
    case (PRecv i)
    then have i: "i \<in> {1..n}" "i \<le> MAXTHREAD4" using pok n by auto
    have b: "peek (mail4 s) i = Some (answer n dat (i - 1))"
      using wok [OF i(1)] PRecv i(1) by (auto simp: worker4_ok_def split: worker4.splits)
    then obtain m where "recvMsg i (mail4 s) = Some (answer n dat (i - 1), m)"
      using mb.get_full [OF bal i(2) b] by auto
    from p_recv [OF PRecv this] show ?thesis ..
  qed (use assms(4) pok in auto)
qed

lemma threads_run_to_end:
  assumes "threads_run n dat ml k s" "0 < n" "n \<le> MAXTHREAD4"
  shows "\<exists>k' t. threads_run n dat ml k' t \<and> parent4 t = PDone"
  using assms
proof (induction "nat (threads_left n s)" arbitrary: k s rule: less_induct)
  case less
  show ?case
  proof (cases "parent4 s = PDone")
    case True
    with less.prems show ?thesis by blast
  next
    case False
    then obtain t where t: "threads_step n dat s t" using threads_progress less.prems by blast
    note run' = threads_next [OF less.prems(1) t]
    have "0 \<le> parent4_left n (parent4 t)"
      using threads_run_inv [OF run' less.prems(2,3)]
      by (cases "parent4 t") (auto simp: threads_inv_def)
    then have "0 \<le> threads_left n t" by (simp add: threads_left_def)
    then have "nat (threads_left n t) < nat (threads_left n s)"
      using threads_left_run [OF run' less.prems(2,3)] threads_left_run [OF less.prems] by simp
    from less.hyps [OF this run' less.prems(2,3)] show ?thesis .
  qed
qed

section \<open>The whole of mmap_read\<close>

text \<open>
  What \<open>mmap_read\<close> may return: an error, or what any run of its threads that has come to its end has
  merged. \<open>main\<close> passes \<open>max_length = -1\<close>. \<open>int fileSize = sb.st_size\<close> keeps the low 32 bits; what the
  threads scan are the first \<open>fileSize\<close> bytes (none, when it is negative: then every range is empty).
\<close>

definition mmap_read :: "os \<Rightarrow> nat \<Rightarrow> string \<Rightarrow> int \<Rightarrow> read_error + (int \<times> merge) \<Rightarrow> bool" where
  "mmap_read os numberOfThreads fileName max_len result \<longleftrightarrow>
     (case os_open os fileName of
        None \<Rightarrow> result = Inl File_open
      | Some file \<Rightarrow>
          if \<not> os_fstat os fileName then result = Inl No_stat
          else case os_mmap os file of
            None \<Rightarrow> result = Inl No_mmap
          | Some pchFile \<Rightarrow>
              (case start_threads MAXTHREAD4 (os_start os) numberOfThreads of
                 Some e \<Rightarrow> result = Inl (Not_started e)
               | None \<Rightarrow>
                   \<exists>k s. threads_run numberOfThreads (take (nat (wrap32 (int (length file)))) pchFile) max_len k s \<and>
                     parent4 s = PDone \<and>
                     result = (if \<not> os_munmap os pchFile then Inl No_munmap
                               else Inr (wrap32 (int (length file)), merged s))))"

text \<open>\<open>main\<close>: what is printed, or which check or call failed.\<close>

record report =
  file_size :: int
  strings :: int
  max_string :: int

definition report_of :: "read_error + (int \<times> int \<times> int) \<Rightarrow> read_error + report" where
  "report_of = map_sum id (\<lambda>(sz, num, mx). \<lparr>file_size = sz, strings = num, max_string = mx\<rparr>)"

definition proj4_main :: "os \<Rightarrow> string list \<Rightarrow> arg_error + (read_error + report) \<Rightarrow> bool" where
  "proj4_main os argv out \<longleftrightarrow>
     (case parse_args argv of
        Inl e \<Rightarrow> out = Inl e
      | Inr (mode, fileName) \<Rightarrow>
          (case mode of
             Regular BUFSIZE \<Rightarrow>
               out = Inr (report_of (map_sum id (\<lambda>(sz, s). (sz, num_strings s, max_length s))
                 (regular_read os BUFSIZE fileName scan_init)))
           | Mmap \<Rightarrow>
               out = Inr (report_of (map_sum id (\<lambda>(sz, s). (sz, num_strings s, max_length s))
                 (mmap_regular_read os fileName scan_init)))
           | Threads n \<Rightarrow>
               \<exists>r. mmap_read os n fileName (- 1) r \<and>
                 out = Inr (report_of (map_sum id (\<lambda>(sz, s). (sz, m_num_strings s, m_max_length s)) r))))"

lemma parse_args_threads:
  assumes "parse_args argv = Inr (Threads n, name)"
  shows "0 < n" "n \<le> MAXTHREAD4"
  using assms by (auto simp: parse_args_def Let_def split: if_splits)

lemma merged_upto_correct:
  assumes "0 < n" "\<forall>i<n. mergeable (range_text n dat i)"
  shows "m_num_strings (merged_upto n dat (- 1) n) = num_strings (scan_chars dat scan_init)
    \<and> m_max_length (merged_upto n dat (- 1) n) = max 0 (max_length (scan_chars dat scan_init))"
proof -
  let ?ms = "map (answer n dat) [0..<n]" and ?cs = "map (range_text n dat) [0..<n]"
  have "list_all2 reports ?ms ?cs" by (simp add: list_all2_conv_all_nth answer_reports)
  moreover have "\<forall>cs\<in>set ?cs. mergeable cs" using assms(2) by auto
  ultimately have "merge_inv (1 + length ?ms) ([] @ concat ?cs) (merge_all 1 ?ms (merge_init (- 1)))
     \<and> (?ms \<noteq> [] \<longrightarrow> 0 \<le> m_max_length (merge_all 1 ?ms (merge_init (- 1))))"
    by (intro merge_all_inv [OF merge_inv_init]) auto
  then have "merge_inv (1 + n) dat (merged_upto n dat (- 1) n)"
    "0 \<le> m_max_length (merged_upto n dat (- 1) n)"
    using assms(1) concat_ranges [OF assms(1), of dat] by (auto simp: merged_upto_def)
  moreover have "max (- 1) (max_run 0 dat) = max_run 0 dat"
    by (rule max_absorb2) (rule order_trans [OF _ max_run_nonneg], simp)
  ultimately show ?thesis
    using scan_chars_fields [of scan_init dat]
    by (auto simp: merge_inv_def scan_init_def max_absorb2)
qed

text \<open>The one value \<open>mmap_read\<close> returns.\<close>

lemma mmap_read_result:
  assumes "0 < n" "n \<le> MAXTHREAD4"
  shows "mmap_read os n name max_len r \<longleftrightarrow>
    r = (case os_open os name of
           None \<Rightarrow> Inl File_open
         | Some file \<Rightarrow>
             if \<not> os_fstat os name then Inl No_stat
             else case os_mmap os file of
               None \<Rightarrow> Inl No_mmap
             | Some pch \<Rightarrow>
                 (case start_threads MAXTHREAD4 (os_start os) n of
                    Some e \<Rightarrow> Inl (Not_started e)
                  | None \<Rightarrow> if \<not> os_munmap os pch then Inl No_munmap
                           else Inr (wrap32 (int (length file)),
                                merged_upto n (take (nat (wrap32 (int (length file)))) pch) max_len n)))"
proof -
  have "\<exists>k s. threads_run n pch max_len k s \<and> parent4 s = PDone" for pch
    using threads_run_to_end [OF threads_start assms] .
  moreover have "merged s = merged_upto n pch max_len n"
    if "threads_run n pch max_len k s" "parent4 s = PDone" for pch k s
    using threads_run_inv [OF that(1) assms] that(2) by (simp add: threads_inv_def)
  ultimately have "(\<exists>k s. threads_run n pch max_len k s \<and> parent4 s = PDone \<and> r = f (merged s)) \<longleftrightarrow>
      r = f (merged_upto n pch max_len n)" for pch and f :: "merge \<Rightarrow> read_error + (int \<times> merge)"
    by metis
  note one_run = this
  show ?thesis
    unfolding mmap_read_def
      one_run [where f = "\<lambda>m. if \<not> os_munmap os pch then Inl No_munmap else Inr (wrap32 z, m)" for pch z]
    by (auto split: option.split)
qed

section \<open>The properties of the program\<close>

text \<open>C33. The result of the threaded reader does not depend on the scheduling: no run aborts, and \<open>mmap_read\<close>
  returns, for each answer of the operating system, exactly one value: the error of the first call
  that fails, or the answers of the threads merged in their order.\<close>

theorem threads_result_deterministic:
  assumes "0 < n" "n \<le> MAXTHREAD4"
  shows "(threads_run n dat max_len k s \<longrightarrow> parent4 s \<noteq> PAbort) \<and>
    (mmap_read os n name max_len r \<longleftrightarrow>
       r = (case os_open os name of
              None \<Rightarrow> Inl File_open
            | Some file \<Rightarrow>
                if \<not> os_fstat os name then Inl No_stat
                else case os_mmap os file of
                  None \<Rightarrow> Inl No_mmap
                | Some pch \<Rightarrow>
                    (case start_threads MAXTHREAD4 (os_start os) n of
                       Some e \<Rightarrow> Inl (Not_started e)
                     | None \<Rightarrow> if \<not> os_munmap os pch then Inl No_munmap
                              else Inr (wrap32 (int (length file)),
                                   merged_upto n (take (nat (wrap32 (int (length file)))) pch) max_len n))))"
proof (rule conjI [OF _ mmap_read_result [OF assms]])
  show "threads_run n dat max_len k s \<longrightarrow> parent4 s \<noteq> PAbort"
    using threads_run_inv [OF _ assms, of dat max_len k s] by (cases "parent4 s") (auto simp: threads_inv_def)
qed

text \<open>C37. The threaded reader always comes to its end: at most \<open>5 * n\<close> steps, and never
  stuck before the last one.\<close>

theorem threads_terminate:
  assumes "0 < n" "n \<le> MAXTHREAD4" "threads_run n dat max_len k s"
  shows "k \<le> 5 * n \<and> (parent4 s \<noteq> PDone \<longrightarrow> (\<exists>t. threads_step n dat s t))"
proof -
  have "0 \<le> parent4_left n (parent4 s)"
    using threads_run_inv [OF assms(3,1,2)] by (cases "parent4 s") (auto simp: threads_inv_def)
  then have "0 \<le> threads_left n s" by (simp add: threads_left_def)
  then show ?thesis
    using threads_left_run [OF assms(3,1,2)] threads_progress [OF assms(1-3)] by auto
qed

text \<open>C6. The threaded program and the sequential one report the same: for a file of less than 2 GB that can
  be opened and mapped and whose ranges can all be merged, \<open>main\<close> with any number of threads prints the
  size and the number of strings it prints when it maps the file without threads, which is that of
  one scan over the file, and its longest string (0 instead of -1 for a file without a readable
  character).\<close>

theorem threaded_count_agrees:
  assumes "parse_args argv = Inr (Threads n, name)" "parse_args argv' = Inr (Mmap, name)"
    and "os_open os name = Some dat" "os_mmap os dat = Some dat" "in_int (int (length dat))"
    and "\<forall>i<n. mergeable (range_text n dat i)"
    and "proj4_main os argv (Inr (Inr rep))" "proj4_main os argv' (Inr (Inr rep'))"
  shows "file_size rep = file_size rep' \<and> strings rep = strings rep' \<and> max_string rep = max 0 (max_string rep')
    \<and> strings rep = num_strings (scan_chars dat scan_init)"
proof -
  have n: "0 < n" "n \<le> MAXTHREAD4" using parse_args_threads [OF assms(1)] .
  obtain r where r: "mmap_read os n name (- 1) r"
    "Inr rep = report_of (map_sum id (\<lambda>(sz, s). (sz, m_num_strings s, m_max_length s)) r)"
    using assms(1,7) by (auto simp: proj4_main_def)
  have "rep = \<lparr>file_size = int (length dat), strings = m_num_strings (merged_upto n dat (- 1) n),
      max_string = m_max_length (merged_upto n dat (- 1) n)\<rparr>"
    using r assms(3-5) unfolding mmap_read_result [OF n]
    by (auto simp: report_of_def split: if_splits option.splits)
  moreover have "rep' = \<lparr>file_size = int (length dat), strings = num_strings (scan_chars dat scan_init),
      max_string = max_length (scan_chars dat scan_init)\<rparr>"
    using assms(2-5,8)
    by (auto simp: proj4_main_def report_of_def mmap_regular_read_def Let_def split: if_splits)
  ultimately show ?thesis using merged_upto_correct [OF n(1) assms(6)] by simp
qed

text \<open>The merge mistakes a range that begins and ends with equally long short runs for a
  range without an unreadable byte: with one thread, the longest string of this file is
  reported as 2, although it is 6.\<close>

theorem threaded_max_wrong:
  assumes "dat = ''ab'' @ [NUL] @ ''cdefgh'' @ [NUL] @ ''ij''"
    and "threads_run 1 dat (- 1) k s" "parent4 s = PDone"
  shows "m_max_length (merged s) = 2 \<and> max_length (scan_chars dat scan_init) = 6"
proof -
  have "answer 1 dat 0 = \<lparr>iFrom4 = 0, mtype4 = ALLDONE4, val1 = 1, val2 = 2, val3 = 2, val4 = 6\<rparr>"
    unfolding assms(1)
    by (simp add: answer_def thread_reply_def range_msg4_def bytes_between_def Let_def
        tscan_init_def tscan_char_def readable_def isspace_def isprint_def byte_def NUL_def)
  then have "m_max_length (merged_upto 1 dat (- 1) 1) = 2"
    by (simp add: merged_upto_def merge_step_def merge_init_def Let_def)
  moreover have "max_length (scan_chars dat scan_init) = 6"
    unfolding assms(1) by (simp add: scan_init_def scan_char_def readable_def isspace_def
        isprint_def byte_def NUL_def Let_def)
  ultimately show ?thesis
    using threads_run_inv [OF assms(2)] assms(3) by (simp add: threads_inv_def MAXTHREAD4_def)
qed


section \<open>Witnesses\<close>

definition demo_text :: string where
  "demo_text = ''abcdefgh'' @ [NUL] @ ''ijklm''"

definition bad_text :: string where
  "bad_text = ''ab'' @ [NUL] @ ''cdefgh'' @ [NUL] @ ''ij''"

lemma demo_size: "int (length demo_text) = 14" "wrap32 14 = 14" "take 14 demo_text = demo_text"
  by (simp_all add: demo_text_def wrap32_id in_int_bounds)

lemma demo_end: "\<exists>k s. threads_run 2 demo_text (- 1) k s \<and> parent4 s = PDone"
  using threads_run_to_end [OF threads_start, of 2 demo_text "- 1"] by (simp add: MAXTHREAD4_def)

theorem threads_result_deterministic_witness:
  "mmap_read (demo_os demo_text) 2 ''f'' (- 1) (Inr (14, merged_upto 2 demo_text (- 1) 2))"
  using threads_result_deterministic [of 2, where os = "demo_os demo_text" and name = "''f''" and max_len = "- 1"
      and r = "Inr (14, merged_upto 2 demo_text (- 1) 2)"]
  by (simp add: MAXTHREAD4_def demo_size)

theorem threads_terminate_witness:
  "\<exists>k s. threads_run 2 demo_text (- 1) k s \<and> parent4 s = PDone \<and> k \<le> 10"
proof -
  obtain k s where s: "threads_run 2 demo_text (- 1) k s" "parent4 s = PDone"
    using demo_end by blast
  with threads_terminate [OF _ _ s(1)] show ?thesis by (auto simp: MAXTHREAD4_def)
qed

lemma demo_mergeable: "\<forall>i<2. mergeable (range_text 2 demo_text i)"
proof -
  have "range_text 2 demo_text 0 = ''abcdefg''" "range_text 2 demo_text 1 = ''h'' @ [NUL] @ ''ijklm''"
    by (simp_all add: range_text_eq demo_text_def)
  moreover have "mergeable ''abcdefg''" "mergeable (''h'' @ [NUL] @ ''ijklm'')"
    by (simp_all add: mergeable_def all_readable_def readable_def isspace_def isprint_def byte_def
        NUL_def begin_run_def)
  ultimately show ?thesis by (simp add: less_2_cases_iff all_conj_distrib)
qed

lemma demo_modes:
  "parse_args [''proj4'', ''f'', ''p2''] = Inr (Threads 2, ''f'')"
  "parse_args [''proj4'', ''f'', ''mmap''] = Inr (Mmap, ''f'')"
  by code_simp+

theorem threaded_count_agrees_witness:
  "\<exists>rep. proj4_main (demo_os demo_text) [''proj4'', ''f'', ''p2''] (Inr (Inr rep)) \<and>
     strings rep = 2 \<and> max_string rep = 8"
proof -
  have n: "0 < (2 :: nat)" "2 \<le> MAXTHREAD4" by (simp_all add: MAXTHREAD4_def)
  obtain rep where rep: "proj4_main (demo_os demo_text) [''proj4'', ''f'', ''p2''] (Inr (Inr rep))"
    using mmap_read_result [OF n, of "demo_os demo_text" "''f''" "- 1"]
    by (auto simp: proj4_main_def demo_modes report_of_def)
  obtain rep' where rep': "proj4_main (demo_os demo_text) [''proj4'', ''f'', ''mmap''] (Inr (Inr rep'))"
    "max_string rep' = max_length (scan_chars (take 14 demo_text) scan_init)"
    by (simp add: proj4_main_def demo_modes report_of_def mmap_regular_read_def Let_def demo_size)
  have "num_strings (scan_chars demo_text scan_init) = 2"
    "max_length (scan_chars demo_text scan_init) = 8"
    by (simp_all add: demo_text_def scan_init_def scan_char_def readable_def isspace_def
        isprint_def byte_def NUL_def Let_def)
  moreover have "in_int (int (length demo_text))" by (simp add: demo_text_def in_int_bounds)
  ultimately show ?thesis
    using threaded_count_agrees [OF demo_modes _ _ _ demo_mergeable rep rep'(1)] rep rep'(2)
    by (auto simp: demo_size(3))
qed

theorem threaded_max_wrong_witness:
  "\<exists>k s. threads_run 1 bad_text (- 1) k s \<and> parent4 s = PDone
     \<and> m_max_length (merged s) = 2 \<and> max_length (scan_chars bad_text scan_init) = 6"
proof -
  obtain k s where s: "threads_run 1 bad_text (- 1) k s" "parent4 s = PDone"
    using threads_run_to_end [OF threads_start, of 1 bad_text "- 1"] by (auto simp: MAXTHREAD4_def)
  with threaded_max_wrong [OF bad_text_def s] show ?thesis by blast
qed

end
