(* ===== verification/LifeGrid.thy ===== *)
theory LifeGrid
  imports Prelude
begin

text \<open>
  The board of \<open>project3/life.cpp\<close>: the two matrices, the neighbour count with its unchecked
  reads, the cell rule of \<open>linesthread\<close>, the copy and the two tests of the main loop, and
  what they are meant to compute: one generation of Conway's game on a board with a dead
  border.
\<close>

definition MAXGRID :: int where "MAXGRID = 40"

text \<open>
  A matrix is the memory as addressed from its first element: \<open>before[i][j]\<close> is the \<open>int\<close>
  at index \<open>i * MAXGRID + j\<close>, whatever \<open>i\<close> and \<open>j\<close> are. Indices from 0 to
  \<open>MAXGRID * MAXGRID - 1\<close> are the array; what lies around it is arbitrary.
\<close>

type_synonym matrix = "int \<Rightarrow> int"

record board =
  before :: matrix
  after :: matrix
  lineSize :: int
  columnSize :: int

definition idx :: "int \<Rightarrow> int \<Rightarrow> int" where
  "idx line column = line * MAXGRID + column"

definition cell :: "matrix \<Rightarrow> int \<Rightarrow> int \<Rightarrow> int" where
  "cell M line column = M (idx line column)"

section \<open>The code\<close>

definition getNumberOfNeighbors :: "board \<Rightarrow> int \<Rightarrow> int \<Rightarrow> int" where
  "getNumberOfNeighbors s line column =
     (if cell (before s) (line - 1) (column - 1) \<noteq> 0 \<and> line - 1 \<ge> 0 \<and> column - 1 \<ge> 0
      then 1 else 0) +
     (if cell (before s) (line - 1) column \<noteq> 0 \<and> line - 1 \<ge> 0 then 1 else 0) +
     (if cell (before s) (line - 1) (column + 1) \<noteq> 0 \<and> line - 1 \<ge> 0 \<and> column + 1 \<le> columnSize s
      then 1 else 0) +
     (if cell (before s) line (column - 1) \<noteq> 0 \<and> column - 1 \<ge> 0 then 1 else 0) +
     (if cell (before s) line (column + 1) \<noteq> 0 \<and> column + 1 \<le> columnSize s then 1 else 0) +
     (if cell (before s) (line + 1) (column - 1) \<noteq> 0 \<and> line + 1 \<le> lineSize s \<and> column - 1 \<ge> 0
      then 1 else 0) +
     (if cell (before s) (line + 1) column \<noteq> 0 \<and> line + 1 \<le> lineSize s then 1 else 0) +
     (if cell (before s) (line + 1) (column + 1) \<noteq> 0 \<and> line + 1 \<le> lineSize s
         \<and> column + 1 \<le> columnSize s
      then 1 else 0)"

text \<open>The value \<open>linesthread\<close> writes into \<open>after[line][column]\<close>.\<close>

definition new_cell :: "board \<Rightarrow> int \<Rightarrow> int \<Rightarrow> int" where
  "new_cell s line column =
     (let numNeighbors = getNumberOfNeighbors s line column in
      if numNeighbors \<le> 1 \<or> numNeighbors \<ge> 4 then 0
      else if numNeighbors = 3 then 1
      else if numNeighbors = 2 \<and> cell (before s) line column \<noteq> 0 then 1
      else cell (before s) line column)"

definition update_cell :: "int \<times> int \<Rightarrow> board \<Rightarrow> board" where
  "update_cell = (\<lambda>(line, column) s.
     s\<lparr>after := (after s)(idx line column := new_cell s line column)\<rparr>)"

text \<open>The cells a thread visits for the lines \<open>lineFrom .. lineTo\<close>, in its order.\<close>

definition cells_of :: "int \<Rightarrow> int \<Rightarrow> int \<Rightarrow> (int \<times> int) list" where
  "cells_of columns lineFrom lineTo =
     concat (map (\<lambda>line. map (\<lambda>column. (line, column)) [0..columns - 1]) [lineFrom..lineTo])"

definition updateMatrix :: "board \<Rightarrow> board" where
  "updateMatrix s =
     fold (\<lambda>(i, j) t. t\<lparr>before := (before t)(idx i j := cell (after t) i j)\<rparr>)
       (cells_of (columnSize s) 0 (lineSize s - 1)) s"

definition isAllZero :: "board \<Rightarrow> bool" where
  "isAllZero s =
     fold (\<lambda>(i, j) isZero. if cell (after s) i j \<noteq> 0 then False else isZero)
       (cells_of (columnSize s) 0 (lineSize s - 1)) True"

definition hasNotChanged :: "board \<Rightarrow> bool" where
  "hasNotChanged s =
     fold (\<lambda>(i, j) notChanged. if cell (before s) i j \<noteq> cell (after s) i j then False else notChanged)
       (cells_of (columnSize s) 0 (lineSize s - 1)) True"

text \<open>What \<open>printMatrix\<close> prints, as rows of numbers.\<close>

definition printMatrix :: "int \<Rightarrow> int \<Rightarrow> matrix \<Rightarrow> int list list" where
  "printMatrix lines columns M = map (\<lambda>i. map (\<lambda>j. cell M i j) [0..columns - 1]) [0..lines - 1]"

section \<open>The specification: Conway's rule\<close>

definition on_board :: "board \<Rightarrow> int \<Rightarrow> int \<Rightarrow> bool" where
  "on_board s i j \<longleftrightarrow> 0 \<le> i \<and> i < lineSize s \<and> 0 \<le> j \<and> j < columnSize s"

definition alive :: "board \<Rightarrow> int \<Rightarrow> int \<Rightarrow> bool" where
  "alive s i j \<longleftrightarrow> on_board s i j \<and> cell (before s) i j \<noteq> 0"

definition live_neighbours :: "board \<Rightarrow> int \<Rightarrow> int \<Rightarrow> (int \<times> int) set" where
  "live_neighbours s i j =
     {(i', j'). \<bar>i' - i\<bar> \<le> 1 \<and> \<bar>j' - j\<bar> \<le> 1 \<and> (i', j') \<noteq> (i, j) \<and> alive s i' j'}"

definition conway :: "board \<Rightarrow> int \<Rightarrow> int \<Rightarrow> bool" where
  "conway s i j \<longleftrightarrow>
     (let n = card (live_neighbours s i j) in n = 3 \<or> (n = 2 \<and> alive s i j))"

text \<open>
  The boards on which the reads of the code are the intended ones: at most 39 lines and
  columns, and the row and the column after the last are zero.
\<close>

definition dead_border :: "board \<Rightarrow> bool" where
  "dead_border s \<longleftrightarrow> 0 \<le> lineSize s \<and> lineSize s < MAXGRID \<and> 0 \<le> columnSize s \<and> columnSize s < MAXGRID
     \<and> (\<forall>i. 0 \<le> i \<longrightarrow> i \<le> lineSize s \<longrightarrow> cell (before s) i (columnSize s) = 0)
     \<and> (\<forall>j. 0 \<le> j \<longrightarrow> j \<le> columnSize s \<longrightarrow> cell (before s) (lineSize s) j = 0)"

definition neighbour_list :: "int \<Rightarrow> int \<Rightarrow> (int \<times> int) list" where
  "neighbour_list i j =
     [(i-1,j-1), (i-1,j), (i-1,j+1), (i,j-1), (i,j+1), (i+1,j-1), (i+1,j), (i+1,j+1)]"

lemma near_iff: "\<bar>a - i\<bar> \<le> 1 \<longleftrightarrow> a = i - 1 \<or> a = i \<or> a = i + (1::int)"
  by arith

lemma live_neighbours_filter:
  "live_neighbours s i j = set (filter (\<lambda>p. alive s (fst p) (snd p)) (neighbour_list i j))"
proof -
  have ring: "(a = p \<or> a = i \<or> a = q) \<and> (b = r \<or> b = j \<or> b = t) \<and> \<not> (a = i \<and> b = j) \<longleftrightarrow>
      (a, b) \<in> set [(p, r), (p, j), (p, t), (i, r), (i, t), (q, r), (q, j), (q, t)]"
    if "p \<noteq> i" "q \<noteq> i" "r \<noteq> j" "t \<noteq> j" for a b p q r t
    using that by auto
  have "(a, b) \<in> live_neighbours s i j \<longleftrightarrow> (a, b) \<in> set (neighbour_list i j) \<and> alive s a b" for a b
  proof -
    have "(a, b) \<in> live_neighbours s i j \<longleftrightarrow>
        ((a = i - 1 \<or> a = i \<or> a = i + 1) \<and> (b = j - 1 \<or> b = j \<or> b = j + 1) \<and> \<not> (a = i \<and> b = j))
        \<and> alive s a b"
      by (simp only: live_neighbours_def near_iff mem_Collect_eq case_prod_conv prod.inject conj_assoc)
    also have "\<dots> \<longleftrightarrow> (a, b) \<in> set (neighbour_list i j) \<and> alive s a b"
      unfolding neighbour_list_def by (subst ring) simp_all
    finally show ?thesis .
  qed
  then show ?thesis by auto
qed

lemma distinct_neighbour_list: "distinct (neighbour_list i j)"
  by (simp add: neighbour_list_def)

lemma length_filter_sum: "int (length (filter P xs)) = (\<Sum>x\<leftarrow>xs. of_bool (P x))"
  by (induction xs) auto

lemma card_live_neighbours:
  "int (card (live_neighbours s i j)) =
     of_bool (alive s (i-1) (j-1)) + of_bool (alive s (i-1) j) + of_bool (alive s (i-1) (j+1)) +
     of_bool (alive s i (j-1)) + of_bool (alive s i (j+1)) +
     of_bool (alive s (i+1) (j-1)) + of_bool (alive s (i+1) j) + of_bool (alive s (i+1) (j+1))"
  unfolding live_neighbours_filter distinct_card [OF distinct_filter [OF distinct_neighbour_list]]
    length_filter_sum
  by (simp add: neighbour_list_def)

text \<open>Each of the eight tests of the code, on a board with a dead border.\<close>

lemma neighbour_tests:
  assumes "dead_border s" "on_board s i j"
  shows "cell (before s) (i-1) (j-1) \<noteq> 0 \<and> i-1 \<ge> 0 \<and> j-1 \<ge> 0 \<longleftrightarrow> alive s (i-1) (j-1)"
    and "cell (before s) (i-1) j \<noteq> 0 \<and> i-1 \<ge> 0 \<longleftrightarrow> alive s (i-1) j"
    and "cell (before s) (i-1) (j+1) \<noteq> 0 \<and> i-1 \<ge> 0 \<and> j+1 \<le> columnSize s \<longleftrightarrow> alive s (i-1) (j+1)"
    and "cell (before s) i (j-1) \<noteq> 0 \<and> j-1 \<ge> 0 \<longleftrightarrow> alive s i (j-1)"
    and "cell (before s) i (j+1) \<noteq> 0 \<and> j+1 \<le> columnSize s \<longleftrightarrow> alive s i (j+1)"
    and "cell (before s) (i+1) (j-1) \<noteq> 0 \<and> i+1 \<le> lineSize s \<and> j-1 \<ge> 0 \<longleftrightarrow> alive s (i+1) (j-1)"
    and "cell (before s) (i+1) j \<noteq> 0 \<and> i+1 \<le> lineSize s \<longleftrightarrow> alive s (i+1) j"
    and "cell (before s) (i+1) (j+1) \<noteq> 0 \<and> i+1 \<le> lineSize s \<and> j+1 \<le> columnSize s
      \<longleftrightarrow> alive s (i+1) (j+1)"
proof -
  have b: "0 \<le> i" "i < lineSize s" "0 \<le> j" "j < columnSize s"
    using assms(2) by (auto simp: on_board_def)
  have col: "cell (before s) k (columnSize s) = 0" if "0 \<le> k" "k \<le> lineSize s" for k
    using assms(1) that by (simp add: dead_border_def)
  have row: "cell (before s) (lineSize s) k = 0" if "0 \<le> k" "k \<le> columnSize s" for k
    using assms(1) that by (simp add: dead_border_def)
  show "cell (before s) (i-1) (j-1) \<noteq> 0 \<and> i-1 \<ge> 0 \<and> j-1 \<ge> 0 \<longleftrightarrow> alive s (i-1) (j-1)"
    and "cell (before s) (i-1) j \<noteq> 0 \<and> i-1 \<ge> 0 \<longleftrightarrow> alive s (i-1) j"
    and "cell (before s) i (j-1) \<noteq> 0 \<and> j-1 \<ge> 0 \<longleftrightarrow> alive s i (j-1)"
    using b by (auto simp: alive_def on_board_def)
  show "cell (before s) (i-1) (j+1) \<noteq> 0 \<and> i-1 \<ge> 0 \<and> j+1 \<le> columnSize s \<longleftrightarrow> alive s (i-1) (j+1)"
    using b col [of "i - 1"] by (cases "j + 1 = columnSize s") (auto simp: alive_def on_board_def)
  show "cell (before s) i (j+1) \<noteq> 0 \<and> j+1 \<le> columnSize s \<longleftrightarrow> alive s i (j+1)"
    using b col [of i] by (cases "j + 1 = columnSize s") (auto simp: alive_def on_board_def)
  show "cell (before s) (i+1) (j-1) \<noteq> 0 \<and> i+1 \<le> lineSize s \<and> j-1 \<ge> 0 \<longleftrightarrow> alive s (i+1) (j-1)"
    using b row [of "j - 1"] by (cases "i + 1 = lineSize s") (auto simp: alive_def on_board_def)
  show "cell (before s) (i+1) j \<noteq> 0 \<and> i+1 \<le> lineSize s \<longleftrightarrow> alive s (i+1) j"
    using b row [of j] by (cases "i + 1 = lineSize s") (auto simp: alive_def on_board_def)
  show "cell (before s) (i+1) (j+1) \<noteq> 0 \<and> i+1 \<le> lineSize s \<and> j+1 \<le> columnSize s
      \<longleftrightarrow> alive s (i+1) (j+1)"
    using b row [of "j + 1"] col [of "i + 1"]
    by (cases "i + 1 = lineSize s"; cases "j + 1 = columnSize s")
      (auto simp: alive_def on_board_def)
qed

lemma neighbours_correct:
  assumes "dead_border s" "on_board s i j"
  shows "getNumberOfNeighbors s i j = int (card (live_neighbours s i j))"
  unfolding card_live_neighbours getNumberOfNeighbors_def neighbour_tests [OF assms] of_bool_def
  by simp

text \<open>The value written is alive exactly when Conway's rule says so, and is 0 or 1.\<close>

lemma new_cell_conway:
  assumes "dead_border s" "on_board s i j"
  shows "new_cell s i j = (if conway s i j then 1 else 0)"
proof -
  have "alive s i j \<longleftrightarrow> cell (before s) i j \<noteq> 0" using assms(2) by (simp add: alive_def)
  then show ?thesis
    using neighbours_correct [OF assms] by (auto simp: new_cell_def conway_def Let_def)
qed


section \<open>Cells, loops and matrices\<close>

lemma set_cells_of: "set (cells_of c a b) = {a..b} \<times> {0..c - 1}"
  by (auto simp: cells_of_def)

lemma idx_inj:
  assumes "0 \<le> j" "j < MAXGRID" "0 \<le> j'" "j' < MAXGRID" "idx i j = idx i' j'"
  shows "i = i' \<and> j = j'"
proof -
  have "idx i j div MAXGRID = i" "idx i' j' div MAXGRID = i'"
    using assms(1-4) by (simp_all add: idx_def MAXGRID_def)
  then have "i = i'" using assms(5) by simp
  then show ?thesis using assms(5) by (simp add: idx_def)
qed

lemma fold_flag: "fold (\<lambda>p flag. if P p then False else flag) ps b \<longleftrightarrow> b \<and> (\<forall>p\<in>set ps. \<not> P p)"
  by (induction ps arbitrary: b) auto

lemma isAllZero_iff: "isAllZero s \<longleftrightarrow> (\<forall>i j. on_board s i j \<longrightarrow> cell (after s) i j = 0)"
proof -
  have "isAllZero s \<longleftrightarrow> (\<forall>p\<in>{0..lineSize s - 1} \<times> {0..columnSize s - 1}.
      \<not> (case p of (i, j) \<Rightarrow> cell (after s) i j \<noteq> 0))"
    unfolding isAllZero_def using fold_flag [of "\<lambda>(i, j). cell (after s) i j \<noteq> 0"]
    by (simp add: set_cells_of case_prod_unfold)
  then show ?thesis by (auto simp: on_board_def)
qed

lemma hasNotChanged_iff:
  "hasNotChanged s \<longleftrightarrow> (\<forall>i j. on_board s i j \<longrightarrow> cell (before s) i j = cell (after s) i j)"
proof -
  have "hasNotChanged s \<longleftrightarrow> (\<forall>p\<in>{0..lineSize s - 1} \<times> {0..columnSize s - 1}.
      \<not> (case p of (i, j) \<Rightarrow> cell (before s) i j \<noteq> cell (after s) i j))"
    unfolding hasNotChanged_def
    using fold_flag [of "\<lambda>(i, j). cell (before s) i j \<noteq> cell (after s) i j"]
    by (simp add: set_cells_of case_prod_unfold)
  then show ?thesis by (auto simp: on_board_def)
qed

text \<open>Boards that agree on the board's cells print the same.\<close>

lemma printMatrix_cong:
  assumes "\<And>i j. 0 \<le> i \<Longrightarrow> i < l \<Longrightarrow> 0 \<le> j \<Longrightarrow> j < c \<Longrightarrow> cell M i j = cell M' i j"
  shows "printMatrix l c M = printMatrix l c M'"
  using assms by (auto simp: printMatrix_def)

text \<open>An update reads \<open>before\<close> and writes one cell of \<open>after\<close>.\<close>

lemma update_cell_fields [simp]:
  "before (update_cell p s) = before s" "lineSize (update_cell p s) = lineSize s"
  "columnSize (update_cell p s) = columnSize s"
  by (simp_all add: update_cell_def split_beta)

lemma getNumberOfNeighbors_cong:
  "before s = before t \<Longrightarrow> lineSize s = lineSize t \<Longrightarrow> columnSize s = columnSize t \<Longrightarrow>
   getNumberOfNeighbors s i j = getNumberOfNeighbors t i j"
  by (simp add: getNumberOfNeighbors_def)

lemma new_cell_cong:
  "before s = before t \<Longrightarrow> lineSize s = lineSize t \<Longrightarrow> columnSize s = columnSize t \<Longrightarrow>
   new_cell s i j = new_cell t i j"
  using getNumberOfNeighbors_cong [of s t i j] by (simp add: new_cell_def Let_def)

lemma after_update_cell:
  "after (update_cell (i, j) s) = (after s)(idx i j := new_cell s i j)"
  by (simp add: update_cell_def)

lemma fold_update_fields [simp]:
  "before (fold update_cell ps s) = before s" "lineSize (fold update_cell ps s) = lineSize s"
  "columnSize (fold update_cell ps s) = columnSize s"
  by (induction ps arbitrary: s) simp_all

lemma after_fold_update:
  assumes "\<forall>p\<in>set ps. 0 \<le> snd p \<and> snd p < MAXGRID" "0 \<le> j" "j < MAXGRID"
  shows "cell (after (fold update_cell ps s)) i j =
    (if (i, j) \<in> set ps then new_cell s i j else cell (after s) i j)"
  using assms(1)
proof (induction ps arbitrary: s)
  case Nil
  then show ?case by simp
next
  case (Cons p ps)
  obtain a b where p: "p = (a, b)" by (cases p)
  have "cell (after (fold update_cell (p # ps) s)) i j =
      (if (i, j) \<in> set ps then new_cell (update_cell p s) i j else cell (after (update_cell p s)) i j)"
    using Cons by simp
  moreover have "new_cell (update_cell p s) i j = new_cell s i j" by (rule new_cell_cong) simp_all
  moreover have "cell (after (update_cell p s)) i j =
      (if (i, j) = p then new_cell s i j else cell (after s) i j)"
    using idx_inj [of b j a i] Cons.prems assms(2,3) p by (auto simp: after_update_cell cell_def)
  ultimately show ?case by auto
qed

text \<open>\<open>updateMatrix\<close> copies the board from \<open>after\<close> to \<open>before\<close> and touches nothing else.\<close>

lemma updateMatrix_fold:
  "before (fold (\<lambda>(i, j) t. t\<lparr>before := (before t)(idx i j := cell (after t) i j)\<rparr>) ps s) k =
     (if k \<in> (\<lambda>(i, j). idx i j) ` set ps then after s k else before s k)"
  "after (fold (\<lambda>(i, j) t. t\<lparr>before := (before t)(idx i j := cell (after t) i j)\<rparr>) ps s) = after s"
  "lineSize (fold (\<lambda>(i, j) t. t\<lparr>before := (before t)(idx i j := cell (after t) i j)\<rparr>) ps s) = lineSize s"
  "columnSize (fold (\<lambda>(i, j) t. t\<lparr>before := (before t)(idx i j := cell (after t) i j)\<rparr>) ps s) = columnSize s"
  by (induction ps arbitrary: s) (auto simp: cell_def split_beta)

lemma updateMatrix_fields [simp]:
  "after (updateMatrix s) = after s" "lineSize (updateMatrix s) = lineSize s"
  "columnSize (updateMatrix s) = columnSize s"
  by (simp_all add: updateMatrix_def updateMatrix_fold)

lemma before_updateMatrix:
  "before (updateMatrix s) k =
     (if \<exists>i j. on_board s i j \<and> k = idx i j then after s k else before s k)"
proof -
  have "k \<in> (\<lambda>(i, j). idx i j) ` ({0..lineSize s - 1} \<times> {0..columnSize s - 1})
      \<longleftrightarrow> (\<exists>i j. on_board s i j \<and> k = idx i j)" (is "?L \<longleftrightarrow> ?R")
  proof
    assume ?L
    then obtain i j where "k = idx i j" "i \<in> {0..lineSize s - 1}" "j \<in> {0..columnSize s - 1}"
      by auto
    then show ?R by (intro exI [of _ i] exI [of _ j]) (simp add: on_board_def)
  next
    assume ?R
    then obtain i j where "k = idx i j" "on_board s i j" by blast
    then show ?L by (intro image_eqI [of _ _ "(i, j)"]) (simp_all add: on_board_def)
  qed
  then show ?thesis unfolding updateMatrix_def updateMatrix_fold(1) set_cells_of by simp
qed

section \<open>Generations\<close>

text \<open>
  The abstract game: the set of live cells of a board of \<open>l\<close> lines and \<open>c\<close> columns, and
  Conway's rule on it.
\<close>

definition live_cells :: "board \<Rightarrow> (int \<times> int) set" where
  "live_cells s = {(i, j). alive s i j}"

definition life :: "int \<Rightarrow> int \<Rightarrow> (int \<times> int) set \<Rightarrow> (int \<times> int) set" where
  "life l c A =
     {(i, j). 0 \<le> i \<and> i < l \<and> 0 \<le> j \<and> j < c \<and>
        (let n = card {(i', j') \<in> A. \<bar>i' - i\<bar> \<le> 1 \<and> \<bar>j' - j\<bar> \<le> 1 \<and> (i', j') \<noteq> (i, j)}
         in n = 3 \<or> (n = 2 \<and> (i, j) \<in> A))}"

text \<open>
  One generation as the program computes it: the cells of the board updated in some order, then
  \<open>after\<close> copied to \<open>before\<close>.
\<close>

definition board_cells :: "board \<Rightarrow> (int \<times> int) set" where
  "board_cells s = {(i, j). on_board s i j}"

definition generation :: "(int \<times> int) list \<Rightarrow> board \<Rightarrow> board" where
  "generation ps s = updateMatrix (fold update_cell ps s)"

lemma life_conway:
  "life (lineSize s) (columnSize s) (live_cells s) = {(i, j). on_board s i j \<and> conway s i j}"
proof -
  have "{(i', j') \<in> live_cells s. \<bar>i' - i\<bar> \<le> 1 \<and> \<bar>j' - j\<bar> \<le> 1 \<and> (i', j') \<noteq> (i, j)}
      = live_neighbours s i j" for i j
    by (auto simp: live_neighbours_def live_cells_def)
  then show ?thesis by (auto simp: life_def conway_def on_board_def live_cells_def Let_def)
qed

lemma cells_columns:
  assumes "set ps = board_cells s" "columnSize s \<le> MAXGRID"
  shows "\<forall>p\<in>set ps. 0 \<le> snd p \<and> snd p < MAXGRID"
  using assms by (auto simp: board_cells_def on_board_def)

lemma after_generation_cells:
  assumes "set ps = board_cells s" "columnSize s \<le> MAXGRID" "on_board s i j"
  shows "cell (after (fold update_cell ps s)) i j = new_cell s i j"
  using after_fold_update [OF cells_columns [OF assms(1,2)], where i = i and j = j and s = s] assms
  by (auto simp: board_cells_def on_board_def)

lemma before_generation:
  assumes "set ps = board_cells s" "columnSize s \<le> MAXGRID"
  shows "on_board s i j \<Longrightarrow> cell (before (generation ps s)) i j = new_cell s i j"
    and "\<not> on_board s i j \<Longrightarrow> 0 \<le> j \<Longrightarrow> j < MAXGRID \<Longrightarrow>
      cell (before (generation ps s)) i j = cell (before s) i j"
proof -
  have board: "on_board (fold update_cell ps s) = on_board s" by (intro ext) (simp add: on_board_def)
  show "cell (before (generation ps s)) i j = new_cell s i j" if "on_board s i j"
    using that after_generation_cells [OF assms that]
    unfolding generation_def cell_def before_updateMatrix board by auto
  show "cell (before (generation ps s)) i j = cell (before s) i j"
    if "\<not> on_board s i j" "0 \<le> j" "j < MAXGRID"
  proof -
    have "\<not> (\<exists>i' j'. on_board s i' j' \<and> idx i j = idx i' j')"
    proof
      assume "\<exists>i' j'. on_board s i' j' \<and> idx i j = idx i' j'"
      then obtain i' j' where *: "on_board s i' j'" "idx i j = idx i' j'" by blast
      then have "0 \<le> j'" "j' < MAXGRID" using assms(2) by (auto simp: on_board_def)
      then have "i = i' \<and> j = j'" using idx_inj that(2,3) *(2) by blast
      then show False using * that(1) by simp
    qed
    then show ?thesis unfolding generation_def cell_def before_updateMatrix board by (simp only: if_False fold_update_fields)
  qed
qed

lemma generation_fields [simp]:
  "lineSize (generation ps s) = lineSize s" "columnSize (generation ps s) = columnSize s"
  by (simp_all add: generation_def)

lemma on_board_generation [simp]: "on_board (generation ps s) = on_board s"
  by (intro ext) (simp add: on_board_def)

lemma dead_border_generation:
  assumes "dead_border s" "set ps = board_cells s"
  shows "dead_border (generation ps s)"
proof -
  have c: "columnSize s \<le> MAXGRID" using assms(1) by (simp add: dead_border_def)
  have out: "cell (before (generation ps s)) i j = cell (before s) i j"
    if "\<not> on_board s i j" "0 \<le> j" "j < MAXGRID" for i j
    using before_generation(2) [OF assms(2) c] that by blast
  show ?thesis
    using assms(1) out by (auto simp: dead_border_def on_board_def)
qed

lemma alive_generation:
  assumes "dead_border s" "set ps = board_cells s"
  shows "alive (generation ps s) i j \<longleftrightarrow> on_board s i j \<and> conway s i j"
  using before_generation(1) [OF assms(2), of i j] new_cell_conway [OF assms(1), of i j] assms(1)
  by (auto simp: alive_def dead_border_def split: if_splits)

lemma live_cells_generation:
  assumes "dead_border s" "set ps = board_cells s"
  shows "live_cells (generation ps s) = life (lineSize s) (columnSize s) (live_cells s)"
  unfolding life_conway by (auto simp: live_cells_def alive_generation [OF assms])

lemma board_cells_generation [simp]: "board_cells (generation ps s) = board_cells s"
  by (simp add: board_cells_def)

lemma set_cells_of_board: "set (cells_of (columnSize s) 0 (lineSize s - 1)) = board_cells s"
  by (auto simp: set_cells_of board_cells_def on_board_def)

section \<open>Properties\<close>

text \<open>
  A sequence of generations, each with its own order of the cell updates (as several threads
  may interleave them, repeating cells or not), computes Conway's game from a board with a dead
  border: the live cells after \<open>n\<close> generations are those of \<open>n\<close> steps of the abstract game, and
  the border stays dead.
\<close>

theorem generations_play_life:
  assumes "dead_border s" "\<forall>ps\<in>set pss. set ps = board_cells s"
  shows "live_cells (fold generation pss s)
      = (life (lineSize s) (columnSize s) ^^ length pss) (live_cells s)
    \<and> dead_border (fold generation pss s)"
  using assms
proof (induction pss arbitrary: s)
  case Nil
  then show ?case by simp
next
  case (Cons ps pss)
  then show ?case
    using dead_border_generation [of s ps] live_cells_generation [of s ps]
    by (simp add: funpow_swap1)
qed

definition blinker :: board where
  "blinker = \<lparr>before = (\<lambda>k. if k \<in> {idx 1 0, idx 1 1, idx 1 2} then 1 else 0),
     after = (\<lambda>_. 0), lineSize = 3, columnSize = 3\<rparr>"

lemma dead_border_blinker: "dead_border blinker"
proof -
  have "i * 40 \<noteq> 37" "20 * i \<noteq> 19" "i * 40 \<noteq> 39" for i :: int by presburger+
  then show ?thesis by (auto simp: dead_border_def blinker_def cell_def idx_def MAXGRID_def)
qed

corollary generations_play_life_witness:
  "live_cells (generation (rev (cells_of 3 0 2)) (generation (cells_of 3 0 2) blinker))
     = life 3 3 (life 3 3 (live_cells blinker))"
  using generations_play_life [of blinker "[cells_of 3 0 2, rev (cells_of 3 0 2)]"]
    set_cells_of_board [of blinker] dead_border_blinker
  by (simp add: blinker_def eval_nat_numeral)

text \<open>
  The bound tests of \<open>getNumberOfNeighbors\<close> are off by one, which shows on a board that is 40
  columns wide: the cell in the last column also counts the first cells of its own line, of the
  next and of the one after, because \<open>before[line][40]\<close> is \<open>before[line + 1][0]\<close> in memory.
\<close>

theorem full_width_wraps:
  assumes "columnSize s = MAXGRID" "1 \<le> line" "line + 2 < lineSize s"
  shows "getNumberOfNeighbors s line (MAXGRID - 1)
    = int (card (live_neighbours s line (MAXGRID - 1)))
      + of_bool (cell (before s) line 0 \<noteq> 0)
      + of_bool (cell (before s) (line + 1) 0 \<noteq> 0)
      + of_bool (cell (before s) (line + 2) 0 \<noteq> 0)"
proof -
  have wrap: "cell M k MAXGRID = cell M (k + 1) 0" for M k
    by (simp add: cell_def idx_def algebra_simps)
  have m: "MAXGRID - 1 + 1 = MAXGRID" "0 < MAXGRID" by (simp_all add: MAXGRID_def)
  have l: "line - 1 + 1 = line" "line + 1 + 1 = line + 2" by simp_all
  show ?thesis
    unfolding card_live_neighbours getNumberOfNeighbors_def m(1) wrap l
    using assms by (simp add: alive_def on_board_def MAXGRID_def add.commute)
qed

definition wide_board :: board where
  "wide_board = \<lparr>before = (\<lambda>k. if k \<in> {idx 1 0, idx 2 0, idx 3 0} then 1 else 0),
     after = (\<lambda>_. 0), lineSize = 6, columnSize = 40\<rparr>"

corollary full_width_wraps_witness:
  "getNumberOfNeighbors wide_board 1 39 = int (card (live_neighbours wide_board 1 39)) + 3"
  using full_width_wraps [of wide_board 1]
  by (simp add: wide_board_def MAXGRID_def cell_def idx_def)

end
