(* ===== verification/LifeInput.thy ===== *)
theory LifeInput
  imports LifeGrid CString Mailbox
begin

text \<open>
  \<open>main\<close> of \<open>project3/life.cpp\<close> up to its first message: the command line, the file with the first
  generation, the semaphores and the threads. The file system is a parameter: the contents of the
  files that can be opened; so is what the calls that start semaphores and threads answer.
\<close>

definition MAXTHREAD_life :: int where "MAXTHREAD_life = 10"

section \<open>The code\<close>

text \<open>An \<open>ifstream\<close>: what is left to read. On a file that could not be opened \<open>getline\<close> fails
  without ever setting the end-of-file flag.\<close>

record ifstream =
  contents :: string
  is_open :: bool
  at_eof :: bool

definition open_stream :: "string option \<Rightarrow> ifstream" where
  "open_stream f =
     \<lparr>contents = (case f of None \<Rightarrow> [] | Some cs \<Rightarrow> cs), is_open = (f \<noteq> None), at_eof = False\<rparr>"

definition newline :: char where "newline = CHR 0x0A"

definition getline :: "ifstream \<Rightarrow> string \<times> ifstream" where
  "getline st =
     (if \<not> is_open st then ([], st)
      else let line_str = takeWhile (\<lambda>c. c \<noteq> newline) (contents st)
           in if length line_str = length (contents st)
              then (line_str, st\<lparr>contents := [], at_eof := True\<rparr>)
              else (line_str, st\<lparr>contents := drop (length line_str + 1) (contents st)\<rparr>))"

definition delim :: string where "delim = '' ,'' @ [newline, CHR 0x09]"

datatype life_exit = Bad_argc | Bad_generations | Too_many_lines | Too_many_columns
  | Too_many_threads | Divide_by_zero | Bad_thread_count

text \<open>The inner loop over the tokens of one line; \<open>None\<close> for too many columns.\<close>

fun store_tokens :: "int \<Rightarrow> string list \<Rightarrow> int \<times> int \<times> matrix \<Rightarrow> (int \<times> int \<times> matrix) option" where
  "store_tokens line [] s = Some s"
| "store_tokens line (token # toks) (column, max_col, M) =
     (if column > MAXGRID - 1 then None
      else store_tokens line toks
             (column + 1, (if max_col < column + 1 then column + 1 else max_col),
              M(idx line column := atoi token)))"

text \<open>The loop over the lines: the final value of \<open>line\<close>, of \<open>max_col\<close>, and the matrix.\<close>

function read_lines :: "int \<Rightarrow> int \<Rightarrow> matrix \<Rightarrow> ifstream \<Rightarrow> life_exit + (int \<times> int \<times> matrix)" where
  "read_lines line max_col M st =
     (if at_eof st then Inr (line, max_col, M)
      else if line > MAXGRID then Inl Too_many_lines
      else let (line_str, st') = getline st
           in case store_tokens line (tokens delim (c_str line_str)) (0, max_col, M) of
                None \<Rightarrow> Inl Too_many_columns
              | Some (column, max_col', M') \<Rightarrow> read_lines (line + 1) max_col' M' st')"
  by pat_completeness auto
termination
  by (relation "measure (\<lambda>(line, max_col, M, st). nat (MAXGRID + 1 - line))") auto

declare read_lines.simps [simp del]

text \<open>The global matrices start as zero.\<close>

definition read_board :: "string option \<Rightarrow> life_exit + board" where
  "read_board f =
     (case read_lines 0 0 (\<lambda>_. 0) (open_stream f) of
        Inl e \<Rightarrow> Inl e
      | Inr (line, max_col, M) \<Rightarrow>
          Inr \<lparr>before = M, after = (\<lambda>_. 0), lineSize = line - 1, columnSize = max_col\<rparr>)"

record life_setup =
  set_threads :: int
  set_generations :: int
  isPrint :: bool
  isInput :: bool
  set_board :: board

definition first_char :: "string \<Rightarrow> char" where
  "first_char a = (case c_str a of [] \<Rightarrow> NUL | c # cs \<Rightarrow> c)"

text \<open>
  The arguments, the file, and the number of threads with which the program goes on. There is no
  test for a thread count that is zero or negative.
\<close>

definition life_args :: "(string \<Rightarrow> string option) \<Rightarrow> string list \<Rightarrow> life_exit + life_setup" where
  "life_args files argv =
     (let argc = length argv in
      if argc < 4 \<or> argc > 6 then Inl Bad_argc
      else
        let numberOfThreadsInput = atoi (argv ! 1);
            generations = atoi (argv ! 3)
        in if generations \<le> 0 then Inl Bad_generations
           else case read_board (files (c_str (argv ! 2))) of
             Inl e \<Rightarrow> Inl e
           | Inr b \<Rightarrow>
               if numberOfThreadsInput > MAXTHREAD_life then Inl Too_many_threads
               else
                 let numberOfThreads = (if numberOfThreadsInput > lineSize b then lineSize b
                                        else numberOfThreadsInput)
                 in Inr \<lparr>set_threads = numberOfThreads, set_generations = generations,
                         isPrint = (argc > 4 \<and> first_char (argv ! 4) = CHR ''y''),
                         isInput = (argc > 5 \<and> first_char (argv ! 5) = CHR ''y''),
                         set_board = b\<rparr>)"

text \<open>The semaphores of the mailboxes, the two of the barrier, then the threads, each call tested.\<close>

record life_startup =
  boxes_start :: startup
  gendone_init :: bool
  alldone_init :: bool

datatype life_start_error = Mailbox_start start_error | Gendone_init | Alldone_init

definition life_start :: "life_startup \<Rightarrow> nat \<Rightarrow> life_start_error option" where
  "life_start E numberOfThreads =
     (case sem_inits (nat MAXTHREAD_life) (boxes_start E) of
        Some e \<Rightarrow> Some (Mailbox_start e)
      | None \<Rightarrow>
          if \<not> gendone_init E then Some Gendone_init
          else if \<not> alldone_init E then Some Alldone_init
          else map_option Mailbox_start (create_threads (boxes_start E) numberOfThreads))"

text \<open>
  The whole: a negative number of threads makes the size of the array \<open>threads\<close> zero or negative, which
  is undefined before anything else happens; with none, the semaphores are made and
  no thread is, and \<open>lineSize / numberOfThreads\<close> divides by zero.
\<close>

definition life_main ::
    "life_startup \<Rightarrow> (string \<Rightarrow> string option) \<Rightarrow> string list \<Rightarrow> life_exit + life_start_error + life_setup" where
  "life_main E files argv =
     (case life_args files argv of
        Inl e \<Rightarrow> Inl e
      | Inr st \<Rightarrow>
          if set_threads st < 0 then Inl Bad_thread_count
          else
            (case life_start E (nat (set_threads st)) of
               Some e \<Rightarrow> Inr (Inl e)
             | None \<Rightarrow> if set_threads st = 0 then Inl Divide_by_zero else Inr (Inr st)))"

lemma life_main_started:
  "life_main E files argv = Inr (Inr st) \<longleftrightarrow>
     life_args files argv = Inr st \<and> 1 \<le> set_threads st \<and> life_start E (nat (set_threads st)) = None"
  by (auto simp: life_main_def split: sum.splits option.splits if_splits)

section \<open>Rows and files\<close>

text \<open>The numbers of a line of the file, and a matrix with a list of rows in it.\<close>

definition row_of :: "string \<Rightarrow> int list" where
  "row_of l = map atoi (tokens delim (c_str l))"

definition file_of :: "string list \<Rightarrow> string \<Rightarrow> string" where
  "file_of ls tail = concat (map (\<lambda>l. l @ [newline]) ls) @ tail"

definition grid :: "int list list \<Rightarrow> int \<Rightarrow> int \<Rightarrow> int" where
  "grid rows i j =
     (if 0 \<le> i \<and> nat i < length rows \<and> nat j < length (rows ! nat i)
      then rows ! nat i ! nat j else 0)"

definition width :: "int list list \<Rightarrow> int" where
  "width rows = foldl (\<lambda>w xs. max w (int (length xs))) 0 rows"

lemma store_tokens_Some:
  assumes "length toks \<le> nat (MAXGRID - column)" "0 \<le> column" "column \<le> MAXGRID" "column \<le> max_col"
  shows "\<exists>M'. store_tokens line toks (column, max_col, M) =
      Some (column + int (length toks), max max_col (column + int (length toks)), M')
    \<and> (\<forall>k. M' k = (if idx line column \<le> k \<and> k < idx line column + int (length toks)
                   then atoi (toks ! nat (k - idx line column)) else M k))"
  using assms
proof (induction toks arbitrary: column max_col M)
  case Nil
  then show ?case by auto
next
  case (Cons tok toks)
  let ?M = "M(idx line column := atoi tok)" and ?c = "column + 1"
  have fits: "column \<le> MAXGRID - 1" using Cons.prems by simp
  have "length toks \<le> nat (MAXGRID - ?c)" "0 \<le> ?c" "?c \<le> MAXGRID" "?c \<le> max max_col ?c"
    using Cons.prems fits by auto
  then obtain M' where M': "store_tokens line toks (?c, max max_col ?c, ?M) =
      Some (?c + int (length toks), max (max max_col ?c) (?c + int (length toks)), M')"
    "\<forall>k. M' k = (if idx line ?c \<le> k \<and> k < idx line ?c + int (length toks)
                 then atoi (toks ! nat (k - idx line ?c)) else ?M k)"
    using Cons.IH [of ?c "max max_col ?c" ?M] by blast
  have next_idx: "idx line ?c = idx line column + 1" by (simp add: idx_def)
  have "M' k = (if idx line column \<le> k \<and> k < idx line column + int (length (tok # toks))
                then atoi ((tok # toks) ! nat (k - idx line column)) else M k)" for k
  proof (cases "k > idx line column")
    case True
    then have "nat (k - idx line column) = Suc (nat (k - idx line ?c))" by (simp add: next_idx)
    with True M'(2) show ?thesis by (simp add: next_idx)
  next
    case False
    with M'(2) show ?thesis by (auto simp: next_idx)
  qed
  moreover have "(if max_col < ?c then ?c else max_col) = max max_col ?c" by auto
  moreover have "max (max max_col ?c) (?c + int (length toks))
      = max max_col (column + int (length (tok # toks)))" by auto
  ultimately show ?case
    using M'(1) fits by (intro exI [of _ M']) (auto simp: add.assoc add.commute add.left_commute)
qed

lemma store_row:
  assumes "int (length toks) \<le> MAXGRID" "0 \<le> max_col"
  shows "\<exists>M'. store_tokens line toks (0, max_col, M) =
      Some (int (length toks), max max_col (int (length toks)), M')
    \<and> (\<forall>i j. 0 \<le> j \<longrightarrow> j < MAXGRID \<longrightarrow>
         cell M' i j = (if i = line \<and> nat j < length toks then atoi (toks ! nat j) else cell M i j))"
proof -
  have "length toks \<le> nat (MAXGRID - 0)" using assms(1) by simp
  then obtain M' where M': "store_tokens line toks (0, max_col, M) =
      Some (int (length toks), max max_col (int (length toks)), M')"
    "\<forall>k. M' k = (if idx line 0 \<le> k \<and> k < idx line 0 + int (length toks)
                 then atoi (toks ! nat (k - idx line 0)) else M k)"
    using store_tokens_Some [of toks 0 max_col line M] assms(2)
    by (simp add: MAXGRID_def) blast
  have "cell M' i j = (if i = line \<and> nat j < length toks then atoi (toks ! nat j) else cell M i j)"
    if j: "0 \<le> j" "j < MAXGRID" for i j
  proof -
    have "idx line 0 \<le> idx i j \<and> idx i j < idx line 0 + int (length toks)
        \<longleftrightarrow> i = line \<and> nat j < length toks" (is "?L \<longleftrightarrow> ?R")
    proof
      assume ?L
      then have "idx line 0 \<le> idx i j" "idx i j < idx line 0 + MAXGRID" using assms(1) by auto
      then have "(line - i) * MAXGRID < MAXGRID" "(i - line) * MAXGRID < MAXGRID"
        using j by (auto simp: idx_def algebra_simps)
      then have "line - i < 1" "i - line < 1" by (auto simp: MAXGRID_def)
      then have "i = line" by simp
      with \<open>?L\<close> j show ?R by (auto simp: idx_def)
    qed (use j in \<open>auto simp: idx_def\<close>)
    moreover have "i = line \<Longrightarrow> idx i j - idx line 0 = j" by (simp add: idx_def)
    ultimately show ?thesis using M'(2) by (simp add: cell_def)
  qed
  with M'(1) show ?thesis by blast
qed

lemma getline_file:
  assumes "is_open st" "contents st = l @ newline # rest" "newline \<notin> set l"
  shows "getline st = (l, st\<lparr>contents := rest\<rparr>)"
  using assms by (auto simp: getline_def Let_def takeWhile_append takeWhile_tail)

lemma getline_end:
  assumes "is_open st" "newline \<notin> set (contents st)"
  shows "getline st = (contents st, st\<lparr>contents := [], at_eof := True\<rparr>)"
proof -
  have "takeWhile (\<lambda>c. c \<noteq> newline) (contents st) = contents st"
    unfolding takeWhile_eq_all_conv using assms(2) by blast
  then show ?thesis using assms(1) unfolding getline_def Let_def by (simp only: if_True) simp
qed

lemma grid_Cons:
  "grid (r # rs) i j = (if i = 0 then if nat j < length r then r ! nat j else 0
                        else grid rs (i - 1) j)"
proof (cases "0 < i")
  case True
  then have "nat i = Suc (nat (i - 1))" by simp
  with True show ?thesis by (simp add: grid_def)
qed (auto simp: grid_def)

lemma read_lines_file:
  assumes "\<forall>l\<in>set (ls @ [tail]). newline \<notin> set l \<and> int (length (row_of l)) \<le> MAXGRID"
    and "is_open st" "\<not> at_eof st" "contents st = file_of ls tail"
    and "line + int (length ls) \<le> MAXGRID" "0 \<le> max_col"
    and "\<forall>i j. line \<le> i \<longrightarrow> 0 \<le> j \<longrightarrow> j < MAXGRID \<longrightarrow> cell M i j = 0"
  shows "\<exists>M'. read_lines line max_col M st =
      Inr (line + int (length ls) + 1,
           foldl (\<lambda>w xs. max w (int (length xs))) max_col (map row_of (ls @ [tail])), M')
    \<and> (\<forall>i j. 0 \<le> j \<longrightarrow> j < MAXGRID \<longrightarrow> cell M' i j =
        (if line \<le> i then grid (map row_of (ls @ [tail])) (i - line) j else cell M i j))"
  using assms
proof (induction ls arbitrary: line max_col M st)
  case Nil
  have g: "getline st = (tail, st\<lparr>contents := [], at_eof := True\<rparr>)"
    using getline_end [of st] Nil.prems by (simp add: file_of_def)
  obtain M' where M': "store_tokens line (tokens delim (c_str tail)) (0, max_col, M) =
      Some (int (length (row_of tail)), max max_col (int (length (row_of tail))), M')"
    "\<forall>i j. 0 \<le> j \<longrightarrow> j < MAXGRID \<longrightarrow> cell M' i j =
       (if i = line \<and> nat j < length (row_of tail) then row_of tail ! nat j else cell M i j)"
    using store_row [of "tokens delim (c_str tail)" max_col line M] Nil.prems
    by (auto simp: row_of_def)
  have "read_lines line max_col M st =
      Inr (line + 1, max max_col (int (length (row_of tail))), M')"
    using Nil.prems g M'(1) by (simp add: read_lines.simps)
  then show ?case using M'(2) Nil.prems by (auto simp: grid_Cons grid_def)
next
  case (Cons l ls)
  have g: "getline st = (l, st\<lparr>contents := file_of ls tail\<rparr>)"
    using getline_file [of st l] Cons.prems by (simp add: file_of_def)
  obtain M1 where M1: "store_tokens line (tokens delim (c_str l)) (0, max_col, M) =
      Some (int (length (row_of l)), max max_col (int (length (row_of l))), M1)"
    "\<forall>i j. 0 \<le> j \<longrightarrow> j < MAXGRID \<longrightarrow> cell M1 i j =
       (if i = line \<and> nat j < length (row_of l) then row_of l ! nat j else cell M i j)"
    using store_row [of "tokens delim (c_str l)" max_col line M] Cons.prems
    by (auto simp: row_of_def)
  have step: "read_lines line max_col M st =
      read_lines (line + 1) (max max_col (int (length (row_of l)))) M1
        (st\<lparr>contents := file_of ls tail\<rparr>)"
    using Cons.prems g M1(1) by (subst read_lines.simps) simp
  have "\<forall>l\<in>set (ls @ [tail]). newline \<notin> set l \<and> int (length (row_of l)) \<le> MAXGRID"
    "is_open (st\<lparr>contents := file_of ls tail\<rparr>)" "\<not> at_eof (st\<lparr>contents := file_of ls tail\<rparr>)"
    "contents (st\<lparr>contents := file_of ls tail\<rparr>) = file_of ls tail"
    "line + 1 + int (length ls) \<le> MAXGRID" "0 \<le> max max_col (int (length (row_of l)))"
    "\<forall>i j. line + 1 \<le> i \<longrightarrow> 0 \<le> j \<longrightarrow> j < MAXGRID \<longrightarrow> cell M1 i j = 0"
    using Cons.prems M1(2) by auto
  then obtain M' where M': "read_lines (line + 1) (max max_col (int (length (row_of l)))) M1
        (st\<lparr>contents := file_of ls tail\<rparr>) =
      Inr (line + 1 + int (length ls) + 1, foldl (\<lambda>w xs. max w (int (length xs)))
             (max max_col (int (length (row_of l)))) (map row_of (ls @ [tail])), M')"
    "\<forall>i j. 0 \<le> j \<longrightarrow> j < MAXGRID \<longrightarrow> cell M' i j =
        (if line + 1 \<le> i then grid (map row_of (ls @ [tail])) (i - (line + 1)) j else cell M1 i j)"
    using Cons.IH [where st = "st\<lparr>contents := file_of ls tail\<rparr>" and line = "line + 1" and M = M1
        and max_col = "max max_col (int (length (row_of l)))"] by blast
  have "cell M' i j =
      (if line \<le> i then grid (map row_of ((l # ls) @ [tail])) (i - line) j else cell M i j)"
    if "0 \<le> j" "j < MAXGRID" for i j
    using that M'(2) M1(2) Cons.prems(7) by (auto simp: grid_Cons diff_diff_eq)
  then show ?case using M'(1) step by (intro exI [of _ M']) (simp add: add_ac)
qed

section \<open>Properties\<close>

text \<open>
  C39. A file of at most 40 lines, each ended by a newline, with at most 40 numbers on a line, is
  read as it is written, up to what follows the last newline: the board has a line for each line
  of the file and the width of its longest line, short lines are filled with zeros, and numbers
  after the last newline are stored in the line below the board. With 40 lines, that line is
  \<open>before[40]\<close>, outside the array: the test lets \<open>line\<close> be 40.
\<close>

theorem read_board_rows:
  assumes "\<forall>l\<in>set (ls @ [tail]). newline \<notin> set l \<and> int (length (row_of l)) \<le> MAXGRID"
    and "int (length ls) \<le> MAXGRID"
  shows "\<exists>b. read_board (Some (file_of ls tail)) = Inr b
     \<and> lineSize b = int (length ls) \<and> columnSize b = width (map row_of (ls @ [tail]))
     \<and> (\<forall>i j. 0 \<le> i \<longrightarrow> 0 \<le> j \<longrightarrow> j < MAXGRID \<longrightarrow>
          cell (before b) i j = grid (map row_of (ls @ [tail])) i j)"
proof -
  let ?st = "open_stream (Some (file_of ls tail))"
  obtain M' where M': "read_lines 0 0 (\<lambda>_. 0) ?st =
      Inr (0 + int (length ls) + 1,
           foldl (\<lambda>w xs. max w (int (length xs))) 0 (map row_of (ls @ [tail])), M')"
    "\<forall>i j. 0 \<le> j \<longrightarrow> j < MAXGRID \<longrightarrow> cell M' i j =
        (if 0 \<le> i then grid (map row_of (ls @ [tail])) (i - 0) j else cell (\<lambda>_. 0) i j)"
    using read_lines_file [where ls = ls and tail = tail and st = ?st and line = 0 and max_col = 0
        and M = "\<lambda>_. 0"] assms
    by (simp add: open_stream_def cell_def) blast
  then show ?thesis by (simp add: read_board_def width_def)
qed

corollary read_board_rows_witness:
  "\<exists>b. read_board (Some (file_of [''0 1'', ''1'', ''0,1 1''] [])) = Inr b \<and> lineSize b = 3
     \<and> columnSize b = 3 \<and> cell (before b) 2 1 = 1 \<and> cell (before b) 1 1 = 0"
proof -
  have rows: "row_of ''0 1'' = [0, 1]" "row_of ''1'' = [1]" "row_of ''0,1 1'' = [0, 1, 1]"
    "row_of [] = []" by code_simp+
  have "\<forall>l\<in>set ([''0 1'', ''1'', ''0,1 1''] @ [[]]). newline \<notin> set l
      \<and> int (length (row_of l)) \<le> MAXGRID"
    by (simp add: rows newline_def MAXGRID_def)
  then show ?thesis
    using read_board_rows [of "[''0 1'', ''1'', ''0,1 1'']" "[]"]
    by (auto simp: rows MAXGRID_def width_def grid_def)
qed

lemma foldl_max_bounds:
  "w \<le> foldl (\<lambda>w xs. max w (int (length xs))) w rows"
  "xs \<in> set rows \<Longrightarrow> int (length xs) \<le> foldl (\<lambda>w xs. max w (int (length xs))) w rows"
  "w \<le> k \<Longrightarrow> \<forall>xs\<in>set rows. int (length xs) \<le> k \<Longrightarrow>
     foldl (\<lambda>w xs. max w (int (length xs))) w rows \<le> k"
proof (induction rows arbitrary: w)
  case (Cons r rows)
  { case 1 show ?case using Cons.IH(1) [of "max w (int (length r))"] by simp }
  { case 2 then show ?case
      using Cons.IH(1) [of "max w (int (length r))"] Cons.IH(2) [of "max w (int (length r))"] by auto }
  { case 3 then show ?case using Cons.IH(3) [of "max w (int (length r))"] by simp }
qed simp_all

lemma width_bounds:
  "0 \<le> width rows" "xs \<in> set rows \<Longrightarrow> int (length xs) \<le> width rows"
  "0 \<le> k \<Longrightarrow> \<forall>xs\<in>set rows. int (length xs) \<le> k \<Longrightarrow> width rows \<le> k"
  unfolding width_def using foldl_max_bounds by blast+

lemma grid_beyond_width:
  assumes "width rows \<le> j"
  shows "grid rows i j = 0"
proof -
  have "\<not> nat j < length (rows ! nat i)" if "nat i < length rows"
    using width_bounds(2) [of "rows ! nat i" rows] that assms by simp
  then show ?thesis by (auto simp: grid_def)
qed

lemma read_newline_file:
  assumes "\<forall>l\<in>set ls. newline \<notin> set l \<and> int (length (row_of l)) < MAXGRID"
    and "int (length ls) < MAXGRID"
  shows "\<exists>b. read_board (Some (file_of ls [])) = Inr b \<and> dead_border b
     \<and> lineSize b = int (length ls) \<and> columnSize b = width (map row_of ls)
     \<and> live_cells b = {(i, j). 0 \<le> i \<and> 0 \<le> j \<and> grid (map row_of ls) i j \<noteq> 0}"
proof -
  have e: "row_of [] = []" by (simp add: row_of_def c_str_def tokens_Nil_iff)
  have g: "grid (map row_of (ls @ [[]])) = grid (map row_of ls)"
    by (intro ext) (auto simp: grid_def e nth_append)
  have w: "width (map row_of (ls @ [[]])) = width (map row_of ls)"
    using width_bounds(1) [of "map row_of ls"] by (simp add: width_def e)
  have pre: "\<forall>l\<in>set (ls @ [[]]). newline \<notin> set l \<and> int (length (row_of l)) \<le> MAXGRID"
    using assms(1) by (auto simp: e MAXGRID_def)
  obtain M where M: "read_lines 0 0 (\<lambda>_. 0) (open_stream (Some (file_of ls []))) =
      Inr (int (length ls) + 1, width (map row_of ls), M)"
    "\<forall>i j. 0 \<le> j \<longrightarrow> j < MAXGRID \<longrightarrow> 0 \<le> i \<longrightarrow> cell M i j = grid (map row_of ls) i j"
    using read_lines_file [where ls = ls and tail = "[]" and st = "open_stream (Some (file_of ls []))"
        and line = 0 and max_col = 0 and M = "\<lambda>_. 0"] pre assms(2) g w
    by (auto simp: open_stream_def cell_def width_def)
  have small: "width (map row_of ls) \<le> MAXGRID - 1"
    using assms(1) by (intro width_bounds(3)) (auto simp: MAXGRID_def)
  define b where "b = \<lparr>before = M, after = (\<lambda>_. 0), lineSize = int (length ls),
    columnSize = width (map row_of ls)\<rparr>"
  have read: "read_board (Some (file_of ls [])) = Inr b"
    using M(1) by (simp add: read_board_def b_def)
  have c: "cell (before b) i j = grid (map row_of ls) i j" if "0 \<le> i" "0 \<le> j" "j < MAXGRID" for i j
    using that M(2) by (simp add: b_def)
  have border: "dead_border b"
    using small c assms(2) width_bounds(1) [of "map row_of ls"] grid_beyond_width [of "map row_of ls"]
    by (auto simp: dead_border_def b_def) (simp add: grid_def)
  have "alive b i j \<longleftrightarrow> 0 \<le> i \<and> 0 \<le> j \<and> grid (map row_of ls) i j \<noteq> 0" for i j
  proof (cases "0 \<le> i \<and> i < int (length ls) \<and> 0 \<le> j \<and> j < width (map row_of ls)")
    case True
    then show ?thesis using c [of i j] small by (simp add: alive_def on_board_def b_def)
  next
    case False
    then show ?thesis using grid_beyond_width [of "map row_of ls" j i]
      by (auto simp: alive_def on_board_def b_def grid_def)
  qed
  then have "live_cells b = {(i, j). 0 \<le> i \<and> 0 \<le> j \<and> grid (map row_of ls) i j \<noteq> 0}"
    by (simp add: live_cells_def)
  with read border show ?thesis by (intro exI [of _ b]) (simp add: b_def)
qed

text \<open>
  A file of at most 39 lines of at most 39 numbers that ends with a newline gives a board with
  a dead border, whose live cells are the numbers of the file that are not zero; so the
  generations computed from it are Conway's.
\<close>

theorem newline_file_dead_border:
  assumes "\<forall>l\<in>set ls. newline \<notin> set l \<and> int (length (row_of l)) < MAXGRID"
    and "int (length ls) < MAXGRID"
  shows "\<exists>b. read_board (Some (file_of ls [])) = Inr b \<and> dead_border b
     \<and> lineSize b = int (length ls) \<and> columnSize b = width (map row_of ls)
     \<and> live_cells b = {(i, j). 0 \<le> i \<and> 0 \<le> j \<and> grid (map row_of ls) i j \<noteq> 0}"
  using read_newline_file [OF assms] .

corollary newline_file_dead_border_witness:
  "\<exists>b. read_board (Some (file_of [''0 1'', ''1''] [])) = Inr b \<and> dead_border b \<and> lineSize b = 2"
proof -
  have rows: "row_of ''0 1'' = [0, 1]" "row_of ''1'' = [1]" by code_simp+
  show ?thesis
    using newline_file_dead_border [of "[''0 1'', ''1'']"]
    by (auto simp: rows MAXGRID_def newline_def)
qed

lemma read_lines_closed:
  assumes "\<not> is_open st" "\<not> at_eof st" "0 \<le> line"
  shows "read_lines line max_col M st = Inl Too_many_lines"
  using assms
proof (induction "nat (MAXGRID + 1 - line)" arbitrary: line)
  case 0
  then show ?case by (subst read_lines.simps) simp
next
  case (Suc k)
  then have "read_lines (line + 1) max_col M st = Inl Too_many_lines" by simp
  moreover have "getline st = ([], st)" using Suc.prems by (simp add: getline_def)
  moreover have "tokens delim (c_str []) = []" by (simp add: c_str_def tokens_Nil_iff)
  ultimately show ?case using Suc.prems by (subst read_lines.simps) simp
qed

lemma read_lines_not_zero: "read_lines line max_col M st \<noteq> Inl Divide_by_zero"
proof (induction line max_col M st rule: read_lines.induct)
  case (1 line max_col M st)
  then show ?case
    by (subst read_lines.simps) (auto simp: Let_def split: prod.splits option.splits)
qed

lemma life_args_InrD:
  assumes "life_args files argv = Inr st"
  shows "1 \<le> set_generations st" "set_generations st \<le> INT_MAX"
    "set_threads st \<le> MAXTHREAD_life" "set_threads st \<le> lineSize (set_board st)"
    "4 \<le> length argv" "length argv \<le> 6"
proof -
  have bound: "atoi (argv ! 3) \<le> INT_MAX" using in_int_atoi [of "argv ! 3"] by (simp add: in_int_def)
  show "1 \<le> set_generations st" "set_generations st \<le> INT_MAX"
    "set_threads st \<le> MAXTHREAD_life" "set_threads st \<le> lineSize (set_board st)"
    "4 \<le> length argv" "length argv \<le> 6"
    using assms bound by (auto simp: life_args_def Let_def split: if_split_asm sum.split_asm)
qed

text \<open>
  The program goes on to its messages only with at least one generation and with between one
  and ten threads, no more than the board has lines; with no thread at all it divides by zero, once all
  semaphores are made; and a file that cannot be opened is reported
  as one with too many lines, because \<open>eof\<close> never becomes true on it.
\<close>

theorem life_main_checked:
  "(life_main E files argv = Inr (Inr st) \<longrightarrow>
      1 \<le> set_generations st \<and> set_generations st \<le> INT_MAX \<and>
      1 \<le> set_threads st \<and> set_threads st \<le> MAXTHREAD_life \<and>
      set_threads st \<le> lineSize (set_board st) \<and> 4 \<le> length argv \<and> length argv \<le> 6) \<and>
   (life_main E files argv = Inl Divide_by_zero \<longrightarrow> life_start E 0 = None) \<and>
   (4 \<le> length argv \<longrightarrow> length argv \<le> 6 \<longrightarrow> 0 < atoi (argv ! 3) \<longrightarrow>
      files (c_str (argv ! 2)) = None \<longrightarrow> life_main E files argv = Inl Too_many_lines)"
proof (intro conjI impI)
  assume "life_main E files argv = Inr (Inr st)"
  then have ok: "life_args files argv = Inr st" and n: "1 \<le> set_threads st"
    by (simp_all add: life_main_started)
  show "1 \<le> set_threads st" by (rule n)
  show "1 \<le> set_generations st" "set_generations st \<le> INT_MAX"
    "set_threads st \<le> MAXTHREAD_life" "set_threads st \<le> lineSize (set_board st)"
    "4 \<le> length argv" "length argv \<le> 6"
    using life_args_InrD [OF ok] by simp_all
next
  have no: "read_lines 0 0 (\<lambda>_. 0) st \<noteq> Inl Divide_by_zero" for st
    by (rule read_lines_not_zero)
  assume "life_main E files argv = Inl Divide_by_zero"
  then show "life_start E 0 = None"
    using no by (auto simp: life_main_def life_args_def read_board_def Let_def
        split: sum.split_asm option.split_asm if_split_asm)
next
  assume "4 \<le> length argv" "length argv \<le> 6" "0 < atoi (argv ! 3)" "files (c_str (argv ! 2)) = None"
  moreover have "read_board None = Inl Too_many_lines"
    using read_lines_closed [of "open_stream None" 0] by (simp add: read_board_def open_stream_def)
  ultimately show "life_main E files argv = Inl Too_many_lines"
    by (simp add: life_main_def life_args_def Let_def)
qed

corollary life_main_checked_witness:
  "life_main E (\<lambda>_. None) [''life'', ''6'', ''gen0.in'', ''40''] = Inl Too_many_lines"
proof -
  have "atoi ''40'' = 40" by code_simp
  then show ?thesis
    using life_main_checked [of E "\<lambda>_. None" "[''life'', ''6'', ''gen0.in'', ''40'']"] by simp
qed

end
