(* ===== verification/LifeProtocol.thy ===== *)
theory LifeProtocol
  imports LifeInput Mailbox
begin

text \<open>
  The running program of \<open>project3/life.cpp\<close>: \<open>main\<close> after its arguments, and the
  \<open>linesthread\<close> of each of its threads, as one step relation. A step of a worker is one mailbox
  call, one semaphore call, one access to \<open>barrierCount\<close> or the update of one cell; a step of
  \<open>main\<close> is one mailbox call, one join, or one pass over the board. That the passes over the board
  may be taken as single steps is proved in \<open>LifeProgress\<close>: no thread writes a cell
  while \<open>main\<close> is about to make one.

  The fields \<open>gen\<close> and \<open>cGen\<close> count the increments of the variables of these names; the
  variables, of type \<open>int\<close>, hold the counts modulo \<open>2\<^sup>3\<^sup>2\<close>, \<open>wrap32 (int gen)\<close>, and this is what the
  loop tests and what is printed. For \<open>numberOfGenerations = INT_MAX\<close> the test of the loop is
  never false. The step relation has the test as a parameter; the program is the relation with
  \<open>loop_goes_on numberOfGenerations\<close>. The same relation with \<open>gens_upto\<close>, where the counter does not
  wrap, is what the invariants are proved for; \<open>LifeProgress\<close> carries the runs of the program over.
\<close>

definition GO :: int where "GO = 3"
definition GENDONE :: int where "GENDONE = 4"
definition STOP :: int where "STOP = 5"

section \<open>Reference: the game with one thread\<close>

text \<open>
  The game as a sequential function: the generations shown, the number of generations reported at
  the end, and the matrix printed then. \<open>m\<close> generations are left, \<open>c\<close> are done.
\<close>

definition update_all :: "board \<Rightarrow> board" where
  "update_all b = fold update_cell (cells_of (columnSize b) 0 (lineSize b - 1)) b"

definition picture :: "board \<Rightarrow> matrix \<Rightarrow> int list list" where
  "picture b M = printMatrix (lineSize b) (columnSize b) M"

fun sequential_life ::
  "nat \<Rightarrow> nat \<Rightarrow> board \<Rightarrow> (int \<times> int list list) list \<times> int \<times> int list list" where
  "sequential_life 0 c b =
     ([(wrap32 (int c), picture b (before b))], wrap32 (int c), picture b (after b))"
| "sequential_life (Suc m) c b =
     (let t = update_all b in
      if isAllZero t \<or> hasNotChanged t
      then ([(wrap32 (int c), picture b (before b))], wrap32 (int (c + 1)), picture t (after t))
      else let (frames, result) = sequential_life m (c + 1) (updateMatrix t)
           in ((wrap32 (int c), picture b (before b)) # frames, result))"

section \<open>The running program\<close>

text \<open>Each constructor is a point of \<open>linesthread\<close> with the local variables that are alive there:
  the bounds, \<open>gen\<close>, and the cells still to update.\<close>

datatype lworker =
    LRange
  | LGo int int nat
  | LUpd int int nat "(int \<times> int) list"
  | LDone int int nat
  | LBarrier nat      \<comment> \<open>before \<open>sem_wait(&gendone_sem)\<close>\<close>
  | LCount nat        \<comment> \<open>before \<open>barrierCount++\<close>\<close>
  | LUnlock nat       \<comment> \<open>before \<open>sem_post(&gendone_sem)\<close>\<close>
  | LTest nat         \<comment> \<open>before the test of \<open>barrierCount\<close>\<close>
  | LPost nat nat     \<comment> \<open>in the loop of posts, with the number of posts to go\<close>
  | LWait nat         \<comment> \<open>before \<open>sem_wait(&alldone_sem)\<close>\<close>
  | LAllDone nat      \<comment> \<open>before sending ALLDONE\<close>
  | LExit nat         \<comment> \<open>\<open>pthread_exit\<close>\<close>
  | LFail             \<comment> \<open>\<open>exit(1)\<close> after a message of the wrong type\<close>

datatype lparent =
    PRange nat        \<comment> \<open>about to send the range to thread \<open>i + 1\<close>\<close>
  | PShow             \<comment> \<open>head of the main loop\<close>
  | PGo nat
  | PRecv nat
  | PCheck            \<comment> \<open>after the receive loop\<close>
  | PStop nat
  | PUpdate
  | PEnd              \<comment> \<open>after the main loop\<close>
  | PJoin nat
  | PDone

record life =
  mail :: "msg mailbox_state"
  board :: board
  workers :: "nat \<Rightarrow> lworker"
  parent :: lparent
  gendone_sem :: nat
  alldone_sem :: nat
  barrierCount :: nat
  cGen :: nat
  genDoneCounter :: nat
  allDoneCounter :: nat
  improper :: nat
  shown :: "(int \<times> int list list) list"
  ended :: "(int \<times> int list list) option"

definition life_init :: "board \<Rightarrow> life" where
  "life_init b =
     \<lparr>mail = init_mailboxes (nat MAXTHREAD_life) \<lparr>iFrom = 0, mtype = 0, value1 = 0, value2 = 0\<rparr>,
      board = b, workers = (\<lambda>_. LRange), parent = PRange 0, gendone_sem = 1, alldone_sem = 0,
      barrierCount = 0, cGen = 0, genDoneCounter = 0, allDoneCounter = 0, improper = 0,
      shown = [], ended = None\<rparr>"

text \<open>The message for thread \<open>i + 1\<close>: all lines are non-negative here, so \<open>/\<close> is \<open>div\<close>.\<close>

definition life_range_msg :: "nat \<Rightarrow> int \<Rightarrow> nat \<Rightarrow> msg" where
  "life_range_msg n lines i =
     (let range = lines div int n in
      if i < n - 1
      then \<lparr>iFrom = 0, mtype = RANGE, value1 = int i * range, value2 = (int i + 1) * range - 1\<rparr>
      else \<lparr>iFrom = 0, mtype = RANGE, value1 = (int n - 1) * range, value2 = lines - 1\<rparr>)"

text \<open>The test of the loop over the generations, and where a thread is after it.\<close>

definition loop_goes_on :: "nat \<Rightarrow> nat \<Rightarrow> bool" where
  "loop_goes_on numberOfGenerations gen \<longleftrightarrow> wrap32 (int gen) \<le> int numberOfGenerations"

definition gens_upto :: "nat \<Rightarrow> nat \<Rightarrow> bool" where
  "gens_upto N gen \<longleftrightarrow> gen \<le> N"

definition next_gen :: "(nat \<Rightarrow> bool) \<Rightarrow> int \<Rightarrow> int \<Rightarrow> nat \<Rightarrow> lworker" where
  "next_gen go f t gen = (if go gen then LGo f t gen else LBarrier gen)"

text \<open>
  \<open>n\<close> threads, \<open>go\<close> the test of the loop over the generations. The fields of a GO, STOP, GENDONE or ALLDONE message other than
  its type are not initialised in the source or left from before; they are arbitrary here.
\<close>

inductive life_step :: "nat \<Rightarrow> (nat \<Rightarrow> bool) \<Rightarrow> bool \<Rightarrow> life \<Rightarrow> life \<Rightarrow> bool"
  for n :: nat and go :: "nat \<Rightarrow> bool" and isPr :: bool where
  parent_range: "parent s = PRange i \<Longrightarrow>
     sendMsg (i + 1) (life_range_msg n (lineSize (board s)) i) (mail s) = Some m \<Longrightarrow>
     life_step n go isPr s (s\<lparr>mail := m, parent := if i + 1 < n then PRange (i + 1) else PShow\<rparr>)"
| parent_show: "parent s = PShow \<Longrightarrow>
     life_step n go isPr s
       (s\<lparr>shown := (if isPr then shown s @ [(wrap32 (int (cGen s)), picture (board s) (before (board s)))]
                      else shown s),
          parent := PGo 1\<rparr>)"
| parent_go: "parent s = PGo i \<Longrightarrow> mtype message = GO \<Longrightarrow> sendMsg i message (mail s) = Some m \<Longrightarrow>
     life_step n go isPr s
       (s\<lparr>mail := m, genDoneCounter := (if i + 1 \<le> n then genDoneCounter s else 0),
          parent := if i + 1 \<le> n then PGo (i + 1) else PRecv 1\<rparr>)"
| parent_recv: "parent s = PRecv i \<Longrightarrow> recvMsg 0 (mail s) = Some (message, m) \<Longrightarrow>
     life_step n go isPr s
       (s\<lparr>mail := m,
          genDoneCounter := (if mtype message = GENDONE then genDoneCounter s + 1
                             else genDoneCounter s),
          allDoneCounter := (if mtype message \<noteq> GENDONE \<and> mtype message = ALLDONE
                             then allDoneCounter s + 1 else allDoneCounter s),
          improper := (if mtype message \<noteq> GENDONE \<and> mtype message \<noteq> ALLDONE
                       then improper s + 1 else improper s),
          parent := if i + 1 \<le> n then PRecv (i + 1) else PCheck\<rparr>)"
| parent_check_done: "parent s = PCheck \<Longrightarrow> allDoneCounter s = n \<Longrightarrow>
     life_step n go isPr s (s\<lparr>parent := PEnd\<rparr>)"
| parent_check_stop: "parent s = PCheck \<Longrightarrow> allDoneCounter s \<noteq> n \<Longrightarrow>
     isAllZero (board s) \<or> hasNotChanged (board s) \<Longrightarrow>
     life_step n go isPr s (s\<lparr>cGen := cGen s + 1, parent := PStop 1\<rparr>)"
| parent_check_go: "parent s = PCheck \<Longrightarrow> allDoneCounter s \<noteq> n \<Longrightarrow>
     \<not> (isAllZero (board s) \<or> hasNotChanged (board s)) \<Longrightarrow>
     life_step n go isPr s (s\<lparr>cGen := cGen s + 1, parent := PUpdate\<rparr>)"
| parent_stop: "parent s = PStop i \<Longrightarrow> mtype message = STOP \<Longrightarrow> sendMsg i message (mail s) = Some m \<Longrightarrow>
     life_step n go isPr s (s\<lparr>mail := m, parent := if i + 1 \<le> n then PStop (i + 1) else PEnd\<rparr>)"
| parent_update: "parent s = PUpdate \<Longrightarrow>
     life_step n go isPr s
       (s\<lparr>board := updateMatrix (board s),
          parent := if allDoneCounter s = n then PEnd else PShow\<rparr>)"
| parent_end: "parent s = PEnd \<Longrightarrow>
     life_step n go isPr s
       (s\<lparr>ended := Some (wrap32 (int (cGen s)), picture (board s) (after (board s))), parent := PJoin 1\<rparr>)"
| parent_join: "parent s = PJoin i \<Longrightarrow> workers s i = LExit gen \<Longrightarrow>
     life_step n go isPr s (s\<lparr>parent := if i + 1 \<le> n then PJoin (i + 1) else PDone\<rparr>)"
| worker_range: "1 \<le> j \<Longrightarrow> j \<le> n \<Longrightarrow> workers s j = LRange \<Longrightarrow>
     recvMsg j (mail s) = Some (message, m) \<Longrightarrow>
     life_step n go isPr s
       (s\<lparr>mail := m, workers := (workers s)(j :=
            if mtype message \<noteq> RANGE then LFail
            else next_gen go (value1 message) (value2 message) 1)\<rparr>)"
| worker_go: "1 \<le> j \<Longrightarrow> j \<le> n \<Longrightarrow> workers s j = LGo f t gen \<Longrightarrow>
     recvMsg j (mail s) = Some (message, m) \<Longrightarrow>
     life_step n go isPr s
       (s\<lparr>mail := m, workers := (workers s)(j :=
            if mtype message = STOP then LExit gen
            else if mtype message = GO then LUpd f t gen (cells_of (columnSize (board s)) f t)
            else LFail)\<rparr>)"
| worker_update: "1 \<le> j \<Longrightarrow> j \<le> n \<Longrightarrow> workers s j = LUpd f t gen (p # ps) \<Longrightarrow>
     life_step n go isPr s
       (s\<lparr>board := update_cell p (board s), workers := (workers s)(j := LUpd f t gen ps)\<rparr>)"
| worker_updated: "1 \<le> j \<Longrightarrow> j \<le> n \<Longrightarrow> workers s j = LUpd f t gen [] \<Longrightarrow>
     life_step n go isPr s (s\<lparr>workers := (workers s)(j := LDone f t gen)\<rparr>)"
| worker_gendone: "1 \<le> j \<Longrightarrow> j \<le> n \<Longrightarrow> workers s j = LDone f t gen \<Longrightarrow> mtype message = GENDONE \<Longrightarrow>
     sendMsg 0 message (mail s) = Some m \<Longrightarrow>
     life_step n go isPr s
       (s\<lparr>mail := m, workers := (workers s)(j := next_gen go f t (gen + 1))\<rparr>)"
| worker_lock: "1 \<le> j \<Longrightarrow> j \<le> n \<Longrightarrow> workers s j = LBarrier gen \<Longrightarrow> gendone_sem s \<noteq> 0 \<Longrightarrow>
     life_step n go isPr s
       (s\<lparr>gendone_sem := gendone_sem s - 1, workers := (workers s)(j := LCount gen)\<rparr>)"
| worker_count: "1 \<le> j \<Longrightarrow> j \<le> n \<Longrightarrow> workers s j = LCount gen \<Longrightarrow>
     life_step n go isPr s
       (s\<lparr>barrierCount := barrierCount s + 1, workers := (workers s)(j := LUnlock gen)\<rparr>)"
| worker_unlock: "1 \<le> j \<Longrightarrow> j \<le> n \<Longrightarrow> workers s j = LUnlock gen \<Longrightarrow>
     life_step n go isPr s
       (s\<lparr>gendone_sem := gendone_sem s + 1, workers := (workers s)(j := LTest gen)\<rparr>)"
| worker_test: "1 \<le> j \<Longrightarrow> j \<le> n \<Longrightarrow> workers s j = LTest gen \<Longrightarrow>
     life_step n go isPr s
       (s\<lparr>workers := (workers s)(j :=
            if barrierCount s = n then LPost gen (n + 1) else LWait gen)\<rparr>)"
| worker_post: "1 \<le> j \<Longrightarrow> j \<le> n \<Longrightarrow> workers s j = LPost gen (Suc k) \<Longrightarrow>
     life_step n go isPr s
       (s\<lparr>alldone_sem := alldone_sem s + 1, workers := (workers s)(j := LPost gen k)\<rparr>)"
| worker_posted: "1 \<le> j \<Longrightarrow> j \<le> n \<Longrightarrow> workers s j = LPost gen 0 \<Longrightarrow>
     life_step n go isPr s (s\<lparr>workers := (workers s)(j := LWait gen)\<rparr>)"
| worker_wait: "1 \<le> j \<Longrightarrow> j \<le> n \<Longrightarrow> workers s j = LWait gen \<Longrightarrow> alldone_sem s \<noteq> 0 \<Longrightarrow>
     life_step n go isPr s
       (s\<lparr>alldone_sem := alldone_sem s - 1, workers := (workers s)(j := LAllDone gen)\<rparr>)"
| worker_alldone: "1 \<le> j \<Longrightarrow> j \<le> n \<Longrightarrow> workers s j = LAllDone gen \<Longrightarrow> mtype message = ALLDONE \<Longrightarrow>
     sendMsg 0 message (mail s) = Some m \<Longrightarrow>
     life_step n go isPr s (s\<lparr>mail := m, workers := (workers s)(j := LExit gen)\<rparr>)"

inductive life_run :: "nat \<Rightarrow> (nat \<Rightarrow> bool) \<Rightarrow> bool \<Rightarrow> board \<Rightarrow> nat \<Rightarrow> life \<Rightarrow> bool"
  for n :: nat and go :: "nat \<Rightarrow> bool" and isPr :: bool and b :: board where
  life_start: "life_run n go isPr b 0 (life_init b)"
| life_next: "life_run n go isPr b k s \<Longrightarrow> life_step n go isPr s t \<Longrightarrow> life_run n go isPr b (Suc k) t"

end
