(* ===== verification/LifeCorrect.thy ===== *)
theory LifeCorrect
  imports LifeProtocol
begin

text \<open>
  The correctness of the threaded game of LifeProtocol: an invariant of its reachable states in
  three layers (messages, barrier, board), and what follows from it.
\<close>

section \<open>What has been sent, and how far a thread is\<close>

text \<open>The generations whose GENDONE a thread has sent.\<close>

fun fin :: "lworker \<Rightarrow> nat" where
  "fin LRange = 0"
| "fin (LGo f t gen) = gen - 1"
| "fin (LUpd f t gen ps) = gen - 1"
| "fin (LDone f t gen) = gen - 1"
| "fin (LBarrier gen) = gen - 1"
| "fin (LCount gen) = gen - 1"
| "fin (LUnlock gen) = gen - 1"
| "fin (LTest gen) = gen - 1"
| "fin (LPost gen k) = gen - 1"
| "fin (LWait gen) = gen - 1"
| "fin (LAllDone gen) = gen - 1"
| "fin (LExit gen) = gen - 1"
| "fin LFail = 0"

text \<open>What \<open>main\<close> has sent to thread \<open>j\<close>: its range, so many GOs, a STOP. \<open>g\<close> is \<open>cGen\<close> and
  \<open>a\<close> is \<open>allDoneCounter\<close>.\<close>

fun rangesent :: "lparent \<Rightarrow> nat \<Rightarrow> bool" where
  "rangesent (PRange i) j = (j \<le> i)"
| "rangesent p j = True"

fun gosent :: "nat \<Rightarrow> lparent \<Rightarrow> nat \<Rightarrow> nat \<Rightarrow> nat \<Rightarrow> nat" where
  "gosent n (PRange i) g a j = 0"
| "gosent n PShow g a j = g"
| "gosent n (PGo i) g a j = (if j < i then g + 1 else g)"
| "gosent n (PRecv i) g a j = g + 1"
| "gosent n PCheck g a j = g + 1"
| "gosent n PUpdate g a j = g"
| "gosent n (PStop i) g a j = g"
| "gosent n PEnd g a j = (if a = n then g + 1 else g)"
| "gosent n (PJoin i) g a j = (if a = n then g + 1 else g)"
| "gosent n PDone g a j = (if a = n then g + 1 else g)"

fun stopsent :: "nat \<Rightarrow> lparent \<Rightarrow> nat \<Rightarrow> nat \<Rightarrow> bool" where
  "stopsent n (PStop i) a j = (j < i)"
| "stopsent n PEnd a j = (a \<noteq> n)"
| "stopsent n (PJoin i) a j = (a \<noteq> n)"
| "stopsent n PDone a j = (a \<noteq> n)"
| "stopsent n p a j = False"

text \<open>The generation every thread has finished, and the GENDONEs \<open>main\<close> has received.\<close>

fun low :: "nat \<Rightarrow> lparent \<Rightarrow> nat \<Rightarrow> nat" where
  "low N PCheck g = (if g < N then g + 1 else g)"
| "low N p g = g"

fun received :: "nat \<Rightarrow> nat \<Rightarrow> lparent \<Rightarrow> nat \<Rightarrow> nat" where
  "received n N (PRecv i) g = n * g + (if g < N then i - 1 else 0)"
| "received n N PCheck g = n * g + (if g < N then n else 0)"
| "received n N p g = n * g"

fun parent_ok :: "nat \<Rightarrow> nat \<Rightarrow> lparent \<Rightarrow> nat \<Rightarrow> nat \<Rightarrow> nat \<Rightarrow> bool" where
  "parent_ok n N (PRange i) g a d = (i < n \<and> g = 0 \<and> a = 0)"
| "parent_ok n N PShow g a d = (g \<le> N \<and> a = 0)"
| "parent_ok n N (PGo i) g a d = (1 \<le> i \<and> i \<le> n \<and> g \<le> N \<and> a = 0)"
| "parent_ok n N (PRecv i) g a d =
     (1 \<le> i \<and> i \<le> n \<and> g \<le> N \<and> (if g < N then a = 0 \<and> d = i - 1 else a = i - 1 \<and> d = 0))"
| "parent_ok n N PCheck g a d = (g \<le> N \<and> (if g < N then a = 0 \<and> d = n else a = n \<and> d = 0))"
| "parent_ok n N PUpdate g a d = (1 \<le> g \<and> g \<le> N \<and> a = 0)"
| "parent_ok n N (PStop i) g a d = (1 \<le> i \<and> i \<le> n \<and> 1 \<le> g \<and> g \<le> N \<and> a = 0)"
| "parent_ok n N PEnd g a d = (1 \<le> g \<and> g \<le> N \<and> (a = 0 \<or> a = n \<and> g = N))"
| "parent_ok n N (PJoin i) g a d =
     (1 \<le> i \<and> i \<le> n \<and> 1 \<le> g \<and> g \<le> N \<and> (a = 0 \<or> a = n \<and> g = N))"
| "parent_ok n N PDone g a d = (1 \<le> g \<and> g \<le> N \<and> (a = 0 \<or> a = n \<and> g = N))"

section \<open>The messages\<close>

definition bound_from :: "nat \<Rightarrow> int \<Rightarrow> nat \<Rightarrow> int" where
  "bound_from n lines j = value1 (life_range_msg n lines (j - 1))"

definition bound_to :: "nat \<Rightarrow> int \<Rightarrow> nat \<Rightarrow> int" where
  "bound_to n lines j = value2 (life_range_msg n lines (j - 1))"

text \<open>
  A thread against its mailbox: it has received the GOs of the generations it has begun, and
  what is sent beyond that is in the box. A thread at or behind the barrier may have a GO or STOP
  it will never read.
\<close>

definition waiting_ok :: "bool \<Rightarrow> nat \<Rightarrow> nat \<Rightarrow> msg option \<Rightarrow> bool" where
  "waiting_ok st G gen b \<longleftrightarrow>
     (if st then G + 1 = gen \<and> (\<exists>m. b = Some m \<and> mtype m = STOP)
      else G + 1 = gen \<and> b = None \<or> G = gen \<and> (\<exists>m. b = Some m \<and> mtype m = GO))"

definition past_ok :: "nat \<Rightarrow> bool \<Rightarrow> nat \<Rightarrow> nat \<Rightarrow> msg option \<Rightarrow> bool" where
  "past_ok N st G gen b \<longleftrightarrow>
     gen = N + 1 \<and> (G = N \<or> G = N + 1) \<and> (G = N \<and> \<not> st \<longrightarrow> b = None)"

definition worker_ok ::
  "nat \<Rightarrow> nat \<Rightarrow> int \<Rightarrow> bool \<Rightarrow> nat \<Rightarrow> bool \<Rightarrow> nat \<Rightarrow> lworker \<Rightarrow> msg option \<Rightarrow> bool" where
  "worker_ok n N lines rs G st j w b \<longleftrightarrow>
     (case w of
        LRange \<Rightarrow> G = 0 \<and> \<not> st \<and> b = (if rs then Some (life_range_msg n lines (j - 1)) else None)
      | LGo f t gen \<Rightarrow> rs \<and> f = bound_from n lines j \<and> t = bound_to n lines j \<and>
          1 \<le> gen \<and> gen \<le> N \<and> waiting_ok st G gen b
      | LUpd f t gen ps \<Rightarrow> rs \<and> f = bound_from n lines j \<and> t = bound_to n lines j \<and>
          1 \<le> gen \<and> gen \<le> N \<and> G = gen \<and> \<not> st \<and> b = None
      | LDone f t gen \<Rightarrow> rs \<and> f = bound_from n lines j \<and> t = bound_to n lines j \<and>
          1 \<le> gen \<and> gen \<le> N \<and> G = gen \<and> \<not> st \<and> b = None
      | LBarrier gen \<Rightarrow> rs \<and> past_ok N st G gen b
      | LCount gen \<Rightarrow> rs \<and> past_ok N st G gen b
      | LUnlock gen \<Rightarrow> rs \<and> past_ok N st G gen b
      | LTest gen \<Rightarrow> rs \<and> past_ok N st G gen b
      | LPost gen k \<Rightarrow> rs \<and> past_ok N st G gen b
      | LWait gen \<Rightarrow> rs \<and> past_ok N st G gen b
      | LAllDone gen \<Rightarrow> rs \<and> past_ok N st G gen b
      | LExit gen \<Rightarrow> rs \<and> (past_ok N st G gen b \<or> 1 \<le> gen \<and> gen \<le> N \<and> G + 1 = gen \<and> st)
      | LFail \<Rightarrow> False)"

definition wok :: "nat \<Rightarrow> nat \<Rightarrow> life \<Rightarrow> nat \<Rightarrow> bool" where
  "wok n N s j \<longleftrightarrow>
     worker_ok n N (lineSize (board s)) (rangesent (parent s) j)
       (gosent n (parent s) (cGen s) (allDoneCounter s) j) (stopsent n (parent s) (allDoneCounter s) j)
       j (workers s j) (peek (mail s) j)"

definition mail_inv :: "nat \<Rightarrow> nat \<Rightarrow> life \<Rightarrow> bool" where
  "mail_inv n N s \<longleftrightarrow>
     balanced (nat MAXTHREAD_life) (mail s) \<and>
     parent_ok n N (parent s) (cGen s) (allDoneCounter s) (genDoneCounter s) \<and>
     (\<forall>j\<in>{1..n}. wok n N s j \<and> low N (parent s) (cGen s) \<le> fin (workers s j)) \<and>
     (\<forall>m. peek (mail s) 0 = Some m \<longrightarrow> mtype m = GENDONE \<or> mtype m = ALLDONE) \<and> improper s = 0"

text \<open>The threads that have passed the barrier's counter, and those it has let through.\<close>

fun counted :: "nat \<Rightarrow> lworker \<Rightarrow> bool" where
  "counted N (LUnlock gen) = True"
| "counted N (LTest gen) = True"
| "counted N (LPost gen k) = True"
| "counted N (LWait gen) = True"
| "counted N (LAllDone gen) = True"
| "counted N (LExit gen) = (gen = N + 1)"
| "counted N w = False"

fun through :: "nat \<Rightarrow> lworker \<Rightarrow> bool" where
  "through N (LPost gen k) = True"
| "through N (LAllDone gen) = True"
| "through N (LExit gen) = (gen = N + 1)"
| "through N w = False"

definition finsum :: "nat \<Rightarrow> (nat \<Rightarrow> lworker) \<Rightarrow> int" where
  "finsum n ws = (\<Sum>j\<in>{1..n}. int (fin (ws j)))"

definition tally :: "nat \<Rightarrow> (lworker \<Rightarrow> bool) \<Rightarrow> (nat \<Rightarrow> lworker) \<Rightarrow> int" where
  "tally n P ws = (\<Sum>j\<in>{1..n}. of_bool (P (ws j)))"

definition in_box0 :: "int \<Rightarrow> life \<Rightarrow> int" where
  "in_box0 ty s = (case peek (mail s) 0 of None \<Rightarrow> 0 | Some m \<Rightarrow> of_bool (mtype m = ty))"

definition count_inv :: "nat \<Rightarrow> nat \<Rightarrow> life \<Rightarrow> bool" where
  "count_inv n N s \<longleftrightarrow>
     finsum n (workers s) = int (received n N (parent s) (cGen s)) + in_box0 GENDONE s \<and>
     tally n (\<lambda>w. w = LExit (N + 1)) (workers s) = int (allDoneCounter s) + in_box0 ALLDONE s"

definition barrier_inv :: "nat \<Rightarrow> nat \<Rightarrow> life \<Rightarrow> bool" where
  "barrier_inv n N s \<longleftrightarrow>
     int (barrierCount s) = tally n (counted N) (workers s) \<and>
     (alldone_sem s \<noteq> 0 \<or> (\<exists>j\<in>{1..n}. through N (workers s j)) \<longrightarrow> barrierCount s = n)"

lemmas inv_defs = mail_inv_def count_inv_def barrier_inv_def

lemmas worker_ok_defs = wok_def worker_ok_def waiting_ok_def past_ok_def

section \<open>Counting\<close>

lemma finsum_upd:
  "j \<in> {1..n} \<Longrightarrow> finsum n (ws(j := w)) = finsum n ws - int (fin (ws j)) + int (fin w)"
  unfolding finsum_def by (rule sum_fun_upd) auto

lemma tally_upd:
  "j \<in> {1..n} \<Longrightarrow> tally n P (ws(j := w)) = tally n P ws - of_bool (P (ws j)) + of_bool (P w)"
  unfolding tally_def by (rule sum_fun_upd) auto

lemma tally_bounds: "0 \<le> tally n P ws" "tally n P ws \<le> int n"
  unfolding tally_def using sum_bounded_above [of "{1..n}" "\<lambda>j. of_bool (P (ws j))" "1::int"]
  by (auto intro: sum_nonneg)

lemma tally_all: "tally n P ws = int n \<Longrightarrow> j \<in> {1..n} \<Longrightarrow> P (ws j)"
proof (rule ccontr)
  assume t: "tally n P ws = int n" and j: "j \<in> {1..n}" and "\<not> P (ws j)"
  have "tally n P ws = of_bool (P (ws j)) + (\<Sum>k\<in>{1..n} - {j}. of_bool (P (ws k)))"
    unfolding tally_def using j by (intro sum.remove) auto
  also have "\<dots> \<le> 0 + int (card ({1..n} - {j}))"
    using \<open>\<not> P (ws j)\<close> sum_bounded_above [of "{1..n} - {j}" "\<lambda>k. of_bool (P (ws k))" "1::int"]
    by simp
  finally show False using t j by auto
qed

lemma tally_pos: "0 < tally n P ws \<Longrightarrow> \<exists>j\<in>{1..n}. P (ws j)"
proof (rule ccontr)
  assume pos: "0 < tally n P ws" and "\<not> (\<exists>j\<in>{1..n}. P (ws j))"
  then have "tally n P ws = 0" unfolding tally_def by (intro sum.neutral) auto
  with pos show False by simp
qed

lemma tally_less: "tally n P ws < int n \<Longrightarrow> \<exists>j\<in>{1..n}. \<not> P (ws j)"
proof (rule ccontr)
  assume less: "tally n P ws < int n" and "\<not> (\<exists>j\<in>{1..n}. \<not> P (ws j))"
  then have "tally n P ws = (\<Sum>j\<in>{1..n}. 1)" unfolding tally_def by (intro sum.cong) auto
  with less show False by simp
qed

lemma finsum_all:
  assumes "finsum n ws = int n * int k" "\<And>j. j \<in> {1..n} \<Longrightarrow> fin (ws j) \<le> k" "j \<in> {1..n}"
  shows "fin (ws j) = k"
proof -
  have "finsum n ws = int (fin (ws j)) + (\<Sum>i\<in>{1..n} - {j}. int (fin (ws i)))"
    unfolding finsum_def using assms(3) by (intro sum.remove) auto
  also have "\<dots> \<le> int (fin (ws j)) + int (card ({1..n} - {j})) * int k"
    using sum_bounded_above [of "{1..n} - {j}" "\<lambda>i. int (fin (ws i))" "int k"] assms(2) by auto
  also have "card ({1..n} - {j}) = n - 1" using assms(3) by simp
  finally have "int n * int k \<le> int (fin (ws j)) + (int n - 1) * int k"
    using assms(1,3) by (simp add: of_nat_diff)
  then have "int k \<le> int (fin (ws j))" by (simp add: algebra_simps)
  with assms(2,3) show ?thesis by (simp add: le_antisym)
qed

lemma finsum_const: "(\<And>j. j \<in> {1..n} \<Longrightarrow> fin (ws j) = k) \<Longrightarrow> finsum n ws = int n * int k"
  by (simp add: finsum_def)

lemma finsum_less:
  assumes "finsum n ws < int n * int k"
  shows "\<exists>j\<in>{1..n}. fin (ws j) < k"
proof (rule ccontr)
  assume "\<not> (\<exists>j\<in>{1..n}. fin (ws j) < k)"
  then have "int (card {1..n}) * int k \<le> (\<Sum>j\<in>{1..n}. int (fin (ws j)))"
    by (intro sum_bounded_below) (simp add: not_less)
  then have "int n * int k \<le> finsum n ws" by (simp add: finsum_def)
  with assms show False by simp
qed

section \<open>Consequences of the invariant\<close>

lemma mail_invD:
  assumes "mail_inv n N s"
  shows "balanced (nat MAXTHREAD_life) (mail s)"
    and "parent_ok n N (parent s) (cGen s) (allDoneCounter s) (genDoneCounter s)"
    and "j \<in> {1..n} \<Longrightarrow> wok n N s j" "j \<in> {1..n} \<Longrightarrow> low N (parent s) (cGen s) \<le> fin (workers s j)"
    and "peek (mail s) 0 = Some m \<Longrightarrow> mtype m = GENDONE \<or> mtype m = ALLDONE" "improper s = 0"
  using assms unfolding mail_inv_def by blast+

lemma barrier_invD:
  assumes "barrier_inv n N s"
  shows "int (barrierCount s) = tally n (counted N) (workers s)"
    and "alldone_sem s \<noteq> 0 \<Longrightarrow> barrierCount s = n"
    and "j \<in> {1..n} \<Longrightarrow> through N (workers s j) \<Longrightarrow> barrierCount s = n"
  using assms unfolding barrier_inv_def by blast+

lemma fin_le:
  assumes "wok n N s j"
  shows "fin (workers s j) \<le> N" "fin (workers s j) \<le> gosent n (parent s) (cGen s) (allDoneCounter s) j"
  using assms by (auto simp: worker_ok_defs split: lworker.splits if_splits)

lemma counted_fin: "wok n N s j \<Longrightarrow> counted N (workers s j) \<Longrightarrow> fin (workers s j) = N"
  by (auto simp: worker_ok_defs split: lworker.splits)

text \<open>Once the barrier has opened, every thread has finished all generations.\<close>

lemma opened_all_fin:
  assumes "mail_inv n N s" "barrier_inv n N s" "barrierCount s = n" "j \<in> {1..n}"
  shows "fin (workers s j) = N"
proof -
  have "tally n (counted N) (workers s) = int n" using barrier_invD(1) [OF assms(2)] assms(3) by simp
  then have "counted N (workers s j)" using assms(4) by (rule tally_all)
  then show ?thesis using mail_invD(3) [OF assms(1,4)] counted_fin by blast
qed

lemma alldone_all_fin:
  assumes "mail_inv n N s" "barrier_inv n N s" "count_inv n N s" "peek (mail s) 0 = Some m"
    "mtype m = ALLDONE" "j \<in> {1..n}"
  shows "fin (workers s j) = N"
proof -
  have "0 < tally n (\<lambda>w. w = LExit (N + 1)) (workers s)"
    using assms(3-5) by (simp add: count_inv_def in_box0_def)
  then obtain k where "k \<in> {1..n}" "workers s k = LExit (N + 1)" using tally_pos by blast
  then have "barrierCount s = n" using barrier_invD(3) [OF assms(2), of k] by simp
  then show ?thesis using opened_all_fin assms(1,2,6) by blast
qed

text \<open>The message in mailbox 0 is a GENDONE in the first \<open>N\<close> rounds and an ALLDONE in the last.\<close>

lemma message_type:
  assumes inv: "mail_inv n N s" "barrier_inv n N s" "count_inv n N s"
    and p: "parent s = PRecv i" and m: "peek (mail s) 0 = Some m" and n: "0 < n"
  shows "cGen s < N \<longleftrightarrow> mtype m = GENDONE" "cGen s = N \<longleftrightarrow> mtype m = ALLDONE"
proof -
  have ok: "parent_ok n N (parent s) (cGen s) (allDoneCounter s) (genDoneCounter s)"
    and ty: "mtype m = GENDONE \<or> mtype m = ALLDONE"
    using inv(1) m by (auto simp: mail_inv_def)
  have g: "cGen s \<le> N" "1 \<le> i" "i \<le> n" using ok p by auto
  have total: "finsum n (workers s) = int (n * cGen s + (if cGen s < N then i - 1 else 0))
      + in_box0 GENDONE s"
    using inv(3) p by (simp add: count_inv_def)
  have upper: "fin (workers s j) \<le> N" if "j \<in> {1..n}" for j
    using mail_invD(3) [OF inv(1) that] fin_le(1) by blast
  have "mtype m = GENDONE \<Longrightarrow> cGen s < N"
  proof (rule ccontr)
    assume "mtype m = GENDONE" "\<not> cGen s < N"
    then have "finsum n (workers s) = int n * int N + 1"
      using total m g by (simp add: in_box0_def)
    moreover have "finsum n (workers s) \<le> int n * int N"
      unfolding finsum_def using upper
        sum_bounded_above [of "{1..n}" "\<lambda>j. int (fin (workers s j))" "int N"] by auto
    ultimately show False by simp
  qed
  moreover have "mtype m = ALLDONE \<Longrightarrow> \<not> cGen s < N"
  proof
    assume a: "mtype m = ALLDONE" "cGen s < N"
    then have "finsum n (workers s) = int n * int N"
      using finsum_const [of n "workers s" N] alldone_all_fin [OF inv m] by simp
    moreover have "in_box0 GENDONE s = 0"
      using a m by (simp add: in_box0_def GENDONE_def ALLDONE_def)
    ultimately have "n * N = n * cGen s + (i - 1)" using total a(2)
      by (simp flip: of_nat_mult of_nat_add)
    moreover have "n * (cGen s + 1) \<le> n * N" using a(2) by (intro mult_le_mono2) simp
    ultimately show False using g n by simp
  qed
  ultimately show "cGen s < N \<longleftrightarrow> mtype m = GENDONE" "cGen s = N \<longleftrightarrow> mtype m = ALLDONE"
    using ty g by (auto simp: GENDONE_def ALLDONE_def)
qed

section \<open>The invariant is kept: messages\<close>

lemma wok_initial: "wok n N (life_init b) j \<longleftrightarrow> \<not> j \<le> 0"
  by (auto simp: wok_def worker_ok_def life_init_def init_mailboxes_def peek_def)

lemma life_inv_init:
  assumes "0 < n"
  shows "mail_inv n N (life_init b)" "count_inv n N (life_init b)" "barrier_inv n N (life_init b)"
proof -
  have "balanced (nat MAXTHREAD_life) (mail (life_init b))"
    by (simp add: life_init_def init_mailboxes_def balanced_def)
  moreover have "peek (mail (life_init b)) 0 = None"
    by (simp add: life_init_def init_mailboxes_def peek_def)
  ultimately show "mail_inv n N (life_init b)"
    using assms by (auto simp: mail_inv_def wok_initial) (auto simp: life_init_def)
  have "peek (mail (life_init b)) 0 = None"
    by (simp add: life_init_def init_mailboxes_def peek_def)
  then show "count_inv n N (life_init b)"
    by (simp add: count_inv_def in_box0_def) (simp add: life_init_def finsum_def tally_def)
  show "barrier_inv n N (life_init b)"
    by (simp add: barrier_inv_def life_init_def tally_def)
qed

text \<open>The threads of the program, and the sizes it runs with.\<close>

lemma gens_upto_iff [simp]: "gens_upto N gen \<longleftrightarrow> gen \<le> N"
  by (simp add: gens_upto_def)

definition threads_ok :: "nat \<Rightarrow> nat \<Rightarrow> bool" where
  "threads_ok n N \<longleftrightarrow> 0 < n \<and> n \<le> nat MAXTHREAD_life \<and> 0 < N"

text \<open>A change of the state that leaves \<open>main\<close>, the sizes and the boxes of the threads alone, but
  for thread \<open>j\<close>.\<close>

lemma wok_frame:
  assumes "wok n N s k" "k \<noteq> j" "peek (mail t) k = peek (mail s) k" "workers t = (workers s)(j := w)"
    "parent t = parent s" "cGen t = cGen s" "allDoneCounter t = allDoneCounter s"
    "lineSize (board t) = lineSize (board s)"
  shows "wok n N t k"
  using assms by (simp add: wok_def)

lemma mail_inv_worker:
  assumes inv: "mail_inv n N s" and j: "j \<in> {1..n}"
    and bal: "balanced (nat MAXTHREAD_life) (mail t)"
    and boxes: "\<And>k. k \<in> {1..n} \<Longrightarrow> k \<noteq> j \<Longrightarrow> peek (mail t) k = peek (mail s) k"
    and w: "workers t = (workers s)(j := w)" "wok n N t j" "fin (workers s j) \<le> fin w"
    and same: "parent t = parent s" "cGen t = cGen s" "allDoneCounter t = allDoneCounter s"
      "genDoneCounter t = genDoneCounter s" "lineSize (board t) = lineSize (board s)" "improper t = improper s"
    and box0: "\<And>m. peek (mail t) 0 = Some m \<Longrightarrow> peek (mail s) 0 = Some m \<or> mtype m = GENDONE \<or> mtype m = ALLDONE"
  shows "mail_inv n N t"
proof -
  have "wok n N t k" if k: "k \<in> {1..n}" for k
  proof (cases "k = j")
    case False
    show ?thesis
      using wok_frame [OF mail_invD(3) [OF inv k] False boxes [OF k False] w(1)] same by blast
  qed (simp add: w(2))
  moreover have "low N (parent t) (cGen t) \<le> fin (workers t k)" if k: "k \<in> {1..n}" for k
    using mail_invD(4) [OF inv k] w(1,3) same by (cases "k = j") auto
  moreover have "mtype m = GENDONE \<or> mtype m = ALLDONE" if "peek (mail t) 0 = Some m" for m
    using box0 [OF that] mail_invD(5) [OF inv] by blast
  ultimately show ?thesis
    unfolding mail_inv_def using bal mail_invD(2,6) [OF inv] same by metis
qed

lemma type_distinct [simp]:
  "RANGE \<noteq> GO" "RANGE \<noteq> STOP" "GO \<noteq> STOP" "STOP \<noteq> GO" "GENDONE \<noteq> ALLDONE" "ALLDONE \<noteq> GENDONE"
  by (simp_all add: RANGE_def GO_def STOP_def GENDONE_def ALLDONE_def)

lemma mtype_range [simp]: "mtype (life_range_msg n lines i) = RANGE"
  by (simp add: life_range_msg_def Let_def)

lemma parent_checked:
  assumes ok: "threads_ok n N" and inv: "mail_inv n N s" "count_inv n N s" "barrier_inv n N s"
    and p: "parent s = PRecv n" "peek (mail s) 0 = Some message" "cGen s < N" and j: "j \<in> {1..n}"
  shows "fin (workers s j) = cGen s + 1"
proof -
  have m: "mtype message = GENDONE"
    using message_type(1) [OF inv(1) inv(3) inv(2) p(1,2)] p(3) ok by (simp add: threads_ok_def)
  have "finsum n (workers s) = int n * int (cGen s + 1)"
    using inv(2) p m ok by (simp add: count_inv_def in_box0_def threads_ok_def algebra_simps of_nat_diff)
  moreover have "fin (workers s k) \<le> cGen s + 1" if "k \<in> {1..n}" for k
    using fin_le(2) [OF mail_invD(3) [OF inv(1) that]] p(1) by simp
  ultimately show ?thesis using j by (rule finsum_all)
qed

text \<open>Receiving from and sending to a mailbox, for the threads and for \<open>main\<close>.\<close>

lemma thread_gets:
  assumes "recvMsg j (mail s) = Some (message, m)" "mail_inv n N s" "threads_ok n N" "j \<in> {1..n}"
  shows "peek (mail s) j = Some message" "balanced (nat MAXTHREAD_life) m" "peek m = (peek (mail s))(j := None)"
  using mb.get_SomeD [OF assms(1) mail_invD(1) [OF assms(2)]] assms(3,4) by (auto simp: threads_ok_def)

lemma thread_puts:
  assumes "sendMsg 0 message (mail s) = Some m" "mail_inv n N s"
  shows "peek (mail s) 0 = None" "balanced (nat MAXTHREAD_life) m" "peek m = (peek (mail s))(0 \<mapsto> message)"
  using mb.put_SomeD [OF assms(1) mail_invD(1) [OF assms(2)]] by auto

lemma main_puts:
  assumes "sendMsg j message (mail s) = Some m" "mail_inv n N s" "threads_ok n N" "j \<le> n"
  shows "peek (mail s) j = None" "balanced (nat MAXTHREAD_life) m" "peek m = (peek (mail s))(j \<mapsto> message)"
  using mb.put_SomeD [OF assms(1) mail_invD(1) [OF assms(2)]] assms(3,4) by (auto simp: threads_ok_def)

lemma main_gets:
  assumes "recvMsg 0 (mail s) = Some (message, m)" "mail_inv n N s"
  shows "peek (mail s) 0 = Some message" "balanced (nat MAXTHREAD_life) m" "peek m = (peek (mail s))(0 := None)"
  using mb.get_SomeD [OF assms(1) mail_invD(1) [OF assms(2)]] by auto

lemma mail_inv_worker_step:
  assumes ok: "threads_ok n N" and inv: "mail_inv n N s" and step: "life_step n (gens_upto N) isPr s t"
    and p: "parent t = parent s" "cGen t = cGen s"
  shows "mail_inv n N t"
  using step
proof (cases rule: life_step.cases)
  case (worker_range j message m)
  then have j: "j \<in> {1..n}" by simp
  note g = thread_gets [OF worker_range(5) inv ok j]
  show ?thesis
    using g mail_invD(3) [OF inv j] ok worker_range
    by (intro mail_inv_worker [OF inv j])
      (auto simp: worker_ok_defs next_gen_def bound_from_def bound_to_def threads_ok_def
        split: if_splits)
next
  case (worker_go j f t' gen message m)
  then have j: "j \<in> {1..n}" by simp
  note g = thread_gets [OF worker_go(5) inv ok j]
  show ?thesis
    using g mail_invD(3) [OF inv j] worker_go
    by (intro mail_inv_worker [OF inv j]) (auto simp: worker_ok_defs split: if_splits)
next
  case (worker_update j f t' gen q qs)
  then have j: "j \<in> {1..n}" by simp
  show ?thesis
    using mail_invD(1) [OF inv] mail_invD(3) [OF inv j] j worker_update
    by (intro mail_inv_worker [OF inv j]) (auto simp: worker_ok_defs)
next
  case (worker_updated j f t' gen)
  then have j: "j \<in> {1..n}" by simp
  show ?thesis
    using mail_invD(1) [OF inv] mail_invD(3) [OF inv j] j worker_updated
    by (intro mail_inv_worker [OF inv j]) (auto simp: worker_ok_defs)
next
  case (worker_gendone j f t' gen message m)
  then have j: "j \<in> {1..n}" by simp
  note g = thread_puts [OF worker_gendone(6) inv]
  show ?thesis
    using g mail_invD(3) [OF inv j] j worker_gendone
    by (intro mail_inv_worker [OF inv j]) (auto simp: worker_ok_defs next_gen_def)
next
  case (worker_lock j gen)
  then have j: "j \<in> {1..n}" by simp
  show ?thesis
    using mail_invD(1) [OF inv] mail_invD(3) [OF inv j] j worker_lock
    by (intro mail_inv_worker [OF inv j]) (auto simp: worker_ok_defs)
next
  case (worker_count j gen)
  then have j: "j \<in> {1..n}" by simp
  show ?thesis
    using mail_invD(1) [OF inv] mail_invD(3) [OF inv j] j worker_count
    by (intro mail_inv_worker [OF inv j]) (auto simp: worker_ok_defs)
next
  case (worker_unlock j gen)
  then have j: "j \<in> {1..n}" by simp
  show ?thesis
    using mail_invD(1) [OF inv] mail_invD(3) [OF inv j] j worker_unlock
    by (intro mail_inv_worker [OF inv j]) (auto simp: worker_ok_defs)
next
  case (worker_test j gen)
  then have j: "j \<in> {1..n}" by simp
  show ?thesis
    using mail_invD(1) [OF inv] mail_invD(3) [OF inv j] j worker_test
    by (intro mail_inv_worker [OF inv j]) (auto simp: worker_ok_defs split: if_splits)
next
  case (worker_post j gen k)
  then have j: "j \<in> {1..n}" by simp
  show ?thesis
    using mail_invD(1) [OF inv] mail_invD(3) [OF inv j] j worker_post
    by (intro mail_inv_worker [OF inv j]) (auto simp: worker_ok_defs)
next
  case (worker_posted j gen)
  then have j: "j \<in> {1..n}" by simp
  show ?thesis
    using mail_invD(1) [OF inv] mail_invD(3) [OF inv j] j worker_posted
    by (intro mail_inv_worker [OF inv j]) (auto simp: worker_ok_defs)
next
  case (worker_wait j gen)
  then have j: "j \<in> {1..n}" by simp
  show ?thesis
    using mail_invD(1) [OF inv] mail_invD(3) [OF inv j] j worker_wait
    by (intro mail_inv_worker [OF inv j]) (auto simp: worker_ok_defs)
next
  case (worker_alldone j gen message m)
  then have j: "j \<in> {1..n}" by simp
  note g = thread_puts [OF worker_alldone(6) inv]
  show ?thesis
    using g mail_invD(3) [OF inv j] j worker_alldone
    by (intro mail_inv_worker [OF inv j]) (auto simp: worker_ok_defs)
qed (use p in \<open>auto split: if_splits\<close>)

text \<open>A step of \<open>main\<close> leaves the threads alone.\<close>

lemma mail_inv_main:
  assumes bal: "balanced (nat MAXTHREAD_life) (mail t)"
    and "parent_ok n N (parent t) (cGen t) (allDoneCounter t) (genDoneCounter t)" "improper t = 0"
    and "\<And>j. j \<in> {1..n} \<Longrightarrow> wok n N t j"
    and "\<And>j. j \<in> {1..n} \<Longrightarrow> low N (parent t) (cGen t) \<le> fin (workers t j)"
    and "\<And>m. peek (mail t) 0 = Some m \<Longrightarrow> mtype m = GENDONE \<or> mtype m = ALLDONE"
  shows "mail_inv n N t"
  using assms unfolding mail_inv_def by blast

text \<open>Only the boxes, the sizes, the threads and the values of \<open>rangesent\<close>, \<open>gosent\<close> and
  \<open>stopsent\<close> matter to \<open>wok\<close>.\<close>

lemma wok_main:
  assumes "wok n N s j" "workers t = workers s" "peek (mail t) j = peek (mail s) j"
    "lineSize (board t) = lineSize (board s)"
    "rangesent (parent t) j = rangesent (parent s) j"
    "gosent n (parent t) (cGen t) (allDoneCounter t) j = gosent n (parent s) (cGen s) (allDoneCounter s) j"
    "stopsent n (parent t) (allDoneCounter t) j = stopsent n (parent s) (allDoneCounter s) j"
  shows "wok n N t j"
  using assms by (simp add: wok_def)

lemma lineSize_updateMatrix: "lineSize (updateMatrix b) = lineSize b"
  by simp

lemma mail_inv_main_step:
  assumes ok: "threads_ok n N" and inv: "mail_inv n N s" "count_inv n N s" "barrier_inv n N s"
    and step: "life_step n (gens_upto N) isPr s t" and ws: "workers t = workers s"
    and p: "\<not> (parent t = parent s \<and> cGen t = cGen s)"
  shows "mail_inv n N t"
proof -
  note D = mail_invD [OF inv(1)]
  have start: "cGen s = 0" if "parent s = PRange i" for i using D(2) that by simp
  have n: "0 < n" "0 < N" using ok by (auto simp: threads_ok_def)
  from step show ?thesis
  proof (cases rule: life_step.cases)
    case (parent_range i m)
    then have i: "i < n" using D(2) by simp
    note g = main_puts [OF parent_range(3) inv(1) ok] 
    have "wok n N t j" if j: "j \<in> {1..n}" for j
    proof (cases "j = Suc i")
      case True
      then show ?thesis using D(3) [OF j] g(1,3) parent_range i start
        by (auto simp: worker_ok_defs split: lworker.splits)
    next
      case False
      then have "j \<le> i \<longleftrightarrow> j \<le> Suc i" by auto
      then show ?thesis
        using g(3) parent_range i False j start by (intro wok_main [OF D(3) [OF j]]) auto
    qed
    then show ?thesis using g D parent_range i by (intro mail_inv_main) auto
  next
    case parent_show
    then show ?thesis using D n by (intro mail_inv_main) (auto intro!: wok_main [OF D(3)])
  next
    case (parent_go i message m)
    then have i: "1 \<le> i" "i \<le> n" "cGen s \<le> N" "allDoneCounter s = 0" using D(2) by auto
    note g = main_puts [OF parent_go(4) inv(1) ok i(2)]
    have "wok n N t j" if j: "j \<in> {1..n}" for j
    proof (cases "j = i")
      case True
      then show ?thesis using D(3,4) [OF j] g(1,3) parent_go i
        by (auto simp: worker_ok_defs split: lworker.splits)
    next
      case False
      then have "j < i \<longleftrightarrow> j < Suc i" by auto
      then show ?thesis
        using g(3) parent_go i False j by (intro wok_main [OF D(3) [OF j]]) auto
    qed
    then show ?thesis using g D parent_go i n by (intro mail_inv_main) (auto split: if_splits)
  next
    case (parent_recv i message m)
    then have i: "1 \<le> i" "i \<le> n" "cGen s \<le> N" using D(2) by auto
    note g = main_gets [OF parent_recv(3) inv(1)]
    note ty = message_type [OF inv(1,3,2) parent_recv(2) g(1) n(1)]
    have "wok n N t j" if j: "j \<in> {1..n}" for j
      using g(3) parent_recv i j by (intro wok_main [OF D(3) [OF j]]) auto
    moreover have "low N (parent t) (cGen t) \<le> fin (workers t j)" if j: "j \<in> {1..n}" for j
    proof (cases "i = n \<and> cGen s < N")
      case True
      then show ?thesis
        using parent_checked [OF ok inv, of message j] parent_recv g(1) j by auto
    next
      case False
      then show ?thesis using D(4) [OF j] parent_recv i by auto
    qed
    ultimately show ?thesis
      using g D(1,2,6) parent_recv i ty D(5) [OF g(1)] by (intro mail_inv_main) auto
  next
    case parent_check_done
    have "wok n N t j" if j: "j \<in> {1..n}" for j
      using parent_check_done by (intro wok_main [OF D(3) [OF j]]) auto
    then show ?thesis using D n parent_check_done
      by (intro mail_inv_main) (auto split: if_splits)
  next
    case parent_check_stop
    have "wok n N t j" if j: "j \<in> {1..n}" for j
      using parent_check_stop j by (intro wok_main [OF D(3) [OF j]]) auto
    then show ?thesis using D n parent_check_stop
      by (intro mail_inv_main) (auto split: if_splits)
  next
    case parent_check_go
    have "wok n N t j" if j: "j \<in> {1..n}" for j
      using parent_check_go j by (intro wok_main [OF D(3) [OF j]]) auto
    then show ?thesis using D n parent_check_go
      by (intro mail_inv_main) (auto split: if_splits)
  next
    case (parent_stop i message m)
    then have i: "1 \<le> i" "i \<le> n" "cGen s \<le> N" "allDoneCounter s = 0" using D(2) by auto
    note g = main_puts [OF parent_stop(4) inv(1) ok i(2)]
    have "wok n N t j" if j: "j \<in> {1..n}" for j
    proof (cases "j = i")
      case True
      then show ?thesis using D(3,4) [OF j] g(1,3) parent_stop i n
        by (auto simp: worker_ok_defs split: lworker.splits)
    next
      case False
      then have "j < i \<longleftrightarrow> j < Suc i" by auto
      then show ?thesis
        using g(3) parent_stop i False j n by (intro wok_main [OF D(3) [OF j]]) auto
    qed
    then show ?thesis using g D parent_stop i n by (intro mail_inv_main) (auto split: if_splits)
  next
    case parent_update
    then show ?thesis using D n by (intro mail_inv_main) (auto intro!: wok_main [OF D(3)])
  next
    case parent_end
    have "wok n N t j" if j: "j \<in> {1..n}" for j
      using parent_end j by (intro wok_main [OF D(3) [OF j]]) auto
    then show ?thesis using D n parent_end
      by (intro mail_inv_main) (auto split: if_splits)
  next
    case (parent_join i gen)
    have "wok n N t j" if j: "j \<in> {1..n}" for j
      using parent_join j by (intro wok_main [OF D(3) [OF j]]) auto
    then show ?thesis using D n parent_join
      by (intro mail_inv_main) (auto split: if_splits)
  qed (use p in auto)
qed

lemma step_kinds:
  assumes "life_step n (gens_upto N) isPr s t"
  shows "workers t = workers s \<and> \<not> (parent t = parent s \<and> cGen t = cGen s)
    \<or> parent t = parent s \<and> cGen t = cGen s"
  using assms by (cases rule: life_step.cases) auto

lemma mail_inv_step:
  assumes "threads_ok n N" "mail_inv n N s" "count_inv n N s" "barrier_inv n N s"
    "life_step n (gens_upto N) isPr s t"
  shows "mail_inv n N t"
  using step_kinds [OF assms(5)] mail_inv_main_step [OF assms]
    mail_inv_worker_step [OF assms(1,2,5)] by blast

section \<open>The invariant is kept: counters and barrier\<close>

lemma barrier_inv_worker:
  assumes inv: "barrier_inv n N s" and j: "j \<in> {1..n}"
    and w: "workers t = (workers s)(j := w)" "counted N (workers s j) \<Longrightarrow> counted N w"
    and bc: "barrierCount t = barrierCount s + of_bool (counted N w \<and> \<not> counted N (workers s j))"
    and al: "alldone_sem t \<noteq> 0 \<Longrightarrow> alldone_sem s \<noteq> 0 \<or> through N (workers s j)"
    and th: "through N w \<Longrightarrow> through N (workers s j) \<or> alldone_sem s \<noteq> 0 \<or> barrierCount s = n"
  shows "barrier_inv n N t"
proof -
  have c: "int (barrierCount t) = tally n (counted N) (workers t)"
    using barrier_invD(1) [OF inv] bc w tally_upd [OF j, of "counted N" "workers s" w] by auto
  have full: "barrierCount t = n" if "barrierCount s = n"
    using c tally_bounds(2) [of n "counted N" "workers t"] bc that by linarith
  have "barrierCount s = n" if "k \<in> {1..n}" "through N (workers t k)" for k
    using that w(1) th barrier_invD(2) [OF inv] barrier_invD(3) [OF inv j]
      barrier_invD(3) [OF inv that(1)] by (cases "k = j") auto
  moreover have "barrierCount s = n" if "alldone_sem t \<noteq> 0"
    using al [OF that] barrier_invD(2) [OF inv] barrier_invD(3) [OF inv j] by blast
  ultimately show ?thesis unfolding barrier_inv_def using c full by blast
qed

lemma barrier_inv_step:
  assumes inv: "barrier_inv n N s" "mail_inv n N s" and step: "life_step n (gens_upto N) isPr s t"
  shows "barrier_inv n N t"
proof (cases "parent t = parent s \<and> cGen t = cGen s")
  case False
  then have "barrierCount t = barrierCount s \<and> alldone_sem t = alldone_sem s \<and> workers t = workers s"
    using step by (elim life_step.cases) auto
  with inv(1) show ?thesis by (simp add: barrier_inv_def)
next
  case True
  have facts: "workers s j = LGo f t' gen \<Longrightarrow> gen \<noteq> N + 1" "workers s j = LAllDone gen \<Longrightarrow> gen = N + 1"
    "workers s j = LPost gen k \<Longrightarrow> barrierCount s = n" if "j \<in> {1..n}" for j f t' gen k
    using barrier_invD(3) [OF inv(1) that] mail_invD(3) [OF inv(2) that]
    by (auto simp: worker_ok_defs)
  from step show ?thesis
  proof (cases rule: life_step.cases)
    case (worker_test j gen)
    then show ?thesis by (intro barrier_inv_worker [OF inv(1), of j]) auto
  next
    case (worker_go j f t' gen message m)
    then show ?thesis using facts(1) [of j f t' gen]
      by (intro barrier_inv_worker [OF inv(1), of j]) (auto split: if_splits)
  next
    case (worker_alldone j gen message m)
    then show ?thesis using facts(2) [of j gen]
      by (intro barrier_inv_worker [OF inv(1), of j]) auto
  next
    case (worker_post j gen k)
    then show ?thesis using facts(3) [of j gen "Suc k"]
      by (intro barrier_inv_worker [OF inv(1), of j]) auto
  qed (use True in \<open>auto intro!: barrier_inv_worker [OF inv(1)] simp: next_gen_def split: if_splits\<close>)
qed

lemma count_inv_step:
  assumes ok: "threads_ok n N" and inv: "mail_inv n N s" "count_inv n N s" "barrier_inv n N s"
    and step: "life_step n (gens_upto N) isPr s t"
  shows "count_inv n N t"
  using step
proof (cases rule: life_step.cases)
  case (parent_recv i message m)
  note g = main_gets [OF parent_recv(3) inv(1)]
  have n: "0 < n" using ok by (simp add: threads_ok_def)
  have i: "1 \<le> i" "i \<le> n" "cGen s \<le> N" using mail_invD(2) [OF inv(1)] parent_recv by auto
  show ?thesis
    using inv(2) message_type [OF inv(1,3,2) parent_recv(2) g(1) n] g parent_recv i
    by (auto simp: count_inv_def in_box0_def of_nat_diff algebra_simps)
next
  case (worker_gendone j f t' gen message m)
  then have j: "j \<in> {1..n}" by simp
  note g = thread_puts [OF worker_gendone(6) inv(1)]
  show ?thesis
    using inv(2) g worker_gendone mail_invD(3) [OF inv(1) j]
    by (auto simp: count_inv_def in_box0_def finsum_upd [OF j] tally_upd [OF j] next_gen_def
        worker_ok_defs of_nat_diff)
next
  case (worker_alldone j gen message m)
  then have j: "j \<in> {1..n}" by simp
  note g = thread_puts [OF worker_alldone(6) inv(1)]
  show ?thesis
    using inv(2) g worker_alldone mail_invD(3) [OF inv(1) j]
    by (auto simp: count_inv_def in_box0_def finsum_upd [OF j] tally_upd [OF j] worker_ok_defs)
next
  case (parent_range i m)
  note g = main_puts [OF parent_range(3) inv(1) ok]
  show ?thesis
    using inv(2) g(3) parent_range mail_invD(2) [OF inv(1)] by (auto simp: count_inv_def in_box0_def)
next
  case (parent_go i message m)
  note g = main_puts [OF parent_go(4) inv(1) ok]
  show ?thesis
    using inv(2) g(3) parent_go mail_invD(2) [OF inv(1)] by (auto simp: count_inv_def in_box0_def)
next
  case (parent_stop i message m)
  note g = main_puts [OF parent_stop(4) inv(1) ok]
  show ?thesis
    using inv(2) g(3) parent_stop mail_invD(2) [OF inv(1)] by (auto simp: count_inv_def in_box0_def)
next
  case (worker_range j message m)
  then have j: "j \<in> {1..n}" by simp
  note g = thread_gets [OF worker_range(5) inv(1) ok j]
  show ?thesis
    using inv(2) g(3) worker_range ok
    by (auto simp: count_inv_def in_box0_def finsum_upd [OF j] tally_upd [OF j] next_gen_def
        threads_ok_def)
next
  case (worker_go j f t' gen message m)
  then have j: "j \<in> {1..n}" by simp
  note g = thread_gets [OF worker_go(5) inv(1) ok j]
  show ?thesis
    using inv(2) g worker_go mail_invD(3) [OF inv(1) j]
    by (auto simp: count_inv_def in_box0_def finsum_upd [OF j] tally_upd [OF j] worker_ok_defs
        split: if_splits)
qed (use inv(2) mail_invD(2) [OF inv(1)] in
  \<open>auto simp: count_inv_def in_box0_def finsum_upd tally_upd algebra_simps split: if_splits\<close>)

section \<open>The sequence of boards\<close>

definition turn :: "board \<Rightarrow> board" where
  "turn b = updateMatrix (update_all b)"

definition bseq :: "board \<Rightarrow> nat \<Rightarrow> board" where
  "bseq b c = (turn ^^ c) b"

text \<open>The game is over with generation \<open>c + 1\<close>: it is empty or the same as generation \<open>c\<close>.\<close>

definition over :: "board \<Rightarrow> nat \<Rightarrow> bool" where
  "over b c \<longleftrightarrow> (let t = update_all (bseq b c) in isAllZero t \<or> hasNotChanged t)"

definition frame :: "board \<Rightarrow> nat \<Rightarrow> int \<times> int list list" where
  "frame b c = (wrap32 (int c), picture b (before (bseq b c)))"

lemma update_all_fields [simp]:
  "before (update_all b) = before b" "lineSize (update_all b) = lineSize b"
  "columnSize (update_all b) = columnSize b"
  by (simp_all add: update_all_def)

lemma turn_sizes [simp]: "lineSize (turn b) = lineSize b" "columnSize (turn b) = columnSize b"
  by (simp_all add: turn_def)

lemma bseq_sizes [simp]: "lineSize (bseq b c) = lineSize b" "columnSize (bseq b c) = columnSize b"
  by (induction c) (simp_all add: bseq_def)

lemma bseq_0 [simp]: "bseq b 0 = b"
  by (simp add: bseq_def)

lemma bseq_Suc: "bseq b (Suc c) = turn (bseq b c)"
  by (simp add: bseq_def)

lemma picture_sizes: "lineSize b = lineSize b' \<Longrightarrow> columnSize b = columnSize b' \<Longrightarrow> picture b M = picture b' M"
  by (simp add: picture_def)

lemma picture_bseq [simp]: "picture (bseq b c) M = picture b M" "picture (update_all b) M = picture b M"
  by (rule picture_sizes; simp)+

text \<open>The sequential game in closed form.\<close>

lemma sequential_life_full:
  assumes "\<And>i. c \<le> i \<Longrightarrow> i < c + m \<Longrightarrow> \<not> over b i"
  shows "sequential_life m c (bseq b c) =
    (map (frame b) [c..<c + m + 1], wrap32 (int (c + m)), picture b (after (bseq b (c + m))))"
  using assms
proof (induction m arbitrary: c)
  case 0
  then show ?case by (simp add: frame_def)
next
  case (Suc m)
  then have "\<not> over b c" by simp
  moreover have "sequential_life m (c + 1) (bseq b (c + 1)) =
      (map (frame b) [c + 1..<c + 1 + m + 1], wrap32 (int (c + 1 + m)),
        picture b (after (bseq b (c + 1 + m))))"
    using Suc.prems by (intro Suc.IH) auto
  ultimately show ?case
    by (simp add: over_def Let_def bseq_Suc turn_def frame_def upt_rec [of c] del: upt_Suc)
qed

lemma sequential_life_over:
  assumes "over b k" "c \<le> k" "k < c + m" "\<And>i. c \<le> i \<Longrightarrow> i < k \<Longrightarrow> \<not> over b i"
  shows "sequential_life m c (bseq b c) =
    (map (frame b) [c..<k + 1], wrap32 (int (k + 1)), picture b (after (update_all (bseq b k))))"
  using assms
proof (induction m arbitrary: c)
  case 0
  then show ?case by simp
next
  case (Suc m)
  show ?case
  proof (cases "c = k")
    case True
    then show ?thesis using Suc.prems(1) by (simp add: over_def Let_def frame_def)
  next
    case False
    then have "\<not> over b c" using Suc.prems by simp
    moreover have "sequential_life m (c + 1) (bseq b (c + 1)) =
        (map (frame b) [c + 1..<k + 1], wrap32 (int (k + 1)), picture b (after (update_all (bseq b k))))"
      using Suc.prems False by (intro Suc.IH) auto
    moreover have "[c..<k + 1] = c # [c + 1..<k + 1]"
      using Suc.prems(2) by (simp add: upt_rec [of c] del: upt_Suc)
    ultimately show ?thesis
      by (simp add: over_def Let_def bseq_Suc turn_def frame_def del: upt_Suc)
  qed
qed

text \<open>The result in terms of the boards, and the boards in terms of Conway's game.\<close>

lemma picture_after_turn:
  assumes "columnSize b \<le> MAXGRID"
  shows "picture b (after (update_all b)) = picture b (before (turn b))"
    "picture b (after (turn b)) = picture b (before (turn b))"
proof -
  have "cell (after (update_all b)) i j = cell (before (turn b)) i j" if on: "on_board b i j" for i j
  proof -
    have "on_board (update_all b) i j" using on by (simp add: on_board_def)
    then have "\<exists>i' j'. on_board (update_all b) i' j' \<and> idx i j = idx i' j'" by blast
    then show ?thesis by (simp add: turn_def cell_def before_updateMatrix)
  qed
  then show "picture b (after (update_all b)) = picture b (before (turn b))"
    unfolding picture_def by (intro printMatrix_cong) (auto simp: on_board_def)
  then show "picture b (after (turn b)) = picture b (before (turn b))" by (simp add: turn_def)
qed

lemma sequential_result:
  assumes "columnSize b \<le> MAXGRID" "0 < N"
  shows "\<exists>g. 1 \<le> g \<and> g \<le> N \<and> 
    snd (sequential_life N 0 b) = (wrap32 (int g), picture b (before (bseq b g)))"
proof (cases "\<exists>k<N. over b k")
  case True
  then obtain k where k: "k < N" "over b k" "\<And>i. i < k \<Longrightarrow> \<not> over b i"
    using exists_least_iff [of "\<lambda>k. k < N \<and> over b k"] by (metis order.strict_trans)
  have "sequential_life N 0 (bseq b 0) =
      (map (frame b) [0..<k + 1], wrap32 (int (k + 1)), picture b (after (update_all (bseq b k))))"
    using k by (intro sequential_life_over) auto
  moreover have "picture b (after (update_all (bseq b k))) = picture b (before (bseq b (k + 1)))"
    using picture_after_turn(1) [of "bseq b k"] assms(1) by (simp add: bseq_Suc)
  ultimately show ?thesis using k(1) by (intro exI [of _ "k + 1"]) simp
next
  case False
  have "sequential_life N 0 (bseq b 0) =
      (map (frame b) [0..<0 + N + 1], wrap32 (int (0 + N)), picture b (after (bseq b (0 + N))))"
    using False by (intro sequential_life_full) auto
  moreover have "picture b (after (bseq b N)) = picture b (before (bseq b N))"
    using picture_after_turn(2) [of "bseq b (N - 1)"] assms bseq_Suc [of b "N - 1"] by simp
  ultimately show ?thesis using assms(2) by (intro exI [of _ N]) simp
qed

lemma turn_generation: "turn b = generation (cells_of (columnSize b) 0 (lineSize b - 1)) b"
  by (simp add: turn_def update_all_def generation_def)

lemma bseq_life:
  assumes "dead_border b"
  shows "live_cells (bseq b c) = (life (lineSize b) (columnSize b) ^^ c) (live_cells b)
    \<and> dead_border (bseq b c)"
proof (induction c)
  case (Suc c)
  then show ?case
    using live_cells_generation [OF _ set_cells_of_board, of "bseq b c"]
      dead_border_generation [OF _ set_cells_of_board, of "bseq b c"]
    by (simp add: bseq_Suc turn_generation)
qed (simp add: assms)

section \<open>The lines of a thread\<close>

definition region :: "nat \<Rightarrow> board \<Rightarrow> nat \<Rightarrow> (int \<times> int) list" where
  "region n b j = cells_of (columnSize b) (bound_from n (lineSize b) j) (bound_to n (lineSize b) j)"

definition board_ok :: "board \<Rightarrow> bool" where
  "board_ok b \<longleftrightarrow> 0 \<le> lineSize b \<and> 0 \<le> columnSize b \<and> columnSize b \<le> MAXGRID"

lemma bounds_of:
  assumes "j \<in> {1..n}"
  shows "bound_from n l j = int (j - 1) * (l div int n)"
    and "bound_to n l j = (if j = n then l - 1 else int j * (l div int n) - 1)"
  using assms by (auto simp: bound_from_def bound_to_def life_range_msg_def Let_def of_nat_diff)

lemma last_bound:
  assumes "0 \<le> l" "0 < n"
  shows "int (n - 1) * (l div int n) \<le> l"
proof -
  have "int (n - 1) * (l div int n) \<le> int n * (l div int n)"
    using assms by (intro mult_right_mono) (auto simp: pos_imp_zdiv_nonneg_iff)
  also have "\<dots> \<le> l" using assms(2) by (simp add: mult.commute [of "int n"] int_div_mult_le)
  finally show ?thesis .
qed

lemma region_on_board:
  assumes "board_ok b" "j \<in> {1..n}" "(i, c) \<in> set (region n b j)"
  shows "on_board b i c"
proof -
  have l: "0 \<le> lineSize b" "0 < n" and nz: "0 \<le> lineSize b div int n"
    using assms(1,2) by (auto simp: board_ok_def pos_imp_zdiv_nonneg_iff)
  have i: "bound_from n (lineSize b) j \<le> i" "i \<le> bound_to n (lineSize b) j" "0 \<le> c" "c < columnSize b"
    using assms(3) by (auto simp: region_def set_cells_of)
  have "0 \<le> bound_from n (lineSize b) j" using nz by (simp add: bounds_of [OF assms(2)])
  moreover have "bound_to n (lineSize b) j < lineSize b"
  proof (cases "j = n")
    case False
    then have "int j * (lineSize b div int n) \<le> int (n - 1) * (lineSize b div int n)"
      using assms(2) nz by (intro mult_right_mono) auto
    then show ?thesis using last_bound [OF l] False by (simp add: bounds_of [OF assms(2)])
  next
    case True
    then show ?thesis using bounds_of(2) [OF assms(2), of "lineSize b"] by simp
  qed
  ultimately show ?thesis using i by (simp add: on_board_def)
qed

lemma region_disjoint:
  assumes "board_ok b" "j \<in> {1..n}" "k \<in> {1..n}" "j < k"
  shows "set (region n b j) \<inter> set (region n b k) = {}"
proof -
  have nz: "0 \<le> lineSize b div int n"
    using assms(1,2) by (auto simp: board_ok_def pos_imp_zdiv_nonneg_iff)
  have "int j * (lineSize b div int n) \<le> int (k - 1) * (lineSize b div int n)"
    using assms(4) nz by (intro mult_right_mono) auto
  then have "bound_to n (lineSize b) j < bound_from n (lineSize b) k"
    using assms by (simp add: bounds_of)
  then show ?thesis by (auto simp: region_def set_cells_of)
qed

lemma region_covers:
  assumes "board_ok b" "0 < n" "on_board b i c"
  shows "\<exists>j\<in>{1..n}. (i, c) \<in> set (region n b j)"
proof -
  have i: "0 \<le> i" "i < lineSize b" "0 \<le> c" "c < columnSize b" using assms(3) by (auto simp: on_board_def)
  define r where "r = lineSize b div int n"
  have r: "0 \<le> r" using i assms(2) by (simp add: r_def pos_imp_zdiv_nonneg_iff)
  show ?thesis
  proof (cases "int (n - 1) * r \<le> i")
    case True
    then have "(i, c) \<in> set (region n b n)"
      using i assms(2) by (simp add: region_def set_cells_of bounds_of r_def)
    then show ?thesis using assms(2) by (intro bexI [of _ n]) auto
  next
    case False
    then have rpos: "0 < r" using i(1) r by (cases "r = 0") auto
    define q where "q = nat (i div r)"
    have q: "int q = i div r" using i(1) rpos by (simp add: q_def pos_imp_zdiv_nonneg_iff)
    have lo: "int q * r \<le> i" and hi: "i < (int q + 1) * r"
      using q rpos int_div_mult_le [of r i] by (auto simp: algebra_simps q)
        (metis add.commute add_strict_left_mono mult.commute mult_div_mod_eq pos_mod_bound)
    have "int q * r < int (n - 1) * r" using lo False by simp
    then have "q < n - 1" using rpos by simp
    then have "(i, c) \<in> set (region n b (q + 1))"
      using i lo hi by (simp add: region_def set_cells_of bounds_of flip: r_def)
        (simp add: add.commute)
    then show ?thesis using \<open>q < n - 1\<close> by (intro bexI [of _ "q + 1"]) auto
  qed
qed

section \<open>A game that is never over\<close>

lemma card_neighbours:
  assumes "finite A"
  shows "card {(i, j) \<in> A. Q i j} = (\<Sum>p\<in>A. of_bool (Q (fst p) (snd p)))"
proof -
  have "{(i, j). (i, j) \<in> A \<and> Q i j} = {p \<in> A. Q (fst p) (snd p)}" by auto
  then show ?thesis using assms sum.inter_filter [of A "\<lambda>_. 1::nat" "\<lambda>p. Q (fst p) (snd p)"]
    by (simp add: of_bool_def)
qed

definition row_three :: "(int \<times> int) set" where
  "row_three = {(1, 0), (1, 1), (1, 2)}"

definition column_three :: "(int \<times> int) set" where
  "column_three = {(0, 1), (1, 1), (2, 1)}"

lemma life_threes: "life 3 3 row_three = column_three" "life 3 3 column_three = row_three"
proof -
  have small: "0 \<le> x \<and> x < 3 \<longleftrightarrow> x \<in> {0, 1, 2}" for x :: int by auto
  have f: "finite row_three" "finite column_three" by (simp_all add: row_three_def column_three_def)
  have mem: "(i, j) \<in> life 3 3 A \<longleftrightarrow> i \<in> {0, 1, 2} \<and> j \<in> {0, 1, 2} \<and>
      (let n = card {(i', j') \<in> A. \<bar>i' - i\<bar> \<le> 1 \<and> \<bar>j' - j\<bar> \<le> 1 \<and> (i', j') \<noteq> (i, j)}
       in n = 3 \<or> (n = 2 \<and> (i, j) \<in> A))" for i j A
    using small [of i] small [of j] by (simp add: life_def) blast
  have "(i, j) \<in> life 3 3 row_three \<longleftrightarrow> (i, j) \<in> column_three" for i j
    unfolding mem card_neighbours [OF f(1)] by (auto simp: row_three_def column_three_def)
  then show "life 3 3 row_three = column_three" by auto
  have "(i, j) \<in> life 3 3 column_three \<longleftrightarrow> (i, j) \<in> row_three" for i j
    unfolding mem card_neighbours [OF f(2)] by (auto simp: row_three_def column_three_def)
  then show "life 3 3 column_three = row_three" by auto
qed

lemma live_blinker: "live_cells blinker = row_three"
proof -
  have on: "on_board blinker i j \<longleftrightarrow> 0 \<le> i \<and> i < 3 \<and> 0 \<le> j \<and> j < 3" for i j
    by (simp add: blinker_def on_board_def)
  have "cell (before blinker) i j \<noteq> 0 \<longleftrightarrow> i = 1" if "0 \<le> i" "i < 3" "0 \<le> j" "j < 3" for i j
    using that by (auto simp: blinker_def cell_def idx_def MAXGRID_def)
  then have "alive blinker i j \<longleftrightarrow> 0 \<le> j \<and> j < 3 \<and> i = 1" for i j
    by (cases "on_board blinker i j") (auto simp: alive_def on)
  then have "alive blinker i j \<longleftrightarrow> (i, j) \<in> row_three" for i j
    by (auto simp: row_three_def)
  then show ?thesis by (auto simp: live_cells_def)
qed

lemma blinker_boards: "live_cells (bseq blinker c) = (if even c then row_three else column_three)"
proof -
  have "(life 3 3 ^^ c) row_three = (if even c then row_three else column_three)"
    by (induction c) (simp_all add: life_threes)
  then show ?thesis
    using bseq_life [OF dead_border_blinker, of c] live_blinker by (simp add: blinker_def)
qed

lemma over_live_cells:
  assumes "columnSize b \<le> MAXGRID" "over b c"
  shows "live_cells (bseq b (Suc c)) = {} \<or> live_cells (bseq b (Suc c)) = live_cells (bseq b c)"
proof -
  let ?b = "bseq b c" and ?t = "update_all (bseq b c)"
  have on: "on_board ?t = on_board b" "on_board ?b = on_board b" "on_board (bseq b (Suc c)) = on_board b"
    by (auto simp: on_board_def fun_eq_iff)
  have same: "cell (after ?t) i j = cell (before (bseq b (Suc c))) i j" if o: "on_board b i j" for i j
  proof -
    have "\<exists>i' j'. on_board ?t i' j' \<and> idx i j = idx i' j'" using o on by metis
    then show ?thesis by (simp add: bseq_Suc turn_def cell_def before_updateMatrix)
  qed
  have "isAllZero ?t \<or> hasNotChanged ?t" using assms(2) by (simp add: over_def Let_def)
  then show ?thesis
  proof
    assume "isAllZero ?t"
    then have "\<not> alive (bseq b (Suc c)) i j" for i j
      using same by (auto simp: isAllZero_iff alive_def on)
    then show ?thesis by (simp add: live_cells_def)
  next
    assume "hasNotChanged ?t"
    then have "alive (bseq b (Suc c)) i j = alive ?b i j" for i j
      using same by (auto simp: hasNotChanged_iff alive_def on)
    then show ?thesis by (simp add: live_cells_def)
  qed
qed

lemma blinker_never_over: "\<not> over blinker c"
proof
  assume "over blinker c"
  moreover have "columnSize blinker \<le> MAXGRID" by (simp add: blinker_def MAXGRID_def)
  moreover have "(1, 0) \<in> row_three" "(1, 0) \<notin> column_three"
    by (simp_all add: row_three_def column_three_def)
  moreover have "row_three \<noteq> {}" "column_three \<noteq> {}" by (simp_all add: row_three_def column_three_def)
  ultimately show False
    using over_live_cells [of blinker c]
    by (auto simp: blinker_boards split: if_splits)
qed

end
