(* ===== verification/LifeResult.thy ===== *)
theory LifeResult
  imports LifeCorrect
begin

text \<open>
  The third layer of the invariant of LifeProtocol's program, the boards, and the properties of
  its runs: the result is that of the sequential game, no thread writes while \<open>main\<close> passes over
  the boards, a run ends, and it gets stuck in one situation only.
\<close>

section \<open>The boards\<close>

text \<open>The number of times \<open>main\<close> has copied \<open>after\<close> to \<open>before\<close>, and of generations shown.\<close>

fun turns :: "nat \<Rightarrow> lparent \<Rightarrow> nat \<Rightarrow> nat \<Rightarrow> nat" where
  "turns n PUpdate g a = g - 1"
| "turns n (PStop i) g a = g - 1"
| "turns n PEnd g a = (if a = n then g else g - 1)"
| "turns n (PJoin i) g a = (if a = n then g else g - 1)"
| "turns n PDone g a = (if a = n then g else g - 1)"
| "turns n p g a = g"

fun frames :: "nat \<Rightarrow> lparent \<Rightarrow> nat \<Rightarrow> nat \<Rightarrow> nat" where
  "frames n (PRange i) g a = g"
| "frames n PShow g a = g"
| "frames n (PGo i) g a = g + 1"
| "frames n (PRecv i) g a = g + 1"
| "frames n PCheck g a = g + 1"
| "frames n PUpdate g a = g"
| "frames n (PStop i) g a = g"
| "frames n PEnd g a = (if a = n then g + 1 else g)"
| "frames n (PJoin i) g a = (if a = n then g + 1 else g)"
| "frames n PDone g a = (if a = n then g + 1 else g)"

definition dturns :: "nat \<Rightarrow> life \<Rightarrow> nat" where
  "dturns n s = turns n (parent s) (cGen s) (allDoneCounter s)"

text \<open>The part of \<open>after\<close> that belongs to a thread, depending on where the thread is.\<close>

definition fresh_on :: "board \<Rightarrow> (int \<times> int) set \<Rightarrow> bool" where
  "fresh_on b A \<longleftrightarrow> (\<forall>(i, c)\<in>A. cell (after b) i c = new_cell b i c)"

definition stale_on :: "board \<Rightarrow> (int \<times> int) set \<Rightarrow> bool" where
  "stale_on b A \<longleftrightarrow> (\<forall>(i, c)\<in>A. cell (after b) i c = cell (before b) i c)"

definition region_ok :: "nat \<Rightarrow> board \<Rightarrow> (int \<times> int) list \<Rightarrow> lworker \<Rightarrow> bool" where
  "region_ok d b R w \<longleftrightarrow>
     (case w of
        LUpd f t gen ps \<Rightarrow> set ps \<subseteq> set R \<and> fresh_on b (set R - set ps)
      | LDone f t gen \<Rightarrow> fresh_on b (set R)
      | _ \<Rightarrow> if fin w = d + 1 then fresh_on b (set R) else 1 \<le> d \<longrightarrow> stale_on b (set R))"

definition board_inv :: "nat \<Rightarrow> nat \<Rightarrow> board \<Rightarrow> life \<Rightarrow> bool" where
  "board_inv n N b s \<longleftrightarrow>
     before (board s) = before (bseq b (dturns n s)) \<and>
     lineSize (board s) = lineSize b \<and> columnSize (board s) = columnSize b \<and>
     (\<forall>j\<in>{1..n}. region_ok (dturns n s) (board s) (region n b j) (workers s j))"

text \<open>Which generations were not the last one, what was shown, and what was printed at the end.\<close>

definition output_inv :: "nat \<Rightarrow> nat \<Rightarrow> bool \<Rightarrow> board \<Rightarrow> life \<Rightarrow> bool" where
  "output_inv n N isPr b s \<longleftrightarrow>
     (\<forall>c<dturns n s. \<not> over b c) \<and>
     (parent s = PUpdate \<longrightarrow> \<not> over b (dturns n s)) \<and>
     ((\<exists>i. parent s = PStop i) \<or> parent s \<in> {PEnd, PDone} \<union> range PJoin \<and> allDoneCounter s \<noteq> n
        \<longrightarrow> over b (dturns n s)) \<and>
     shown s = (if isPr then map (frame b) [0..<frames n (parent s) (cGen s) (allDoneCounter s)] else []) \<and>
     ended s = (if parent s \<in> {PDone} \<union> range PJoin
       then Some (wrap32 (int (cGen s)), if allDoneCounter s = n then picture b (before (bseq b N))
                          else picture b (after (update_all (bseq b (dturns n s)))))
       else None)"

lemma board_invD:
  assumes "board_inv n N b s"
  shows "before (board s) = before (bseq b (dturns n s))"
    "lineSize (board s) = lineSize b" "columnSize (board s) = columnSize b"
    "j \<in> {1..n} \<Longrightarrow> region_ok (dturns n s) (board s) (region n b j) (workers s j)"
  using assms unfolding board_inv_def by blast+

text \<open>A thread that is updating works on the generation after the last copy, and \<open>main\<close> is sending
  GOs or waiting for the answers.\<close>

lemma updating_when:
  assumes "wok n N s j" "low N (parent s) (cGen s) \<le> fin (workers s j)" "0 < n"
    "parent_ok n N (parent s) (cGen s) (allDoneCounter s) (genDoneCounter s)"
    "workers s j = LUpd f t gen ps \<or> workers s j = LDone f t gen"
  shows "gen = dturns n s + 1" "(\<exists>i. parent s = PGo i) \<or> (\<exists>i. parent s = PRecv i)"
  using assms by (cases "parent s"; auto simp: worker_ok_defs dturns_def split: if_splits)+

lemma updating:
  assumes "mail_inv n N s" "threads_ok n N" "j \<in> {1..n}"
    "workers s j = LUpd f t gen ps \<or> workers s j = LDone f t gen"
  shows "gen = dturns n s + 1" "(\<exists>i. parent s = PGo i) \<or> (\<exists>i. parent s = PRecv i)"
  using updating_when [OF mail_invD(3,4) [OF assms(1,3)] _ mail_invD(2) [OF assms(1)] assms(4)] assms(2)
  by (auto simp: threads_ok_def)

text \<open>All threads are finished with the generation when \<open>main\<close> checks the board.\<close>

lemma checked_fin:
  assumes "mail_inv n N s" "parent s = PCheck" "allDoneCounter s \<noteq> n" "j \<in> {1..n}"
  shows "fin (workers s j) = cGen s + 1" "cGen s < N"
  using mail_invD(2,4) [OF assms(1)] fin_le(2) [OF mail_invD(3) [OF assms(1,4)]] assms
  by (auto split: if_splits simp: le_antisym)

lemma not_updating_region:
  assumes "region_ok d b R w" "\<And>f t gen ps. w \<noteq> LUpd f t gen ps" "fin w = d + 1"
  shows "fresh_on b (set R)"
  using assms by (cases w) (auto simp: region_ok_def)

section \<open>The boards are kept\<close>

lemma fresh_stale_cong:
  assumes "before b' = before b" "after b' = after b" "lineSize b' = lineSize b" "columnSize b' = columnSize b"
  shows "fresh_on b' A = fresh_on b A" "stale_on b' A = stale_on b A"
  using assms new_cell_cong [of b' b] by (simp_all add: fresh_on_def stale_on_def)

lemma new_cell_update [simp]: "new_cell (update_cell p b) i c = new_cell b i c"
  by (rule new_cell_cong) simp_all

lemma after_update_at:
  assumes "on_board b i c" "on_board b i' c'" "columnSize b \<le> MAXGRID"
  shows "cell (after (update_cell (i, c) b)) i' c' =
    (if (i', c') = (i, c) then new_cell b i c else cell (after b) i' c')"
  using idx_inj [of c c' i i'] assms by (auto simp: after_update_cell cell_def on_board_def)

text \<open>Another thread's cell leaves a region as it is.\<close>

lemma region_update_other:
  assumes ok: "board_ok b" and sz: "lineSize s = lineSize b" "columnSize s = columnSize b"
    and jk: "j \<in> {1..n}" "k \<in> {1..n}" "j \<noteq> k" and p: "p \<in> set (region n b j)"
    and A: "A \<subseteq> set (region n b k)"
  shows "fresh_on (update_cell p s) A = fresh_on s A" "stale_on (update_cell p s) A = stale_on s A"
proof -
  have "cell (after (update_cell p s)) i c = cell (after s) i c" if "(i, c) \<in> A" for i c
  proof -
    obtain i' c' where p': "p = (i', c')" by (cases p)
    have b: "on_board s = on_board b" using sz by (intro ext) (simp add: on_board_def)
    have "p \<noteq> (i, c)"
      using region_disjoint [OF ok jk(1,2)] region_disjoint [OF ok jk(2,1)] jk(3) p A that
      by (cases "j < k") auto
    then show ?thesis
      using after_update_at [of s i' c' i c] region_on_board [OF ok jk(1)] region_on_board [OF ok jk(2)]
        p A that sz ok p' b by (auto simp: board_ok_def)
  qed
  then show "fresh_on (update_cell p s) A = fresh_on s A" "stale_on (update_cell p s) A = stale_on s A"
    by (auto simp: fresh_on_def stale_on_def)
qed

lemma fresh_update_own:
  assumes ok: "board_ok b" and sz: "lineSize s = lineSize b" "columnSize s = columnSize b"
    and j: "j \<in> {1..n}" and p: "p \<in> set (region n b j)"
    and f: "fresh_on s (set (region n b j) - set (p # ps))"
  shows "fresh_on (update_cell p s) (set (region n b j) - set ps)"
proof -
  have b: "on_board s = on_board b" using sz by (intro ext) (simp add: on_board_def)
  have "cell (after (update_cell p s)) i c = new_cell s i c"
    if ic: "(i, c) \<in> set (region n b j) - set ps" for i c
  proof -
    obtain i' c' where p': "p = (i', c')" by (cases p)
    have "on_board s i' c'" "on_board s i c" using region_on_board [OF ok j] p p' ic b by auto
    then show ?thesis
      using after_update_at [of s i' c' i c] p' ic f sz ok
      by (auto simp: board_ok_def fresh_on_def)
  qed
  then show ?thesis by (auto simp: fresh_on_def)
qed

lemma region_ok_other:
  assumes ok: "board_ok b" and sz: "lineSize s = lineSize b" "columnSize s = columnSize b"
    and jk: "j \<in> {1..n}" "k \<in> {1..n}" "j \<noteq> k" and p: "p \<in> set (region n b j)"
    and r: "region_ok d s (region n b k) w"
  shows "region_ok d (update_cell p s) (region n b k) w"
  using r region_update_other [OF ok sz jk p]
  by (auto simp: region_ok_def split: lworker.splits)

text \<open>A step that leaves the boards and their count alone, with thread \<open>j\<close> in a new place.\<close>

lemma board_inv_worker:
  assumes inv: "board_inv n N b s" and j: "j \<in> {1..n}"
    and same: "board t = board s" "dturns n t = dturns n s" "workers t = (workers s)(j := w)"
    and w: "region_ok (dturns n s) (board s) (region n b j) (workers s j) \<Longrightarrow>
      region_ok (dturns n s) (board s) (region n b j) w"
  shows "board_inv n N b t"
proof -
  have "region_ok (dturns n t) (board t) (region n b k) (workers t k)" if k: "k \<in> {1..n}" for k
    using board_invD(4) [OF inv k] w same j by (cases "k = j") auto
  then show ?thesis using board_invD(1-3) [OF inv] same unfolding board_inv_def by metis
qed

text \<open>Places where nothing is being updated look the same to the board.\<close>

lemma region_ok_quiet:
  assumes "fin w' = fin w" "\<And>f t gen ps. w \<noteq> LUpd f t gen ps" "\<And>f t gen. w \<noteq> LDone f t gen"
    "\<And>f t gen ps. w' \<noteq> LUpd f t gen ps" "\<And>f t gen. w' \<noteq> LDone f t gen" "region_ok d b R w"
  shows "region_ok d b R w'"
  using assms by (cases w; cases w') (auto simp: region_ok_def)

lemma board_inv_worker_step:
  assumes ok: "threads_ok n N" "board_ok b" and inv: "mail_inv n N s" "board_inv n N b s"
    and step: "life_step n (gens_upto N) isPr s t"
    and p: "parent t = parent s" "cGen t = cGen s" "allDoneCounter t = allDoneCounter s"
  shows "board_inv n N b t"
proof -
  have d: "dturns n t = dturns n s" using p by (simp add: dturns_def)
  note W = board_inv_worker [OF inv(2) _ _ d]
  from step show ?thesis
  proof (cases rule: life_step.cases)
    case (worker_range j message m)
    then have j: "j \<in> {1..n}" by simp
    have w: "workers t = (workers s)(j := LGo (value1 message) (value2 message) 1)"
      using worker_range thread_gets [OF worker_range(5) inv(1) ok(1) j] ok(1)
        mail_invD(3) [OF inv(1) j]
      by (auto simp: next_gen_def threads_ok_def worker_ok_defs split: if_splits)
    show ?thesis
      using worker_range by (intro W [OF j _ w]) (auto simp: region_ok_def)
  next
    case (worker_go j f t' gen message m)
    then have j: "j \<in> {1..n}" by simp
    have wk: "f = bound_from n (lineSize b) j" "t' = bound_to n (lineSize b) j"
      "mtype message = GO \<or> mtype message = STOP"
      using mail_invD(3) [OF inv(1) j] worker_go thread_gets [OF worker_go(5) inv(1) ok(1) j]
        board_invD(2) [OF inv(2)] by (auto simp: worker_ok_defs split: if_splits)
    have "region_ok (dturns n s) (board s) (region n b j)
        (LUpd f t' gen (cells_of (columnSize (board s)) f t'))"
      using wk(1,2) board_invD(3) [OF inv(2)] by (simp add: region_ok_def region_def fresh_on_def)
    moreover have w: "workers t = (workers s)(j := if mtype message = STOP then LExit gen
        else LUpd f t' gen (cells_of (columnSize (board s)) f t'))"
      using worker_go wk(3) by auto
    ultimately show ?thesis
      using worker_go by (intro W [OF j _ w]) (auto simp: region_ok_def split: if_splits)
  next
    case (worker_update j f t' gen q qs)
    then have j: "j \<in> {1..n}" by simp
    note B = board_invD [OF inv(2)]
    have r: "set (q # qs) \<subseteq> set (region n b j)" "fresh_on (board s) (set (region n b j) - set (q # qs))"
      using B(4) [OF j] worker_update by (auto simp: region_ok_def)
    then have q: "q \<in> set (region n b j)" by simp
    have "region_ok (dturns n t) (board t) (region n b k) (workers t k)" if k: "k \<in> {1..n}" for k
    proof (cases "k = j")
      case True
      then show ?thesis
        using fresh_update_own [OF ok(2) B(2,3) j q r(2)] r(1) worker_update
        by (simp add: region_ok_def)
    next
      case False
      then show ?thesis
        using region_ok_other [OF ok(2) B(2,3) j k _ q B(4) [OF k]] worker_update d by auto
    qed
    then show ?thesis using B(1-3) worker_update d by (simp add: board_inv_def)
  next
    case (worker_updated j f t' gen)
    then have j: "j \<in> {1..n}" by simp
    then show ?thesis using worker_updated by (intro W [OF j]) (auto simp: region_ok_def)
  next
    case (worker_gendone j f t' gen message m)
    then have j: "j \<in> {1..n}" by simp
    then show ?thesis
      using worker_gendone updating(1) [OF inv(1) ok(1) j, of f t' gen]
      by (intro W [OF j]) (auto simp: region_ok_def next_gen_def split: if_splits)
  next
    case (worker_lock j gen)
    then show ?thesis by (intro W [of j]) (auto simp: region_ok_def)
  next
    case (worker_count j gen)
    then show ?thesis by (intro W [of j]) (auto simp: region_ok_def)
  next
    case (worker_unlock j gen)
    then show ?thesis by (intro W [of j]) (auto simp: region_ok_def)
  next
    case (worker_test j gen)
    then show ?thesis by (intro W [of j]) (auto simp: region_ok_def split: if_splits)
  next
    case (worker_post j gen k)
    then show ?thesis by (intro W [of j]) (auto simp: region_ok_def)
  next
    case (worker_posted j gen)
    then show ?thesis by (intro W [of j]) (auto simp: region_ok_def)
  next
    case (worker_wait j gen)
    then show ?thesis by (intro W [of j]) (auto simp: region_ok_def)
  next
    case (worker_alldone j gen message m)
    then show ?thesis by (intro W [of j]) (auto simp: region_ok_def)
  qed (use p in \<open>auto split: if_splits\<close>)
qed

lemma fresh_update_all:
  assumes "board_ok b" "before s = before b'" "lineSize s = lineSize b" "columnSize s = columnSize b"
    "lineSize b' = lineSize b" "columnSize b' = columnSize b"
    "\<And>i c. on_board b i c \<Longrightarrow> cell (after s) i c = new_cell s i c" "on_board b i c"
  shows "cell (after s) i c = cell (after (update_all b')) i c"
proof -
  have "on_board b' = on_board b" using assms by (intro ext) (simp add: on_board_def)
  then have "cell (after (update_all b')) i c = new_cell b' i c"
    unfolding update_all_def
    using after_generation_cells [OF set_cells_of_board, of b' i c] assms by (simp add: board_ok_def)
  moreover have "new_cell b' i c = new_cell s i c" using assms by (intro new_cell_cong) simp_all
  ultimately show ?thesis using assms(7,8) by simp
qed

text \<open>When all threads are done with a generation, the board is that of the sequential game.\<close>

lemma generation_complete:
  assumes ok: "threads_ok n N" "board_ok b" and inv: "mail_inv n N s" "board_inv n N b s"
    and fin: "\<And>j. j \<in> {1..n} \<Longrightarrow> fin (workers s j) = dturns n s + 1"
    and no: "\<And>j f t gen ps. j \<in> {1..n} \<Longrightarrow> workers s j \<noteq> LUpd f t gen ps"
    and ic: "on_board b i c"
  shows "cell (after (board s)) i c = cell (after (update_all (bseq b (dturns n s)))) i c"
proof -
  note B = board_invD [OF inv(2)]
  have "cell (after (board s)) i' c' = new_cell (board s) i' c'" if on: "on_board b i' c'" for i' c'
  proof -
    obtain j where j: "j \<in> {1..n}" "(i', c') \<in> set (region n b j)"
      using region_covers [OF ok(2) _ on, of n] ok(1) by (auto simp: threads_ok_def)
    then show ?thesis
      using not_updating_region [OF B(4) [OF j(1)] no [OF j(1)] fin [OF j(1)]]
      by (auto simp: fresh_on_def)
  qed
  then show ?thesis
    using B(1-3) ic by (intro fresh_update_all [OF ok(2)]) simp_all
qed

lemma tests_agree:
  assumes "before s = before b'" "lineSize s = lineSize b'" "columnSize s = columnSize b'"
    "\<And>i c. on_board b' i c \<Longrightarrow> cell (after s) i c = cell (after (update_all b')) i c"
  shows "isAllZero s = isAllZero (update_all b')" "hasNotChanged s = hasNotChanged (update_all b')"
    "before (updateMatrix s) = before (updateMatrix (update_all b'))"
    "picture s (after s) = picture s (after (update_all b'))"
proof -
  have ob: "on_board s = on_board b'" "on_board (update_all b') = on_board b'"
    using assms by (auto simp: on_board_def fun_eq_iff)
  show "isAllZero s = isAllZero (update_all b')" "hasNotChanged s = hasNotChanged (update_all b')"
    using assms(1,4) by (auto simp: isAllZero_iff hasNotChanged_iff ob)
  show "before (updateMatrix s) = before (updateMatrix (update_all b'))"
    using assms(1,4) by (intro ext) (auto simp: before_updateMatrix ob cell_def)
  show "picture s (after s) = picture s (after (update_all b'))"
    unfolding picture_def using assms(2-4)
    by (intro printMatrix_cong) (simp add: on_board_def)
qed

lemma checked_complete:
  assumes ok: "threads_ok n N" "board_ok b" and inv: "mail_inv n N s" "board_inv n N b s"
    and p: "parent s = PCheck" "allDoneCounter s \<noteq> n" and ic: "on_board b i c"
  shows "cell (after (board s)) i c = cell (after (update_all (bseq b (cGen s)))) i c"
proof -
  have d: "dturns n s = cGen s" using p(1) by (simp add: dturns_def)
  have "workers s j \<noteq> LUpd f t gen ps" if "j \<in> {1..n}" for j f t gen ps
    using updating(2) [OF inv(1) ok(1) that] p(1) by auto
  then show ?thesis
    using generation_complete [OF ok inv _ _ ic] checked_fin(1) [OF inv(1) p] d by simp
qed

lemma update_complete:
  assumes ok: "threads_ok n N" "board_ok b" and inv: "mail_inv n N s" "board_inv n N b s"
    and p: "parent s \<in> {PUpdate, PEnd} \<union> range PStop" "allDoneCounter s \<noteq> n" and ic: "on_board b i c"
  shows "cell (after (board s)) i c = cell (after (update_all (bseq b (dturns n s)))) i c"
proof -
  have g: "1 \<le> cGen s" using mail_invD(2) [OF inv(1)] p(1) by auto
  then have d: "dturns n s + 1 = cGen s" using p by (auto simp: dturns_def)
  have "workers s j \<noteq> LUpd f t gen ps" if "j \<in> {1..n}" for j f t gen ps
    using updating(2) [OF inv(1) ok(1) that] p(1) by auto
  moreover have "fin (workers s j) = dturns n s + 1" if "j \<in> {1..n}" for j
    using mail_invD(4) [OF inv(1) that] fin_le(2) [OF mail_invD(3) [OF inv(1) that]] p d
    by (auto simp: le_antisym)
  ultimately show ?thesis using generation_complete [OF ok inv _ _ ic] by blast
qed

lemma board_agrees:
  assumes ok: "threads_ok n N" "board_ok b" and inv: "mail_inv n N s" "board_inv n N b s"
    and p: "parent s \<in> {PUpdate, PEnd, PCheck} \<union> range PStop" "allDoneCounter s \<noteq> n"
  shows "isAllZero (board s) = isAllZero (update_all (bseq b (dturns n s)))"
    "hasNotChanged (board s) = hasNotChanged (update_all (bseq b (dturns n s)))"
    "before (updateMatrix (board s)) = before (bseq b (Suc (dturns n s)))"
    "picture (board s) (after (board s)) = picture b (after (update_all (bseq b (dturns n s))))"
proof -
  note B = board_invD [OF inv(2)]
  have "cell (after (board s)) i c = cell (after (update_all (bseq b (dturns n s)))) i c"
    if "on_board (bseq b (dturns n s)) i c" for i c
  proof -
    have on: "on_board b i c" using that by (simp add: on_board_def)
    show ?thesis
    proof (cases "parent s = PCheck")
      case True
      then show ?thesis
        using checked_complete [OF ok inv True p(2) on] by (simp add: dturns_def)
    next
      case False
      then show ?thesis using update_complete [OF ok inv _ p(2) on] p(1) by auto
    qed
  qed
  note T = tests_agree [OF B(1) _ _ this]
  have pic: "picture (board s) = picture b" using B(2,3) by (intro ext picture_sizes) auto
  show "isAllZero (board s) = isAllZero (update_all (bseq b (dturns n s)))"
    "hasNotChanged (board s) = hasNotChanged (update_all (bseq b (dturns n s)))"
    "before (updateMatrix (board s)) = before (bseq b (Suc (dturns n s)))"
    "picture (board s) (after (board s)) = picture b (after (update_all (bseq b (dturns n s))))"
    using T B(2,3) by (simp_all add: bseq_Suc turn_def pic)
qed

lemma stale_after_copy:
  assumes "\<forall>(i, c)\<in>A. on_board b i c"
  shows "stale_on (updateMatrix b) A"
proof -
  have "cell (after (updateMatrix b)) i c = cell (before (updateMatrix b)) i c" if "(i, c) \<in> A" for i c
  proof -
    have "on_board b i c" using assms that by auto
    then have "\<exists>i' c'. on_board b i' c' \<and> idx i c = idx i' c'" by blast
    then show ?thesis by (simp add: cell_def before_updateMatrix)
  qed
  then show ?thesis by (auto simp: stale_on_def)
qed

lemma board_inv_main_step:
  assumes ok: "threads_ok n N" "board_ok b" and inv: "mail_inv n N s" "board_inv n N b s"
    and step: "life_step n (gens_upto N) isPr s t" and ws: "workers t = workers s"
  shows "board_inv n N b t"
proof (cases "parent s = PUpdate \<and> parent t \<noteq> PUpdate")
  case False
  have pos: "0 < n" using ok(1) by (simp add: threads_ok_def)
  note P = mail_invD(2) [OF inv(1)]
  have "board t = board s \<and> dturns n t = dturns n s"
    using step ws False P pos
    by (elim life_step.cases) (auto simp: dturns_def fun_upd_idem_iff dest: fun_cong split: if_splits)
  then show ?thesis using inv(2) ws by (simp add: board_inv_def)
next
  case True
  then have t: "board t = updateMatrix (board s)" "cGen t = cGen s" "allDoneCounter t = allDoneCounter s"
    "parent t = (if allDoneCounter s = n then PEnd else PShow)"
    using step by (auto elim!: life_step.cases)
  have n: "0 < n" "allDoneCounter s = 0" "1 \<le> cGen s"
    using ok(1) mail_invD(2) [OF inv(1)] True by (auto simp: threads_ok_def)
  then have d: "dturns n t = Suc (dturns n s)" "dturns n t = cGen s" using t True by (auto simp: dturns_def)
  note B = board_invD [OF inv(2)]
  have "region_ok (dturns n t) (board t) (region n b j) (workers t j)" if j: "j \<in> {1..n}" for j
  proof -
    have "stale_on (board t) (set (region n b j))"
      unfolding t(1) using region_on_board [OF ok(2) j] B(2,3) ok(2)
      by (intro stale_after_copy) (auto simp: board_ok_def on_board_def)
    moreover have "fin (workers s j) \<noteq> dturns n t + 1"
      using fin_le(2) [OF mail_invD(3) [OF inv(1) j]] True d by simp
    moreover have "workers s j \<noteq> LUpd f t' gen ps" "workers s j \<noteq> LDone f t' gen" for f t' gen ps
      using updating(2) [OF inv(1) ok(1) j, of f t' gen ps] True by auto
    ultimately show ?thesis
      unfolding ws region_ok_def by (cases "workers s j") auto
  qed
  then show ?thesis
    using board_agrees(3) [OF ok inv] True n B(2,3) t(1) d(1) unfolding board_inv_def by simp
qed

section \<open>The output\<close>

lemma output_inv_step:
  assumes ok: "threads_ok n N" "board_ok b" and inv: "mail_inv n N s" "board_inv n N b s"
      "output_inv n N isPr b s"
    and step: "life_step n (gens_upto N) isPr s t"
  shows "output_inv n N isPr b t"
proof -
  have pos: "0 < n" using ok(1) by (simp add: threads_ok_def)
  note P = mail_invD(2) [OF inv(1)]
  note B = board_invD [OF inv(2)]
  have pic: "picture (board s) = picture b" using B(2,3) by (intro ext picture_sizes) auto
  from step show ?thesis
  proof (cases rule: life_step.cases)
    case parent_show
    then show ?thesis using inv(3) P pos B(1) pic
      by (auto simp: output_inv_def dturns_def frame_def)
  next
    case parent_check_stop
    then have "over b (dturns n s)"
      using board_agrees(1,2) [OF ok inv(1,2)] by (simp add: over_def Let_def)
    then show ?thesis using inv(3) P pos parent_check_stop by (auto simp: output_inv_def dturns_def)
  next
    case parent_check_go
    then have "\<not> over b (dturns n s)"
      using board_agrees(1,2) [OF ok inv(1,2)] by (simp add: over_def Let_def)
    then show ?thesis using inv(3) P pos parent_check_go by (auto simp: output_inv_def dturns_def)
  next
    case parent_end
    have "picture b (after (board s)) = (if allDoneCounter s = n then picture b (before (bseq b N))
        else picture b (after (update_all (bseq b (dturns n s)))))"
    proof (cases "allDoneCounter s = n")
      case True
      have d: "dturns n s = N" "1 \<le> N"
        using P parent_end True pos ok(1) by (auto simp: dturns_def threads_ok_def)
      have "cell (after (board s)) i c = cell (before (board s)) i c" if on: "on_board b i c" for i c
      proof -
        obtain j where j: "j \<in> {1..n}" "(i, c) \<in> set (region n b j)"
          using region_covers [OF ok(2) pos on] by blast
        have "fin (workers s j) \<noteq> dturns n s + 1"
          using fin_le(1) [OF mail_invD(3) [OF inv(1) j(1)]] d by simp
        moreover have "workers s j \<noteq> LUpd f t' gen ps" "workers s j \<noteq> LDone f t' gen" for f t' gen ps
          using updating(2) [OF inv(1) ok(1) j(1), of f t' gen ps] parent_end by auto
        ultimately have "stale_on (board s) (set (region n b j))"
          using B(4) [OF j(1)] d by (cases "workers s j") (auto simp: region_ok_def)
        then show ?thesis using j(2) by (auto simp: stale_on_def)
      qed
      then show ?thesis using True B(1) d(1) unfolding picture_def
        by (auto intro!: printMatrix_cong simp: on_board_def)
    next
      case False
      then show ?thesis using board_agrees(4) [OF ok inv(1,2)] parent_end pic by simp
    qed
    then show ?thesis using inv(3) P pos parent_end pic by (auto simp: output_inv_def dturns_def)
  next
    case parent_update
    have d: "dturns n t = Suc (dturns n s)" "allDoneCounter s \<noteq> n"
      using P pos parent_update by (auto simp: dturns_def)
    then have "\<forall>c<dturns n t. \<not> over b c"
      using inv(3) parent_update by (auto simp: output_inv_def less_Suc_eq)
    moreover have "parent t = PShow" "shown t = shown s" "ended t = ended s" "cGen t = cGen s"
      using parent_update d by auto
    ultimately show ?thesis using inv(3) parent_update by (auto simp: output_inv_def)
  qed (use inv(3) P pos in \<open>auto simp: output_inv_def dturns_def split: if_splits\<close>)
qed

section \<open>The invariant of a run\<close>

definition life_inv :: "nat \<Rightarrow> nat \<Rightarrow> bool \<Rightarrow> board \<Rightarrow> life \<Rightarrow> bool" where
  "life_inv n N isPr b s \<longleftrightarrow> mail_inv n N s \<and> count_inv n N s \<and> barrier_inv n N s \<and>
     board_inv n N b s \<and> output_inv n N isPr b s"

lemma all_done_counter:
  assumes "life_step n (gens_upto N) isPr s t"
  shows "workers t = workers s \<or> parent t = parent s \<and> cGen t = cGen s \<and> allDoneCounter t = allDoneCounter s"
  using assms by (cases rule: life_step.cases) auto

lemma life_inv_step:
  assumes "threads_ok n N" "board_ok b" "life_inv n N isPr b s" "life_step n (gens_upto N) isPr s t"
  shows "life_inv n N isPr b t"
proof -
  have i: "mail_inv n N s" "count_inv n N s" "barrier_inv n N s" "board_inv n N b s"
    "output_inv n N isPr b s"
    using assms(3) by (auto simp: life_inv_def)
  have "board_inv n N b t"
    using all_done_counter [OF assms(4)] board_inv_main_step [OF assms(1,2) i(1,4) assms(4)]
      board_inv_worker_step [OF assms(1,2) i(1,4) assms(4)] by blast
  then show ?thesis
    unfolding life_inv_def
    using mail_inv_step [OF assms(1) i(1-3) assms(4)] count_inv_step [OF assms(1) i(1-3) assms(4)]
      barrier_inv_step [OF i(3,1) assms(4)] output_inv_step [OF assms(1,2) i(1,4,5) assms(4)] by blast
qed

lemma life_run_inv:
  assumes "threads_ok n N" "board_ok b" "life_run n (gens_upto N) isPr b k s"
  shows "life_inv n N isPr b s"
  using assms(3)
proof (induction rule: life_run.induct)
  case life_start
  have "board_inv n N b (life_init b)" "output_inv n N isPr b (life_init b)"
    by (auto simp: board_inv_def output_inv_def life_init_def dturns_def region_ok_def)
  then show ?case
    using life_inv_init [of n N b] assms(1) by (simp add: life_inv_def threads_ok_def)
next
  case (life_next k s t)
  then show ?case using life_inv_step [OF assms(1,2)] by blast
qed

end
