(* ===== verification/LifeProgress.thy ===== *)
theory LifeProgress
  imports LifeResult
begin

text \<open>
  Termination and deadlock of LifeProtocol's program: every run is finite, and a run that can go
  no further has finished, except that two or more threads wait for each other when the game is
  found to be over exactly at the last generation.
\<close>

section \<open>Every run is finite\<close>

text \<open>An upper bound on the steps a thread and \<open>main\<close> still take.\<close>

fun thread_steps :: "nat \<Rightarrow> nat \<Rightarrow> nat \<Rightarrow> lworker \<Rightarrow> nat" where
  "thread_steps n N K LRange = N * (K + 3) + n + 9"
| "thread_steps n N K (LGo f t gen) = (N + 1 - gen) * (K + 3) + n + 8"
| "thread_steps n N K (LUpd f t gen ps) = (N - gen) * (K + 3) + n + 8 + length ps + 2"
| "thread_steps n N K (LDone f t gen) = (N - gen) * (K + 3) + n + 8 + 1"
| "thread_steps n N K (LBarrier gen) = n + 8"
| "thread_steps n N K (LCount gen) = n + 7"
| "thread_steps n N K (LUnlock gen) = n + 6"
| "thread_steps n N K (LTest gen) = n + 5"
| "thread_steps n N K (LPost gen k) = k + 3"
| "thread_steps n N K (LWait gen) = 2"
| "thread_steps n N K (LAllDone gen) = 1"
| "thread_steps n N K (LExit gen) = 0"
| "thread_steps n N K LFail = 0"

fun main_steps :: "nat \<Rightarrow> nat \<Rightarrow> nat \<Rightarrow> lparent \<Rightarrow> nat" where
  "main_steps n N g (PRange i) = (N + 1) * (2 * n + 4) + 2 * n + 2 + (n - i)"
| "main_steps n N g PShow = (N + 1 - g) * (2 * n + 4) + 2 * n + 2"
| "main_steps n N g (PGo i) = (N - g) * (2 * n + 4) + 2 * n + 2 + (n + 1 - i) + n + 3"
| "main_steps n N g (PRecv i) = (N - g) * (2 * n + 4) + 2 * n + 2 + (n + 1 - i) + 2"
| "main_steps n N g PCheck = (N - g) * (2 * n + 4) + 2 * n + 2 + 2"
| "main_steps n N g PUpdate = (N + 1 - g) * (2 * n + 4) + 2 * n + 2 + 1"
| "main_steps n N g (PStop i) = (n + 1 - i) + n + 1"
| "main_steps n N g PEnd = n + 1"
| "main_steps n N g (PJoin i) = n + 1 - i"
| "main_steps n N g PDone = 0"

definition threads_left :: "nat \<Rightarrow> nat \<Rightarrow> board \<Rightarrow> (nat \<Rightarrow> lworker) \<Rightarrow> nat" where
  "threads_left n N b ws = (\<Sum>j\<in>{1..n}. thread_steps n N (length (region n b j)) (ws j))"

definition steps_left :: "nat \<Rightarrow> nat \<Rightarrow> board \<Rightarrow> life \<Rightarrow> nat" where
  "steps_left n N b s = main_steps n N (cGen s) (parent s) + threads_left n N b (workers s)"

lemma threads_left_less:
  assumes "j \<in> {1..n}"
    and "thread_steps n N (length (region n b j)) w < thread_steps n N (length (region n b j)) (ws j)"
  shows "threads_left n N b (ws(j := w)) < threads_left n N b ws"
  unfolding threads_left_def using assms by (intro sum_strict_mono_ex1) auto

lemma thread_step_less:
  assumes ok: "threads_ok n N" and inv: "mail_inv n N s" "board_inv n N b s"
    and step: "life_step n (gens_upto N) isPr s t" and p: "parent t = parent s" "cGen t = cGen s"
  shows "\<exists>j\<in>{1..n}. \<exists>w. workers t = (workers s)(j := w) \<and>
    thread_steps n N (length (region n b j)) w < thread_steps n N (length (region n b j)) (workers s j)"
proof -
  note B = board_invD [OF inv(2)]
  have nN: "0 < n" "0 < N" using ok by (auto simp: threads_ok_def)
  have pok: "parent_ok n N (parent s) (cGen s) (allDoneCounter s) (genDoneCounter s)"
    using mail_invD(2) [OF inv(1)] .
  from step show ?thesis
  proof (cases rule: life_step.cases)
    case (worker_range j message m)
    then have j: "j \<in> {1..n}" by simp
    then show ?thesis using worker_range nN
      by (intro bexI [OF _ j] exI conjI) (auto simp: next_gen_def)
  next
    case (worker_go j f t' gen message m)
    then have j: "j \<in> {1..n}" by simp
    have "gen \<le> N" "cells_of (columnSize (board s)) f t' = region n b j"
      using mail_invD(3) [OF inv(1) j] worker_go B(2,3) by (auto simp: worker_ok_defs region_def)
    then show ?thesis using worker_go
      by (intro bexI [OF _ j] exI conjI) (auto simp: Suc_diff_le)
  next
    case (worker_gendone j f t' gen message m)
    then have j: "j \<in> {1..n}" by simp
    then show ?thesis using worker_gendone
      by (intro bexI [OF _ j] exI conjI) (auto simp: next_gen_def Suc_diff_le)
  next
    case (worker_update j f t' gen q qs)
    then show ?thesis by (intro bexI [of _ j] exI conjI) auto
  next
    case (worker_updated j f t' gen)
    then show ?thesis by (intro bexI [of _ j] exI conjI) auto
  next
    case (worker_lock j gen)
    then show ?thesis by (intro bexI [of _ j] exI conjI) auto
  next
    case (worker_count j gen)
    then show ?thesis by (intro bexI [of _ j] exI conjI) auto
  next
    case (worker_unlock j gen)
    then show ?thesis by (intro bexI [of _ j] exI conjI) auto
  next
    case (worker_test j gen)
    then show ?thesis by (intro bexI [of _ j] exI conjI) auto
  next
    case (worker_post j gen k)
    then show ?thesis by (intro bexI [of _ j] exI conjI) auto
  next
    case (worker_posted j gen)
    then show ?thesis by (intro bexI [of _ j] exI conjI) auto
  next
    case (worker_wait j gen)
    then show ?thesis by (intro bexI [of _ j] exI conjI) auto
  next
    case (worker_alldone j gen message m)
    then show ?thesis by (intro bexI [of _ j] exI conjI) auto
  qed (use p pok in \<open>auto split: if_splits\<close>)
qed

lemma main_step_less:
  assumes ok: "threads_ok n N" and inv: "mail_inv n N s"
    and step: "life_step n (gens_upto N) isPr s t" and p: "\<not> (parent t = parent s \<and> cGen t = cGen s)"
  shows "workers t = workers s \<and> main_steps n N (cGen t) (parent t) < main_steps n N (cGen s) (parent s)"
proof -
  have nN: "0 < n" "0 < N" using ok by (auto simp: threads_ok_def)
  have pok: "parent_ok n N (parent s) (cGen s) (allDoneCounter s) (genDoneCounter s)"
    using mail_invD(2) [OF inv] .
  from step show ?thesis
    by (cases rule: life_step.cases)
      (use p pok nN in \<open>auto simp: Suc_diff_le Suc_diff_Suc split: if_splits\<close>)
qed

lemma steps_left_decreases:
  assumes "threads_ok n N" "life_inv n N isPr b s" "life_step n (gens_upto N) isPr s t"
  shows "steps_left n N b t < steps_left n N b s"
proof (cases "parent t = parent s \<and> cGen t = cGen s")
  case True
  have "mail_inv n N s" "board_inv n N b s" using assms(2) by (auto simp: life_inv_def)
  from thread_step_less [OF assms(1) this assms(3)] True
  obtain j w where "j \<in> {1..n}" "workers t = (workers s)(j := w)"
    "thread_steps n N (length (region n b j)) w < thread_steps n N (length (region n b j)) (workers s j)"
    by blast
  then show ?thesis using threads_left_less [of j n N b w "workers s"] True
    by (simp add: steps_left_def)
next
  case False
  then show ?thesis
    using main_step_less [OF assms(1) _ assms(3)] assms(2) by (simp add: steps_left_def life_inv_def)
qed

lemma run_length:
  assumes "threads_ok n N" "board_ok b" "life_run n (gens_upto N) isPr b k s"
  shows "k + steps_left n N b s \<le> steps_left n N b (life_init b)"
  using assms(3)
proof (induction rule: life_run.induct)
  case (life_next k s t)
  then show ?case
    using steps_left_decreases [OF assms(1) life_run_inv [OF assms(1,2) life_next(1)] life_next(2)]
    by simp
qed simp

section \<open>The barrier lets every thread through\<close>

fun inside :: "lworker \<Rightarrow> bool" where
  "inside (LCount gen) = True"
| "inside (LUnlock gen) = True"
| "inside w = False"

fun passed :: "nat \<Rightarrow> lworker \<Rightarrow> bool" where
  "passed N (LAllDone gen) = True"
| "passed N (LExit gen) = (gen = N + 1)"
| "passed N w = False"

fun testing :: "lworker \<Rightarrow> bool" where
  "testing (LUnlock gen) = True"
| "testing (LTest gen) = True"
| "testing w = False"

fun posts :: "lworker \<Rightarrow> nat" where
  "posts (LPost gen k) = k"
| "posts w = 0"

definition credits :: "nat \<Rightarrow> nat \<Rightarrow> life \<Rightarrow> int" where
  "credits n N s = int (alldone_sem s) + tally n (passed N) (workers s)
     + (\<Sum>j\<in>{1..n}. int (posts (workers s j)))"

fun joined :: "lparent \<Rightarrow> nat \<Rightarrow> bool" where
  "joined (PJoin i) j = (j < i)"
| "joined PDone j = True"
| "joined p j = False"

text \<open>
  The mutex of the counter; when the last thread has been counted, it is still on its way to the
  posts or there are enough posts for all; a joined thread has exited.
\<close>

definition progress_inv :: "nat \<Rightarrow> nat \<Rightarrow> life \<Rightarrow> bool" where
  "progress_inv n N s \<longleftrightarrow>
     int (gendone_sem s) + tally n inside (workers s) = 1 \<and>
     (barrierCount s < n \<or> (\<exists>j\<in>{1..n}. testing (workers s j)) \<or> int n + 1 \<le> credits n N s) \<and>
     (\<forall>j\<in>{1..n}. joined (parent s) j \<longrightarrow> (\<exists>gen. workers s j = LExit gen))"

lemma posts_upd:
  fixes n :: nat
  shows "j \<in> {1..n} \<Longrightarrow> (\<Sum>k\<in>{1..n}. int (posts ((ws(j := w)) k))) =
     (\<Sum>k\<in>{1..n}. int (posts (ws k))) - int (posts (ws j)) + int (posts w)"
  using sum_fun_upd [of "{1..n}" j "\<lambda>_ w. int (posts w)" ws w] by simp

lemma credits_upd:
  assumes "j \<in> {1..n}" "workers t = (workers s)(j := w)"
  shows "credits n N t = credits n N s + (int (alldone_sem t) - int (alldone_sem s))
    + (of_bool (passed N w) - of_bool (passed N (workers s j))) + (int (posts w) - int (posts (workers s j)))"
  unfolding credits_def assms(2) tally_upd [OF assms(1)] posts_upd [OF assms(1)] by simp

lemma progress_inv_worker:
  assumes inv: "progress_inv n N s" and j: "j \<in> {1..n}" and w: "workers t = (workers s)(j := w)"
    and sem: "int (gendone_sem t) + of_bool (inside w) = int (gendone_sem s) + of_bool (inside (workers s j))"
    and p: "parent t = parent s" "\<And>gen. workers s j \<noteq> LExit gen"
    and bc: "barrierCount t = barrierCount s \<or> testing w"
    and te: "testing (workers s j) \<Longrightarrow> testing w \<or> barrierCount s < n \<or> int n + 1 \<le> int (posts w)"
    and cr: "int (alldone_sem s) + of_bool (passed N (workers s j)) + int (posts (workers s j))
      \<le> int (alldone_sem t) + of_bool (passed N w) + int (posts w)"
  shows "progress_inv n N t"
proof -
  have "int (gendone_sem t) + tally n inside (workers t) = 1"
    using inv sem w tally_upd [OF j, of inside "workers s" w] by (simp add: progress_inv_def)
  moreover have "barrierCount t < n \<or> (\<exists>j\<in>{1..n}. testing (workers t j)) \<or> int n + 1 \<le> credits n N t"
  proof (cases "testing w \<or> barrierCount t < n")
    case True
    then show ?thesis using j w by (intro disjI2 [THEN disjI1] | auto)+
  next
    case False
    then have bc': "barrierCount t = barrierCount s" "\<not> barrierCount s < n" using bc by auto
    have le: "credits n N s \<le> credits n N t" using credits_upd [OF j w] cr by simp
    show ?thesis
    proof (cases "testing (workers s j)")
      case True
      have "0 \<le> (\<Sum>k\<in>{1..n} - {j}. int (posts (workers t k)))" by (rule sum_nonneg) simp
      then have "int (posts w) \<le> (\<Sum>k\<in>{1..n}. int (posts (workers t k)))"
        using sum.remove [OF _ j, of "\<lambda>k. int (posts (workers t k))"] w by simp
      then have "int (posts w) \<le> credits n N t"
        using tally_bounds(1) [of n "passed N" "workers t"] by (simp add: credits_def)
      then show ?thesis using te [OF True] False bc' by auto
    next
      case no: False
      then show ?thesis
        using inv le bc' w by (auto simp: progress_inv_def)
    qed
  qed
  moreover have "\<exists>gen. workers t k = LExit gen" if "k \<in> {1..n}" "joined (parent t) k" for k
  proof -
    have "\<exists>gen. workers s k = LExit gen"
      using inv that p(1) unfolding progress_inv_def by auto
    then show ?thesis using p(2) w by (cases "k = j") auto
  qed
  ultimately show ?thesis unfolding progress_inv_def by blast
qed

lemma progress_inv_step:
  assumes ok: "threads_ok n N" and inv: "mail_inv n N s" "barrier_inv n N s" "progress_inv n N s"
    and step: "life_step n (gens_upto N) isPr s t"
  shows "progress_inv n N t"
proof -
  have full: "barrierCount s \<le> n"
    using barrier_invD(1) [OF inv(2)] tally_bounds(2) [of n "counted N" "workers s"] by simp
  note W = progress_inv_worker [OF inv(3)]
  from step show ?thesis
  proof (cases rule: life_step.cases)
    case (worker_range j message m)
    then show ?thesis by (intro W [of j]) (auto simp: next_gen_def split: if_splits)
  next
    case (worker_go j f t' gen message m)
    then show ?thesis
      using mail_invD(3) [OF inv(1), of j] by (intro W [of j]) (auto simp: worker_ok_defs split: if_splits)
  next
    case (worker_gendone j f t' gen message m)
    then show ?thesis by (intro W [of j]) (auto simp: next_gen_def split: if_splits)
  next
    case (worker_alldone j gen message m)
    then show ?thesis
      using mail_invD(3) [OF inv(1), of j] by (intro W [of j]) (auto simp: worker_ok_defs split: if_splits)
  next
    case (worker_update j f t' gen q qs)
    then show ?thesis using full by (intro W [of j]) (auto split: if_splits)
  next
    case (worker_updated j f t' gen)
    then show ?thesis using full by (intro W [of j]) (auto split: if_splits)
  next
    case (worker_lock j gen)
    then show ?thesis using full by (intro W [of j]) (auto split: if_splits)
  next
    case (worker_count j gen)
    then show ?thesis using full by (intro W [of j]) (auto split: if_splits)
  next
    case (worker_unlock j gen)
    then show ?thesis using full by (intro W [of j]) (auto split: if_splits)
  next
    case (worker_test j gen)
    then show ?thesis using full by (intro W [of j]) (auto split: if_splits)
  next
    case (worker_post j gen k)
    then show ?thesis using full by (intro W [of j]) (auto split: if_splits)
  next
    case (worker_posted j gen)
    then show ?thesis using full by (intro W [of j]) (auto split: if_splits)
  next
    case (worker_wait j gen)
    then show ?thesis using full by (intro W [of j]) (auto split: if_splits)
  next
    case (parent_join i gen)
    have "\<exists>gen. workers t k = LExit gen" if k: "k \<in> {1..n}" "joined (parent t) k" for k
    proof (cases "k = i")
      case False
      then have "k < i" using k mail_invD(2) [OF inv(1)] parent_join by (auto split: if_splits)
      then have "\<exists>gen. workers s k = LExit gen"
        using inv(3) k(1) parent_join(2) unfolding progress_inv_def by (metis joined.simps(1))
      then show ?thesis using parent_join by simp
    qed (use parent_join in auto)
    moreover have "gendone_sem t = gendone_sem s" "barrierCount t = barrierCount s"
      "workers t = workers s" "credits n N t = credits n N s"
      using parent_join by (simp_all add: credits_def)
    ultimately show ?thesis using inv(3) unfolding progress_inv_def by metis
  qed (use inv(3) in \<open>auto simp: progress_inv_def credits_def split: if_splits\<close>)
qed

lemma progress_inv_run:
  assumes "threads_ok n N" "board_ok b" "life_run n (gens_upto N) isPr b k s"
  shows "progress_inv n N s"
  using assms(3)
proof (induction rule: life_run.induct)
  case life_start
  have "0 < n" using assms(1) by (simp add: threads_ok_def)
  then show ?case by (simp add: progress_inv_def life_init_def tally_def)
next
  case (life_next k s t)
  then show ?case
    using progress_inv_step [OF assms(1) _ _ _ life_next(2)] life_run_inv [OF assms(1,2) life_next(1)]
    by (auto simp: life_inv_def)
qed

section \<open>Where a run can stop\<close>

definition stuck :: "nat \<Rightarrow> nat \<Rightarrow> bool \<Rightarrow> life \<Rightarrow> bool" where
  "stuck n N isPr s \<longleftrightarrow> (\<forall>t. \<not> life_step n (gens_upto N) isPr s t)"

text \<open>A message for each type that a GO, STOP, GENDONE or ALLDONE step can send.\<close>

definition message_of :: "int \<Rightarrow> msg" where
  "message_of ty = \<lparr>iFrom = 0, mtype = ty, value1 = 0, value2 = 0\<rparr>"

lemma mtype_message_of [simp]: "mtype (message_of ty) = ty"
  by (simp add: message_of_def)

lemma can_put:
  assumes "mail_inv n N s" "threads_ok n N" "j \<le> n" "peek (mail s) j = None"
  obtains m where "sendMsg j message (mail s) = Some m"
proof -
  have "j \<le> nat MAXTHREAD_life" using assms(2,3) by (simp add: threads_ok_def)
  then show ?thesis using that mb.put_enabled [OF mail_invD(1) [OF assms(1)]] assms(4) by blast
qed

lemma can_get:
  assumes "mail_inv n N s" "threads_ok n N" "j \<le> n" "peek (mail s) j \<noteq> None"
  obtains message m where "recvMsg j (mail s) = Some (message, m)"
proof -
  have "j \<le> nat MAXTHREAD_life" using assms(2,3) by (simp add: threads_ok_def)
  then show ?thesis using that mb.get_enabled [OF mail_invD(1) [OF assms(1)]] assms(4) by blast
qed

text \<open>The blocked states of a thread.\<close>

lemma thread_stuck:
  assumes st: "stuck n N isPr s" and inv: "mail_inv n N s" and ok: "threads_ok n N" and j: "j \<in> {1..n}"
  shows "case workers s j of
      LRange \<Rightarrow> peek (mail s) j = None
    | LGo f t gen \<Rightarrow> peek (mail s) j = None
    | LDone f t gen \<Rightarrow> peek (mail s) 0 \<noteq> None
    | LBarrier gen \<Rightarrow> gendone_sem s = 0
    | LWait gen \<Rightarrow> alldone_sem s = 0
    | LAllDone gen \<Rightarrow> peek (mail s) 0 \<noteq> None
    | LExit gen \<Rightarrow> True
    | _ \<Rightarrow> False"
proof -
  have no: "\<not> life_step n (gens_upto N) isPr s t" for t using st by (simp add: stuck_def)
  have j': "1 \<le> j" "j \<le> n" using j by auto
  have get: "peek (mail s) j = None" if "workers s j = LRange \<or> (\<exists>f t gen. workers s j = LGo f t gen)"
  proof (rule ccontr)
    assume "peek (mail s) j \<noteq> None"
    then obtain message m where "recvMsg j (mail s) = Some (message, m)"
      using can_get [OF inv ok j'(2)] by blast
    then show False using that no worker_range [OF j'] worker_go [OF j'] by blast
  qed
  have put: "peek (mail s) 0 \<noteq> None"
    if "(\<exists>f t gen. workers s j = LDone f t gen) \<or> (\<exists>gen. workers s j = LAllDone gen)"
  proof
    assume e: "peek (mail s) 0 = None"
    obtain m m' where "sendMsg 0 (message_of GENDONE) (mail s) = Some m"
      "sendMsg 0 (message_of ALLDONE) (mail s) = Some m'"
      using can_put [OF inv ok le0 e] by metis
    then show False using that no worker_gendone [OF j'] worker_alldone [OF j'] mtype_message_of by metis
  qed
  show ?thesis
  proof (cases "workers s j")
    case (LUpd f t gen ps)
    then show ?thesis using no worker_update [OF j'] worker_updated [OF j'] by (cases ps) blast+
  next
    case (LPost gen k)
    then show ?thesis using no worker_post [OF j'] worker_posted [OF j'] by (cases k) blast+
  next
    case LFail
    then show ?thesis using mail_invD(3) [OF inv j] by (simp add: wok_def worker_ok_def)
  next
    case (LBarrier gen)
    then have "gendone_sem s = 0" using no worker_lock [OF j'] by blast
    with LBarrier show ?thesis by simp
  next
    case (LWait gen)
    then have "alldone_sem s = 0" using no worker_wait [OF j'] by blast
    with LWait show ?thesis by simp
  next
    case (LCount gen)
    then show ?thesis using no worker_count [OF j'] by blast
  next
    case (LUnlock gen)
    then show ?thesis using no worker_unlock [OF j'] by blast
  next
    case (LTest gen)
    then show ?thesis using no worker_test [OF j'] by blast
  qed (use get put in auto)
qed

text \<open>The blocked states of \<open>main\<close>.\<close>

lemma main_stuck:
  assumes st: "stuck n N isPr s" and inv: "mail_inv n N s" and ok: "threads_ok n N"
  shows "case parent s of
      PRange i \<Rightarrow> peek (mail s) (i + 1) \<noteq> None
    | PGo i \<Rightarrow> peek (mail s) i \<noteq> None
    | PRecv i \<Rightarrow> peek (mail s) 0 = None
    | PStop i \<Rightarrow> peek (mail s) i \<noteq> None
    | PJoin i \<Rightarrow> \<not> (\<exists>gen. workers s i = LExit gen)
    | PDone \<Rightarrow> True
    | _ \<Rightarrow> False"
proof -
  have no: "\<not> life_step n (gens_upto N) isPr s t" for t using st by (simp add: stuck_def)
  note P = mail_invD(2) [OF inv]
  show ?thesis
  proof (cases "parent s")
    case (PRange i)
    then have i: "i + 1 \<le> n" using P by simp
    have "peek (mail s) (i + 1) \<noteq> None"
    proof
      assume "peek (mail s) (i + 1) = None"
      then obtain m where "sendMsg (i + 1) (life_range_msg n (lineSize (board s)) i) (mail s) = Some m"
        by (rule can_put [OF inv ok i])
      with no parent_range [OF PRange] show False by blast
    qed
    with PRange show ?thesis by simp
  next
    case (PGo i)
    then have i: "i \<le> n" using P by simp
    have "peek (mail s) (i) \<noteq> None"
    proof
      assume "peek (mail s) (i) = None"
      then obtain m where "sendMsg (i) (message_of GO) (mail s) = Some m"
        by (rule can_put [OF inv ok i])
      with no parent_go [OF PGo mtype_message_of] show False by blast
    qed
    with PGo show ?thesis by simp
  next
    case (PStop i)
    then have i: "i \<le> n" using P by simp
    have "peek (mail s) (i) \<noteq> None"
    proof
      assume "peek (mail s) (i) = None"
      then obtain m where "sendMsg (i) (message_of STOP) (mail s) = Some m"
        by (rule can_put [OF inv ok i])
      with no parent_stop [OF PStop mtype_message_of] show False by blast
    qed
    with PStop show ?thesis by simp
  next
    case (PRecv i)
    have "peek (mail s) 0 = None"
    proof (rule ccontr)
      assume "peek (mail s) 0 \<noteq> None"
      then obtain message m where "recvMsg 0 (mail s) = Some (message, m)"
        by (rule can_get [OF inv ok le0])
      with no parent_recv [OF PRecv] show False by blast
    qed
    with PRecv show ?thesis by simp
  next
    case PCheck
    then show ?thesis using no parent_check_done parent_check_stop parent_check_go by blast
  next
    case PShow
    then show ?thesis using no parent_show by blast
  next
    case PUpdate
    then show ?thesis using no parent_update by blast
  next
    case PEnd
    then show ?thesis using no parent_end by blast
  next
    case (PJoin i)
    then have "\<not> (\<exists>gen. workers s i = LExit gen)" using no parent_join [OF PJoin] by blast
    with PJoin show ?thesis by simp
  qed simp
qed

text \<open>Threads that are all done with their generations get through the barrier.\<close>

lemma stuck_behind_barrier:
  assumes st: "stuck n N isPr s" and inv: "mail_inv n N s" "barrier_inv n N s" "progress_inv n N s"
    and ok: "threads_ok n N" and fin: "\<And>j. j \<in> {1..n} \<Longrightarrow> fin (workers s j) = N" and j: "j \<in> {1..n}"
  shows "workers s j = LAllDone (N + 1) \<and> peek (mail s) 0 \<noteq> None \<or> workers s j = LExit (N + 1)"
proof -
  note S = thread_stuck [OF st inv(1) ok]
  have zone: "workers s k \<in> {LBarrier (N + 1), LWait (N + 1), LAllDone (N + 1), LExit (N + 1)}"
    if k: "k \<in> {1..n}" for k
    using S [OF k] mail_invD(3) [OF inv(1) k] fin [OF k] ok
    by (cases "workers s k") (auto simp: worker_ok_defs threads_ok_def)
  have idle: "\<not> inside (workers s k)" "posts (workers s k) = 0" "\<not> testing (workers s k)"
    if k: "k \<in> {1..n}" for k
    using zone [OF k] by auto
  have none: "tally n inside (workers s) = 0" "(\<Sum>k\<in>{1..n}. int (posts (workers s k))) = 0"
    unfolding tally_def using idle by (intro sum.neutral; simp)+
  have "gendone_sem s \<noteq> 0" using inv(3) none(1) by (auto simp: progress_inv_def)
  then have no_lock: "workers s k \<noteq> LBarrier (N + 1)" if "k \<in> {1..n}" for k
    using S [OF that] by auto
  have "counted N (workers s k)" if "k \<in> {1..n}" for k
    using zone [OF that] no_lock [OF that] by auto
  then have "tally n (counted N) (workers s) = (\<Sum>k\<in>{1..n}. 1)"
    unfolding tally_def by (intro sum.cong) auto
  then have "barrierCount s = n" using barrier_invD(1) [OF inv(2)] by simp
  then have "int n + 1 \<le> credits n N s"
    using inv(3) idle(3) unfolding progress_inv_def by (metis less_irrefl)
  then have "0 < int (alldone_sem s)"
    using none(2) tally_bounds(2) [of n "passed N" "workers s"] by (simp add: credits_def)
  then have "workers s j \<noteq> LWait (N + 1)" using S [OF j] by auto
  then show ?thesis using zone [OF j] no_lock [OF j] S [OF j] by auto
qed

text \<open>While \<open>main\<close> sends it is never blocked for good, and while it receives neither.\<close>

lemma not_stuck_sending:
  assumes st: "stuck n N isPr s" and inv: "mail_inv n N s" and ok: "threads_ok n N"
  shows "parent s \<noteq> PRange i" "parent s \<noteq> PGo i" "parent s \<noteq> PStop i"
proof -
  note P = mail_invD(2) [OF inv]
  note M = main_stuck [OF st inv ok]
  have nN: "0 < n" using ok by (simp add: threads_ok_def)
  show "parent s \<noteq> PRange i"
  proof
    assume p: "parent s = PRange i"
    then have i: "i + 1 \<in> {1..n}" using P by simp
    show False using p M mail_invD(3) [OF inv i] by (auto simp: worker_ok_defs split: lworker.splits)
  qed
  show "parent s \<noteq> PGo i"
  proof
    assume p: "parent s = PGo i"
    then have i: "i \<in> {1..n}" "cGen s \<le> N" using P by auto
    show False using p M i mail_invD(3,4) [OF inv i(1)] thread_stuck [OF st inv ok i(1)]
      by (cases "workers s i") (auto simp: worker_ok_defs)
  qed
  show "parent s \<noteq> PStop i"
  proof
    assume p: "parent s = PStop i"
    then have i: "i \<in> {1..n}" "cGen s \<le> N" using P by auto
    show False using p M i mail_invD(3,4) [OF inv i(1)] thread_stuck [OF st inv ok i(1)]
      by (cases "workers s i") (auto simp: worker_ok_defs)
  qed
qed

lemma not_stuck_receiving:
  assumes st: "stuck n N isPr s" and inv: "life_inv n N isPr b s" "progress_inv n N s"
    and ok: "threads_ok n N"
  shows "parent s \<noteq> PRecv i"
proof
  assume p: "parent s = PRecv i"
  have I: "mail_inv n N s" "count_inv n N s" "barrier_inv n N s" using inv(1) by (auto simp: life_inv_def)
  have i: "1 \<le> i" "i \<le> n" "cGen s \<le> N" "cGen s = N \<Longrightarrow> allDoneCounter s = i - 1"
    using mail_invD(2) [OF I(1)] p by auto
  have e: "peek (mail s) 0 = None" using main_stuck [OF st I(1) ok] p by simp
  have G: "gosent n (parent s) (cGen s) (allDoneCounter s) j = cGen s + 1"
    "\<not> stopsent n (parent s) (allDoneCounter s) j" "rangesent (parent s) j" for j
    using p by simp_all
  show False
  proof (cases "cGen s < N")
    case True
    have "finsum n (workers s) < int n * int (cGen s + 1)"
      using I(2) p e True i by (simp add: count_inv_def in_box0_def algebra_simps of_nat_diff)
    then obtain j where j: "j \<in> {1..n}" "fin (workers s j) < cGen s + 1" using finsum_less by blast
    show False
      using mail_invD(3,4) [OF I(1) j(1)] thread_stuck [OF st I(1) ok j(1)] j(2) e G True p
      by (cases "workers s j") (auto simp: worker_ok_defs)
  next
    case False
    then have N: "cGen s = N" using i(3) by simp
    have "fin (workers s j) = N" if "j \<in> {1..n}" for j
      using mail_invD(4) [OF I(1) that] fin_le(1) [OF mail_invD(3) [OF I(1) that]] p N by simp
    then have "workers s j = LExit (N + 1)" if "j \<in> {1..n}" for j
      using stuck_behind_barrier [OF st I(1,3) inv(2) ok _ that] e by blast
    then have "tally n (\<lambda>w. w = LExit (N + 1)) (workers s) = (\<Sum>k\<in>{1..n}. 1)"
      unfolding tally_def by (intro sum.cong) auto
    then show False using I(2) e i N by (simp add: count_inv_def in_box0_def)
  qed
qed

lemma early_end:
  assumes inv: "output_inv n N isPr b s" "mail_inv n N s" and p: "parent s \<in> {PDone} \<union> range PJoin"
    and a: "allDoneCounter s \<noteq> n"
  shows "over b (cGen s - 1)" "\<And>c. c < cGen s - 1 \<Longrightarrow> \<not> over b c" "1 \<le> cGen s" "cGen s \<le> N"
    "allDoneCounter s = 0"
  using inv(1) mail_invD(2) [OF inv(2)] p a by (auto simp: output_inv_def dturns_def)

text \<open>A thread \<open>main\<close> cannot join is one of several that want to send their ALLDONE.\<close>

lemma stuck_joining:
  assumes st: "stuck n N isPr s" and inv: "life_inv n N isPr b s" "progress_inv n N s"
    and ok: "threads_ok n N" and p: "parent s = PJoin i"
  shows "2 \<le> n \<and> cGen s = N \<and> allDoneCounter s = 0 \<and> workers s i = LAllDone (N + 1)"
proof -
  have I: "mail_inv n N s" "count_inv n N s" "barrier_inv n N s" "output_inv n N isPr b s"
    using inv(1) by (auto simp: life_inv_def)
  have i: "i \<in> {1..n}" "1 \<le> cGen s" "cGen s \<le> N" using mail_invD(2) [OF I(1)] p by auto
  have no: "\<not> (\<exists>gen. workers s i = LExit gen)" using main_stuck [OF st I(1) ok] p by simp
  have a: "allDoneCounter s \<noteq> n"
  proof
    assume "allDoneCounter s = n"
    then have "int n \<le> tally n (\<lambda>w. w = LExit (N + 1)) (workers s)"
      using I(2) by (auto simp: count_inv_def in_box0_def split: option.splits)
    then have "tally n (\<lambda>w. w = LExit (N + 1)) (workers s) = int n"
      using tally_bounds(2) [of n "\<lambda>w. w = LExit (N + 1)" "workers s"] by linarith
    then show False using tally_all i(1) no by blast
  qed
  then have a0: "allDoneCounter s = 0" using early_end(5) [OF I(4,1) _ a] p by simp
  have G: "gosent n (parent s) (cGen s) (allDoneCounter s) j = cGen s" "rangesent (parent s) j"
    "stopsent n (parent s) (allDoneCounter s) j" for j
    using p a by simp_all
  have N: "cGen s = N"
    using mail_invD(3,4) [OF I(1) i(1)] thread_stuck [OF st I(1) ok i(1)] no i p G
    by (cases "workers s i") (auto simp: worker_ok_defs)
  have fin: "fin (workers s j) = N" if "j \<in> {1..n}" for j
    using mail_invD(4) [OF I(1) that] fin_le(1) [OF mail_invD(3) [OF I(1) that]] p N by simp
  have w: "workers s i = LAllDone (N + 1)" "peek (mail s) 0 \<noteq> None"
    using stuck_behind_barrier [OF st I(1,3) inv(2) ok fin i(1)] no by auto
  then obtain m where m: "peek (mail s) 0 = Some m" by blast
  have "mtype m \<noteq> GENDONE"
  proof
    assume "mtype m = GENDONE"
    then show False
      using I(2) finsum_const [of n "workers s" N] fin m p N by (simp add: count_inv_def in_box0_def)
  qed
  then have "tally n (\<lambda>w. w = LExit (N + 1)) (workers s) = 1"
    using I(2) a0 m mail_invD(5) [OF I(1) m] by (simp add: count_inv_def in_box0_def)
  then obtain j where "j \<in> {1..n}" "workers s j = LExit (N + 1)"
    using tally_pos [of n "\<lambda>w. w = LExit (N + 1)" "workers s"] by auto
  then have "2 \<le> n" using i(1) w(1) by (cases "i = j") auto
  with w N a0 show ?thesis by simp
qed

section \<open>Runs that exist\<close>

lemma stuck_parent:
  assumes "threads_ok n N" "board_ok b" "life_run n (gens_upto N) isPr b k s" "\<forall>t. \<not> life_step n (gens_upto N) isPr s t"
  shows "parent s = PDone \<or> (\<exists>i. parent s = PJoin i)"
proof -
  have st: "stuck n N isPr s" using assms(4) by (simp add: stuck_def)
  have inv: "life_inv n N isPr b s" "progress_inv n N s"
    using life_run_inv [OF assms(1-3)] progress_inv_run [OF assms(1-3)] by auto
  then have I: "mail_inv n N s" by (simp add: life_inv_def)
  show ?thesis
    using main_stuck [OF st I assms(1)] not_stuck_sending [OF st I assms(1)]
      not_stuck_receiving [OF st inv assms(1)] by (cases "parent s") auto
qed

lemma stuck_has_ended:
  assumes "threads_ok n N" "board_ok b" "life_run n (gens_upto N) isPr b k s" "\<forall>t. \<not> life_step n (gens_upto N) isPr s t"
  shows "ended s \<noteq> None"
  using stuck_parent [OF assms] life_run_inv [OF assms(1-3)] by (auto simp: life_inv_def output_inv_def)

text \<open>Some run goes as far as it can.\<close>

lemma ex_stuck_run:
  assumes "threads_ok n N" "board_ok b"
  shows "\<exists>k s. life_run n (gens_upto N) isPr b k s \<and> (\<forall>t. \<not> life_step n (gens_upto N) isPr s t)"
proof (rule ccontr)
  assume "\<not> ?thesis"
  then have more: "\<exists>t. life_step n (gens_upto N) isPr s t" if "life_run n (gens_upto N) isPr b k s" for k s
    using that by blast
  have "\<exists>s. life_run n (gens_upto N) isPr b k s" for k
  proof (induction k)
    case 0
    show ?case using life_start by blast
  next
    case (Suc k)
    then show ?case using more life_next by blast
  qed
  then obtain s where "life_run n (gens_upto N) isPr b (Suc (steps_left n N b (life_init b))) s" by blast
  then show False using run_length [OF assms] by fastforce
qed

definition empty_board :: "int \<Rightarrow> board" where
  "empty_board l = \<lparr>before = (\<lambda>_. 0), after = (\<lambda>_. 0), lineSize = l, columnSize = 1\<rparr>"

lemma threads_ok_small: "0 < n \<Longrightarrow> n \<le> 10 \<Longrightarrow> 0 < N \<Longrightarrow> threads_ok n N"
  by (simp add: threads_ok_def MAXTHREAD_life_def)

lemma board_ok_small: "board_ok blinker" "0 \<le> l \<Longrightarrow> board_ok (empty_board l)"
  by (simp_all add: board_ok_def blinker_def empty_board_def MAXGRID_def)

text \<open>A run in which the only thread has received its first GO.\<close>

lemma updating_run:
  "\<exists>s. life_run 1 (gens_upto 1) False (empty_board 1) 5 s \<and> workers s 1 = LUpd 0 0 1 [(0, 0)]"
proof -
  let ?b = "empty_board 1" and ?R = "life_run 1 (gens_upto 1) False (empty_board 1)"
  have ok: "threads_ok 1 1" "board_ok ?b" using threads_ok_small board_ok_small(2) by simp_all
  have minv: "mail_inv 1 1 s" if "?R k s" for k s
    using life_run_inv [OF ok that] by (simp add: life_inv_def)
  let ?s0 = "life_init ?b"
  have r0: "?R 0 ?s0" by (rule life_start)
  have e0: "peek (mail ?s0) 1 = None" by (simp add: life_init_def init_mailboxes_def peek_def)
  have f0: "parent ?s0 = PRange 0" "workers ?s0 = (\<lambda>_. LRange)" "board ?s0 = ?b" "cGen ?s0 = 0"
    by (simp_all add: life_init_def)
  obtain m1 where m1: "sendMsg (0 + 1) (life_range_msg 1 (lineSize (board ?s0)) 0) (mail ?s0) = Some m1"
    using can_put [OF minv [OF r0] ok(1), of 1] e0 by auto
  let ?s1 = "?s0\<lparr>mail := m1, parent := if 0 + 1 < (1::nat) then PRange (0 + 1) else PShow\<rparr>"
  have r1: "?R (Suc 0) ?s1" by (rule life_next [OF r0 parent_range [OF f0(1) m1]])
  have p1: "peek m1 1 = Some (life_range_msg 1 1 0)"
    using main_puts(3) [OF m1 minv [OF r0] ok(1)] f0(3) by (simp add: empty_board_def)
  obtain m2 where m2: "recvMsg 1 (mail ?s1) = Some (life_range_msg 1 1 0, m2)"
    using can_get [OF minv [OF r1] ok(1), of 1] p1
      thread_gets(1) [of 1 ?s1, OF _ minv [OF r1] ok(1)] by fastforce
  obtain s2 where r2: "?R (Suc (Suc 0)) s2" and s2: "workers s2 = (\<lambda>_. LRange)(1 := LGo 0 0 1)"
    "parent s2 = PShow" "mail s2 = m2" "board s2 = ?b"
    using life_next [OF r1 worker_range [OF _ _ _ m2]] f0
    by (simp add: next_gen_def life_range_msg_def)
  have p2: "peek m2 1 = None" using thread_gets(3) [OF m2 minv [OF r1] ok(1)] by simp
  obtain s3 where r3: "?R (Suc (Suc (Suc 0))) s3" and s3: "workers s3 = workers s2"
    "parent s3 = PGo 1" "mail s3 = m2" "board s3 = ?b"
    using life_next [OF r2 parent_show [OF s2(2)]] s2 by simp
  obtain m4 where m4: "sendMsg 1 (message_of GO) (mail s3) = Some m4"
    using can_put [OF minv [OF r3] ok(1), of 1] p2 s3(3) by auto
  obtain s4 where r4: "?R (Suc (Suc (Suc (Suc 0)))) s4" and s4: "workers s4 = workers s2"
    "mail s4 = m4" "board s4 = ?b"
    using life_next [OF r3 parent_go [OF s3(2) mtype_message_of m4]] s3 by simp
  have p4: "peek m4 1 = Some (message_of GO)" using main_puts(3) [OF m4 minv [OF r3] ok(1)] by simp
  obtain m5 where m5: "recvMsg 1 (mail s4) = Some (message_of GO, m5)"
    using can_get [OF minv [OF r4] ok(1), of 1] p4 s4(2)
      thread_gets(1) [of 1 s4, OF _ minv [OF r4] ok(1)] by fastforce
  have w4: "workers s4 1 = LGo 0 0 1" using s4(1) s2(1) by simp
  have "cells_of (columnSize (board s4)) 0 0 = [(0, 0)]"
    by (simp add: s4(3) empty_board_def cells_of_def)
  then show ?thesis
    using life_next [OF r4 worker_go [OF _ _ w4 m5]] by (simp add: eval_nat_numeral) fastforce
qed

section \<open>The result of a run\<close>

lemma run_prints_sequential:
  assumes "threads_ok n N" "board_ok b" "life_run n (gens_upto N) isPr b k s" "ended s = Some (gens, M)"
  shows "improper s = 0 \<and>
    snd (sequential_life N 0 b) = (gens, M) \<and>
    shown s = (if isPr then fst (sequential_life N 0 b) else [])"
proof -
  have inv: "mail_inv n N s" "output_inv n N isPr b s"
    using life_run_inv [OF assms(1-3)] by (auto simp: life_inv_def)
  have p: "parent s \<in> {PDone} \<union> range PJoin"
    using inv(2) assms(4) by (auto simp: output_inv_def split: if_splits)
  have g: "1 \<le> cGen s" "cGen s \<le> N" "allDoneCounter s = n \<Longrightarrow> cGen s = N"
    using mail_invD(2) [OF inv(1)] p assms(1) by (auto simp: threads_ok_def)
  have res: "gens = wrap32 (int (cGen s))" "M = (if allDoneCounter s = n then picture b (before (bseq b N))
      else picture b (after (update_all (bseq b (dturns n s)))))"
    using inv(2) assms(4) p by (auto simp: output_inv_def)
  have sh: "shown s = (if isPr then map (frame b)
      [0..<frames n (parent s) (cGen s) (allDoneCounter s)] else [])"
    using inv(2) by (simp add: output_inv_def)
  have not_over: "\<not> over b c" if "c < dturns n s" for c
    using inv(2) that by (auto simp: output_inv_def)
  show ?thesis
  proof (cases "allDoneCounter s = n")
    case True
    have d: "dturns n s = N" "frames n (parent s) (cGen s) (allDoneCounter s) = N + 1"
      using p True g by (auto simp: dturns_def)
    have "sequential_life N 0 (bseq b 0) =
        (map (frame b) [0..<0 + N + 1], wrap32 (int (0 + N)), picture b (after (bseq b (0 + N))))"
      using not_over d by (intro sequential_life_full) auto
    moreover have "picture b (after (bseq b N)) = picture b (before (bseq b N))"
    proof -
      have b: "board_ok (bseq b (N - 1))" using assms(2) by (simp add: board_ok_def)
      have N: "bseq b N = turn (bseq b (N - 1))"
        using assms(1) bseq_Suc [of b "N - 1"] by (simp add: threads_ok_def)
      have "stale_on (bseq b N) {(i, c). on_board b i c}"
        unfolding N turn_def by (intro stale_after_copy) (auto simp: on_board_def)
      then show ?thesis
        unfolding picture_def by (intro printMatrix_cong) (auto simp: stale_on_def on_board_def)
    qed
    ultimately show ?thesis
      using res sh g True d mail_invD(6) [OF inv(1)] by (simp del: upt_Suc)
  next
    case False
    have d: "dturns n s + 1 = cGen s" "frames n (parent s) (cGen s) (allDoneCounter s) = cGen s"
      using p False g by (auto simp: dturns_def)
    have "over b (dturns n s)" using inv(2) p False by (auto simp: output_inv_def)
    then have "sequential_life N 0 (bseq b 0) =
        (map (frame b) [0..<dturns n s + 1], wrap32 (int (cGen s)),
         picture b (after (update_all (bseq b (dturns n s)))))"
      unfolding d(1) [symmetric] using not_over d g by (intro sequential_life_over) auto
    then show ?thesis
      using res sh False d mail_invD(6) [OF inv(1)] by (simp del: upt_Suc)
  qed
qed

section \<open>Safety and the end of a run\<close>

text \<open>No thread is out of step with \<open>main\<close>, with the other threads or with its messages.\<close>

lemma access_exclusive:
  assumes "threads_ok n N" "board_ok b" "life_run n (gens_upto N) isPr b k s" "j \<in> {1..n}"
  shows "workers s j \<noteq> LFail \<and>
    (\<forall>f t gen p ps. workers s j = LUpd f t gen (p # ps) \<longrightarrow>
       parent s \<notin> {PShow, PCheck, PUpdate, PEnd} \<and> p \<in> set (region n b j) \<and>
       on_board b (fst p) (snd p) \<and>
       (\<forall>i\<in>{1..n}. i \<noteq> j \<longrightarrow> (\<forall>f' t' gen' p' ps'. workers s i = LUpd f' t' gen' (p' # ps') \<longrightarrow> p' \<noteq> p)))"
proof -
  have inv: "mail_inv n N s" "board_inv n N b s"
    using life_run_inv [OF assms(1-3)] by (auto simp: life_inv_def)
  have own: "p \<in> set (region n b i)"
    if "i \<in> {1..n}" "workers s i = LUpd f t gen (p # ps)" for i f t gen p ps
    using board_invD(4) [OF inv(2) that(1)] that(2) by (simp add: region_ok_def)
  have "workers s j \<noteq> LFail"
    using mail_invD(3) [OF inv(1) assms(4)] by (auto simp: wok_def worker_ok_def)
  moreover have "parent s \<notin> {PShow, PCheck, PUpdate, PEnd}"
    if "workers s j = LUpd f t gen (p # ps)" for f t gen p ps
    using updating(2) [OF inv(1) assms(1,4), of f t gen "p # ps"] that by auto
  moreover have "p' \<noteq> p" if "workers s j = LUpd f t gen (p # ps)" "i \<in> {1..n}" "i \<noteq> j"
    "workers s i = LUpd f' t' gen' (p' # ps')" for f t gen p ps i f' t' gen' p' ps'
    using own [OF assms(4) that(1)] own [OF that(2,4)] that(3)
      region_disjoint [OF assms(2,4) that(2)] region_disjoint [OF assms(2) that(2) assms(4)]
    by (cases "i < j") auto
  moreover have "on_board b (fst p) (snd p)" if "workers s j = LUpd f t gen (p # ps)" for f t gen p ps
    using region_on_board [OF assms(2,4), of "fst p" "snd p"] own [OF assms(4) that] by simp
  ultimately show ?thesis using own [OF assms(4)] by (intro conjI allI impI ballI) metis+
qed

text \<open>
  The deadlock is certain: with at least two threads, when the game is over for the first
  time exactly at the last generation, the program prints its result and never finishes, because
  \<open>main\<close> leaves its loop with STOP messages no thread will read, while the threads, past their
  loop, each want to send an ALLDONE to a mailbox that nobody reads.
\<close>

lemma early_stop_at_last_generation_hangs:
  assumes "threads_ok n N" "board_ok b" "2 \<le> n" "over b (N - 1)" "\<forall>c<N - 1. \<not> over b c"
    "life_run n (gens_upto N) isPr b k s"
  shows "parent s \<noteq> PDone"
proof
  assume p: "parent s = PDone"
  have inv: "mail_inv n N s" "count_inv n N s" "output_inv n N isPr b s" "progress_inv n N s"
    using life_run_inv [OF assms(1,2,6)] progress_inv_run [OF assms(1,2,6)] by (auto simp: life_inv_def)
  have N: "0 < N" using assms(1) by (simp add: threads_ok_def)
  have a: "allDoneCounter s \<noteq> n"
  proof
    assume a: "allDoneCounter s = n"
    then have "cGen s = N" using mail_invD(2) [OF inv(1)] p assms(3) by auto
    then have "dturns n s = N" using p a by (simp add: dturns_def)
    then have "\<not> over b (N - 1)" using inv(3) N by (simp add: output_inv_def)
    then show False using assms(4) by simp
  qed
  have E: "over b (cGen s - 1)" "1 \<le> cGen s" "cGen s \<le> N" "allDoneCounter s = 0"
    using early_end [OF inv(3,1) _ a] p by auto
  have "\<not> cGen s - 1 < N - 1" using E(1) assms(5) by blast
  then have g: "cGen s = N" using E(2,3) by simp
  have "workers s j = LExit (N + 1)" if j: "j \<in> {1..n}" for j
  proof -
    have "joined (parent s) j" using p by simp
    then obtain gen where gen: "workers s j = LExit gen"
      using inv(4) j unfolding progress_inv_def by blast
    have "N \<le> fin (workers s j)" using mail_invD(4) [OF inv(1) j] p g by simp
    then show ?thesis using mail_invD(3) [OF inv(1) j] gen by (auto simp: worker_ok_defs)
  qed
  then have "tally n (\<lambda>w. w = LExit (N + 1)) (workers s) = (\<Sum>k\<in>{1..n}. 1)"
    unfolding tally_def by (intro sum.cong) auto
  then have "int n = in_box0 ALLDONE s" using inv(2) E(4) by (simp add: count_inv_def)
  then show False
    using assms(3) by (auto simp: in_box0_def of_bool_def split: option.splits if_splits)
qed

lemma empty_board_over: "over (empty_board l) 0"
proof -
  let ?b = "empty_board l"
  have "cell (after (update_all ?b)) i c = 0" if on: "on_board ?b i c" for i c
  proof -
    have "cell (after (update_all ?b)) i c = new_cell ?b i c"
      unfolding update_all_def
      by (rule after_generation_cells [OF set_cells_of_board _ on]) (simp add: empty_board_def MAXGRID_def)
    also have "\<dots> = 0"
      by (simp add: new_cell_def getNumberOfNeighbors_def empty_board_def cell_def)
    finally show ?thesis .
  qed
  then have "isAllZero (update_all ?b)" by (simp add: isAllZero_iff on_board_def)
  then show ?thesis by (simp add: over_def)
qed

lemma stuck_states:
  assumes "threads_ok n N" "board_ok b" "life_run n (gens_upto N) isPr b k s" "\<forall>t. \<not> life_step n (gens_upto N) isPr s t"
  shows "ended s \<noteq> None \<and>
    (if 2 \<le> n \<and> over b (N - 1) \<and> (\<forall>c<N - 1. \<not> over b c)
     then \<exists>i\<in>{1..n}. parent s = PJoin i \<and> workers s i = LAllDone (N + 1)
     else parent s = PDone \<and> (\<forall>j\<in>{1..n}. \<exists>gen. workers s j = LExit gen))"
proof -
  have st: "stuck n N isPr s" using assms(4) by (simp add: stuck_def)
  have inv: "life_inv n N isPr b s" "progress_inv n N s"
    using life_run_inv [OF assms(1-3)] progress_inv_run [OF assms(1-3)] by auto
  have I: "mail_inv n N s" "output_inv n N isPr b s" using inv(1) by (auto simp: life_inv_def)
  have e: "ended s \<noteq> None" using stuck_has_ended [OF assms] .
  from stuck_parent [OF assms] show ?thesis
  proof
    assume p: "parent s = PDone"
    then have "\<not> (2 \<le> n \<and> over b (N - 1) \<and> (\<forall>c<N - 1. \<not> over b c))"
      using early_stop_at_last_generation_hangs [OF assms(1,2) _ _ _ assms(3)] by blast
    then show ?thesis using p e inv(2) by (auto simp: progress_inv_def)
  next
    assume "\<exists>i. parent s = PJoin i"
    then obtain i where i: "parent s = PJoin i" by blast
    have J: "2 \<le> n" "cGen s = N" "allDoneCounter s = 0" "workers s i = LAllDone (N + 1)"
      using stuck_joining [OF st inv assms(1) i] by auto
    have "over b (N - 1)" "\<forall>c<N - 1. \<not> over b c"
      using early_end(1,2) [OF I(2,1)] i J by auto
    moreover have "i \<in> {1..n}" using mail_invD(2) [OF I(1)] i by simp
    ultimately show ?thesis using e i J by auto
  qed
qed

text \<open>The steps of a run, for \<open>N\<close> generations.\<close>

definition run_bound :: "nat \<Rightarrow> nat \<Rightarrow> board \<Rightarrow> nat" where
  "run_bound n N b = (N + 1) * (2 * n + 4) + 3 * n + 2
     + (\<Sum>j\<in>{1..n}. N * (length (region n b j) + 3) + n + 9)"

lemma run_bounded:
  assumes "threads_ok n N" "board_ok b" "life_run n (gens_upto N) isPr b k s"
  shows "k \<le> run_bound n N b"
  using run_length [OF assms]
  by (simp add: steps_left_def threads_left_def life_init_def run_bound_def)

lemma over_unless_all_done:
  assumes "output_inv n N isPr b s" "mail_inv n N s" "ended s \<noteq> None" "0 < n"
  shows "(\<exists>c. over b c) \<or> cGen s = N"
proof -
  have p: "parent s \<in> {PDone} \<union> range PJoin"
    using assms(1,3) by (auto simp: output_inv_def split: if_splits)
  show ?thesis
    using early_end(1) [OF assms(1,2) p] mail_invD(2) [OF assms(2)] p assms(4)
    by (cases "allDoneCounter s = n") auto
qed

section \<open>The loop test of the program\<close>

text \<open>
  Two runs that differ in the loop test only are the same as long as the tests agree on the
  generations they are asked about: at most \<open>K\<close> in a run of \<open>K\<close> steps, and \<open>c + 2\<close> only where the game
  was not over with generation \<open>c\<close>.
\<close>

definition loop_agrees :: "board \<Rightarrow> nat \<Rightarrow> nat \<Rightarrow> (nat \<Rightarrow> bool) \<Rightarrow> bool" where
  "loop_agrees b m K go \<longleftrightarrow>
     (\<forall>g. 1 \<le> g \<and> g \<le> m + 1 \<and> g \<le> K \<and> (\<forall>c. c + 2 < g \<longrightarrow> \<not> over b c) \<longrightarrow> go g = (g \<le> m))"

lemma step_transfer:
  assumes "life_step n go isPr s t" "go 1 = go' 1"
    and "\<And>j f t g. j \<in> {1..n} \<Longrightarrow> workers s j = LDone f t g \<Longrightarrow> go (g + 1) = go' (g + 1)"
  shows "life_step n go' isPr s t"
  using assms(1)
proof (cases rule: life_step.cases)
  case (worker_range j message m)
  have "next_gen go f t 1 = next_gen go' f t 1" for f t using assms(2) by (simp add: next_gen_def)
  then show ?thesis
    unfolding worker_range(1) by (simp only: life_step.worker_range [OF worker_range(2-5)])
next
  case (worker_gendone j f t' gen message m)
  have "next_gen go f t' (gen + 1) = next_gen go' f t' (gen + 1)"
    using assms(3) [of j f t' gen] worker_gendone by (simp add: next_gen_def)
  then show ?thesis
    unfolding worker_gendone(1)
    by (simp only: life_step.worker_gendone [OF worker_gendone(2-6)])
qed (erule ssubst, rule life_step.intros; assumption)+

lemma wrap32_nat: "int g \<le> INT_MAX \<Longrightarrow> wrap32 (int g) = int g"
  by (simp add: in_int_def INT_MIN_def)

lemma wrap32_le: "wrap32 x \<le> INT_MAX"
  using in_int_wrap32 [of x] by (simp add: in_int_def)

lemma loop_agrees_exact: "int N < INT_MAX \<Longrightarrow> loop_agrees b N K (loop_goes_on N)"
  by (auto simp: loop_agrees_def loop_goes_on_def wrap32_nat)

lemma loop_agrees_endless:
  assumes "INT_MAX \<le> int N"
  shows "K \<le> m \<Longrightarrow> loop_agrees b m K (loop_goes_on N)"
    "over b c \<Longrightarrow> loop_agrees b (c + 2) K (loop_goes_on N)"
proof -
  have "loop_goes_on N g" for g
    using order_trans [OF wrap32_le assms] by (simp add: loop_goes_on_def)
  then show "K \<le> m \<Longrightarrow> loop_agrees b m K (loop_goes_on N)"
    "over b c \<Longrightarrow> loop_agrees b (c + 2) K (loop_goes_on N)"
    by (auto simp: loop_agrees_def) (metis Suc_leI add_2_eq_Suc' leD lessI linorder_le_less_linear)
qed

text \<open>What is known about a thread that has finished a generation, and about \<open>main\<close>.\<close>

fun at_gen :: "lworker \<Rightarrow> nat" where
  "at_gen (LGo f t g) = g"
| "at_gen (LUpd f t g ps) = g"
| "at_gen (LDone f t g) = g"
| "at_gen w = 0"

lemma at_gen_next: "at_gen (next_gen go f t g) \<le> g"
  by (simp add: next_gen_def)

lemma run_counts:
  assumes "life_run n go isPr b k s"
  shows "cGen s \<le> k \<and> (\<forall>j. at_gen (workers s j) \<le> k)"
  using assms
proof (induction rule: life_run.induct)
  case (life_next k s t)
  have old: "at_gen (workers s j) \<le> k" for j using life_next.IH by blast
  have "\<exists>j w. workers t = (workers s)(j := w) \<and> at_gen w \<le> Suc (at_gen (workers s j))"
    if "workers t \<noteq> workers s"
    using life_next(2) that
    by (cases rule: life_step.cases) (auto intro!: exI at_gen_next [THEN order_trans] simp: le_SucI)
  then have "at_gen (workers t j) \<le> Suc k" for j
    using old by (metis fun_upd_apply le_SucI order_trans Suc_le_mono)
  moreover have "cGen t \<le> Suc k"
    using life_next(2) life_next.IH by (cases rule: life_step.cases) auto
  ultimately show ?case by blast
qed (simp add: life_init_def)

lemma done_gen:
  assumes "threads_ok n m" "board_ok b" "life_run n (gens_upto m) isPr b k s"
    "j \<in> {1..n}" "workers s j = LDone f t g"
  shows "g \<le> k" "g \<le> m" "c + 2 < g + 1 \<Longrightarrow> \<not> over b c"
proof -
  have inv: "mail_inv n m s" "output_inv n m isPr b s"
    using life_run_inv [OF assms(1-3)] by (auto simp: life_inv_def)
  show "g \<le> k" using run_counts [OF assms(3)] assms(5) by (metis at_gen.simps(3))
  show "g \<le> m" using mail_invD(3) [OF inv(1) assms(4)] assms(5) by (simp add: worker_ok_defs)
  have "g = dturns n s + 1" using updating(1) [OF inv(1) assms(1,4), of f t g] assms(5) by blast
  then show "\<not> over b c" if "c + 2 < g + 1" using inv(2) that by (auto simp: output_inv_def)
qed

lemma agree_step:
  assumes ok: "threads_ok n m" "board_ok b" and run: "life_run n (gens_upto m) isPr b k s"
    and go: "loop_agrees b m K go" "k < K"
  shows "life_step n (gens_upto m) isPr s t \<longleftrightarrow> life_step n go isPr s t"
proof -
  have one: "go 1 = gens_upto m 1" using go ok(1) by (auto simp: loop_agrees_def threads_ok_def)
  have "go (g + 1) = gens_upto m (g + 1)" if "j \<in> {1..n}" "workers s j = LDone f t' g" for j f t' g
    using done_gen [OF ok run that] go unfolding loop_agrees_def by simp
  then show ?thesis using one step_transfer by metis
qed

lemma agree_run:
  assumes ok: "threads_ok n m" "board_ok b" and go: "loop_agrees b m K go" "k \<le> K"
  shows "life_run n (gens_upto m) isPr b k s \<longleftrightarrow> life_run n go isPr b k s"
proof
  assume "life_run n (gens_upto m) isPr b k s"
  then show "life_run n go isPr b k s"
    using go(2)
  proof (induction rule: life_run.induct)
    case (life_next k s t)
    then show ?case using agree_step [OF ok life_next(1) go(1)] by (auto intro: life_run.life_next)
  qed (rule life_start)
next
  assume "life_run n go isPr b k s"
  then show "life_run n (gens_upto m) isPr b k s"
    using go(2)
  proof (induction rule: life_run.induct)
    case (life_next k s t)
    have r: "life_run n (gens_upto m) isPr b k s"
      using life_next.IH life_next.prems Suc_leD by blast
    show ?case
      using agree_step [OF ok r go(1), of t] life_next(2,4) life_run.life_next [OF r]
      by (metis Suc_le_lessD)
  qed (rule life_start)
qed

text \<open>
  So a run of the program is one with a counter that does not wrap: with \<open>numberOfGenerations\<close> when
  that is less than \<open>INT_MAX\<close>, and otherwise with any number that is larger than the run is long.
\<close>

lemma program_run:
  assumes "threads_ok n N" "board_ok b" "life_run n (loop_goes_on N) isPr b k s"
    and "if int N < INT_MAX then m = N else k < m"
  shows "threads_ok n m" "life_run n (gens_upto m) isPr b k s"
    "life_step n (gens_upto m) isPr s t \<longleftrightarrow> life_step n (loop_goes_on N) isPr s t"
proof -
  show ok: "threads_ok n m" using assms(1,4) by (auto simp: threads_ok_def split: if_splits)
  have go: "loop_agrees b m (Suc k) (loop_goes_on N)"
    using assms(4) loop_agrees_exact [of N b "Suc k"] loop_agrees_endless(1) [of N "Suc k" m b]
    by (auto split: if_splits)
  show run: "life_run n (gens_upto m) isPr b k s"
    using agree_run [OF ok assms(2) go] assms(3) by simp
  show "life_step n (gens_upto m) isPr s t \<longleftrightarrow> life_step n (loop_goes_on N) isPr s t"
    using agree_step [OF ok assms(2) run go] by simp
qed

text \<open>What the program has printed, for the number of generations its run can be taken to have.\<close>

lemma program_result:
  assumes "threads_ok n N" "board_ok b" "life_run n (loop_goes_on N) isPr b k s"
    "ended s = Some (gens, M)"
  shows "\<exists>m. (int N < INT_MAX \<longrightarrow> m = N) \<and> 0 < m \<and> improper s = 0 \<and>
    snd (sequential_life m 0 b) = (gens, M) \<and>
    shown s = (if isPr then fst (sequential_life m 0 b) else [])"
proof -
  define m where "m = (if int N < INT_MAX then N else Suc k)"
  have m: "if int N < INT_MAX then m = N else k < m" by (simp add: m_def)
  note P = program_run [OF assms(1-3) m]
  have "0 < m" using P(1) by (simp add: threads_ok_def)
  then show ?thesis
    using run_prints_sequential [OF P(1) assms(2) P(2) assms(4)] m by (intro exI [of _ m]) auto
qed

section \<open>Properties\<close>


text \<open>The runs of the witnesses.\<close>

lemma small_run_transfer:
  assumes "threads_ok n N" "board_ok b" "N < 100"
  shows "life_run n (gens_upto N) isPr b k s \<longleftrightarrow> life_run n (loop_goes_on N) isPr b k s"
  using agree_run [OF assms(1,2) loop_agrees_exact [of N b k]] assms(3) by (simp add: INT_MAX_def)

lemma ex_stuck_program_run:
  assumes "threads_ok n N" "board_ok b" "N < 100"
  shows "\<exists>k s. life_run n (loop_goes_on N) isPr b k s \<and> (\<forall>t. \<not> life_step n (loop_goes_on N) isPr s t) \<and>
    ended s \<noteq> None"
proof -
  have small: "int N < INT_MAX" using assms(3) by (simp add: INT_MAX_def)
  obtain k s where run: "life_run n (gens_upto N) isPr b k s" "\<forall>t. \<not> life_step n (gens_upto N) isPr s t"
    using ex_stuck_run [OF assms(1,2)] by blast
  have run': "life_run n (loop_goes_on N) isPr b k s"
    using run(1) small_run_transfer [OF assms] by blast
  have "\<not> life_step n (loop_goes_on N) isPr s t" for t
    using run(2) program_run(3) [OF assms(1,2) run', of N t] small by simp
  then show ?thesis using run' stuck_has_ended [OF assms(1,2) run] by blast
qed


text \<open>
  C4. The passes of \<open>main\<close> over the matrices do not race with the threads: whenever a thread is
  about to update a cell, \<open>main\<close> is between its GOs and the last GENDONE of the round, so it is not
  about to print, to test or to copy a matrix; the cell is in the thread's own lines, which no
  other thread updates; and no thread ever receives a message of a type it does not expect.
\<close>

theorem board_access_exclusive:
  assumes "threads_ok n N" "board_ok b" "life_run n (loop_goes_on N) isPr b k s" "j \<in> {1..n}"
  shows "workers s j \<noteq> LFail \<and>
    (\<forall>f t gen p ps. workers s j = LUpd f t gen (p # ps) \<longrightarrow>
       parent s \<notin> {PShow, PCheck, PUpdate, PEnd} \<and> p \<in> set (region n b j) \<and>
       on_board b (fst p) (snd p) \<and>
       (\<forall>i\<in>{1..n}. i \<noteq> j \<longrightarrow> (\<forall>f' t' gen' p' ps'. workers s i = LUpd f' t' gen' (p' # ps') \<longrightarrow> p' \<noteq> p)))"
proof -
  define m where "m = (if int N < INT_MAX then N else Suc k)"
  have m: "if int N < INT_MAX then m = N else k < m" by (simp add: m_def)
  note P = program_run [OF assms(1-3) m]
  show ?thesis using access_exclusive [OF P(1) assms(2) P(2) assms(4)] .
qed

corollary board_access_exclusive_witness:
  "\<exists>s. life_run 1 (loop_goes_on 1) False (empty_board 1) 5 s \<and> workers s 1 = LUpd 0 0 1 [(0, 0)]
     \<and> parent s \<notin> {PShow, PCheck, PUpdate, PEnd}"
proof -
  obtain s where s: "life_run 1 (loop_goes_on 1) False (empty_board 1) 5 s"
    "workers s 1 = LUpd 0 0 1 [(0, 0)]"
    using updating_run small_run_transfer [OF threads_ok_small board_ok_small(2)] by force
  show ?thesis
    using board_access_exclusive [OF threads_ok_small board_ok_small(2) s(1), of 1] s by auto
qed

text \<open>
  C12. Every run of fewer than \<open>INT_MAX\<close> generations ends: no interleaving takes more steps than
  a bound that is linear in the generations, the cells and the threads. With \<open>INT_MAX\<close>, which \<open>main\<close>
  accepts, the test \<open>gen <= numberOfGenerations\<close> is never false: a run then ends, with the same
  bound, if the game itself is over with some generation, and otherwise never: the result is not
  printed, and there is always a next step.
\<close>

theorem life_terminates:
  assumes "threads_ok n N" "board_ok b" "life_run n (loop_goes_on N) isPr b k s"
  shows "(int N < INT_MAX \<longrightarrow> k \<le> run_bound n N b) \<and>
    (INT_MAX \<le> int N \<longrightarrow> (\<forall>c. over b c \<longrightarrow> k \<le> run_bound n (c + 2) b) \<and>
       ((\<forall>c. \<not> over b c) \<longrightarrow> ended s = None \<and> (\<exists>t. life_step n (loop_goes_on N) isPr s t)))"
proof (intro conjI impI allI)
  assume "int N < INT_MAX"
  then show "k \<le> run_bound n N b"
    using run_bounded [OF assms(1,2)] program_run(2) [OF assms, of N] by simp
next
  fix c assume N: "INT_MAX \<le> int N" and c: "over b c"
  have ok: "threads_ok n (c + 2)" using assms(1) by (simp add: threads_ok_def)
  show "k \<le> run_bound n (c + 2) b"
    using run_bounded [OF ok assms(2)] assms(3)
      agree_run [OF ok assms(2) loop_agrees_endless(2) [OF N c] order_refl] by blast
next
  assume N: "INT_MAX \<le> int N" and never: "\<forall>c. \<not> over b c"
  have m: "if int N < INT_MAX then Suc k = N else k < Suc k" using N by simp
  note P = program_run [OF assms m]
  have inv: "mail_inv n (Suc k) s" "output_inv n (Suc k) isPr b s"
    using life_run_inv [OF P(1) assms(2) P(2)] by (auto simp: life_inv_def)
  have n: "0 < n" using assms(1) by (simp add: threads_ok_def)
  show e: "ended s = None"
  proof (rule ccontr)
    assume "ended s \<noteq> None"
    then have "cGen s = Suc k" using over_unless_all_done [OF inv(2,1) _ n] never by blast
    then show False using run_counts [OF P(2)] by simp
  qed
  show "\<exists>t. life_step n (loop_goes_on N) isPr s t"
    using stuck_has_ended [OF P(1) assms(2) P(2)] P(3) e by blast
qed

corollary life_terminates_witness:
  "(\<exists>k s. life_run 2 (loop_goes_on 3) True blinker k s \<and> ended s \<noteq> None \<and> k \<le> 128) \<and>
   \<not> (\<exists>k s. life_run 2 (loop_goes_on (nat INT_MAX)) True blinker k s \<and> ended s \<noteq> None)"
proof (intro conjI notI)
  have ok: "threads_ok 2 3" using threads_ok_small by simp
  obtain k s where k: "life_run 2 (loop_goes_on 3) True blinker k s" "ended s \<noteq> None"
    using ex_stuck_program_run [OF ok board_ok_small(1)] by force
  have "length (region 2 blinker 1) = 3" "length (region 2 blinker 2) = 6" by code_simp+
  then have b: "run_bound 2 3 blinker \<le> 128" by (simp add: run_bound_def eval_nat_numeral)
  have "int 3 < INT_MAX" by (simp add: INT_MAX_def)
  then have "k \<le> 128" using life_terminates [OF ok board_ok_small(1) k(1)] b order_trans by blast
  then show "\<exists>k s. life_run 2 (loop_goes_on 3) True blinker k s \<and> ended s \<noteq> None \<and> k \<le> 128"
    using k by blast
next
  assume "\<exists>k s. life_run 2 (loop_goes_on (nat INT_MAX)) True blinker k s \<and> ended s \<noteq> None"
  then obtain k s where r: "life_run 2 (loop_goes_on (nat INT_MAX)) True blinker k s" "ended s \<noteq> None" by blast
  have ok: "threads_ok 2 (nat INT_MAX)" by (simp add: threads_ok_def MAXTHREAD_life_def INT_MAX_def)
  show False
    using life_terminates [OF ok board_ok_small(1) r(1)] blinker_never_over r(2) by (simp add: INT_MAX_def)
qed

text \<open>
  C11. When no step is possible any more, the result has been printed. If there are at least two threads and
  the game is over for the first time exactly at its last generation, \<open>main\<close> then waits for ever in
  \<open>pthread_join\<close>, for a thread that is blocked on sending its ALLDONE to the full mailbox of \<open>main\<close>;
  in all other cases the program has finished, all threads exited and joined. (With \<open>INT_MAX\<close>
  generations there is no last one.)
\<close>

theorem life_stuck_states:
  assumes "threads_ok n N" "board_ok b" "life_run n (loop_goes_on N) isPr b k s"
    "\<forall>t. \<not> life_step n (loop_goes_on N) isPr s t"
  shows "ended s \<noteq> None \<and>
    (if 2 \<le> n \<and> int N < INT_MAX \<and> over b (N - 1) \<and> (\<forall>c<N - 1. \<not> over b c)
     then \<exists>i\<in>{1..n}. parent s = PJoin i \<and> workers s i = LAllDone (N + 1)
     else parent s = PDone \<and> (\<forall>j\<in>{1..n}. \<exists>gen. workers s j = LExit gen))"
proof -
  define m where "m = (if int N < INT_MAX then N else if over b k \<and> (\<forall>c<k. \<not> over b c)
    then k + 2 else k + 1)"
  have m: "if int N < INT_MAX then m = N else k < m" by (simp add: m_def)
  note P = program_run [OF assms(1-3) m]
  have st: "\<forall>t. \<not> life_step n (gens_upto m) isPr s t" using assms(4) P(3) by blast
  have last: "\<not> (over b (m - 1) \<and> (\<forall>c<m - 1. \<not> over b c))" if "\<not> int N < INT_MAX"
    using that by (auto simp: m_def)
  show ?thesis
  proof (cases "int N < INT_MAX")
    case True
    then have mN: "m = N" by (simp add: m_def)
    show ?thesis using stuck_states [OF P(1) assms(2) P(2) st] True unfolding mN
      by (elim conjE) (simp only: simp_thms)
  next
    case False
    then show ?thesis using stuck_states [OF P(1) assms(2) P(2) st] last by auto
  qed
qed

corollary life_stuck_states_witness:
  "(\<exists>k s. life_run 1 (loop_goes_on 3) True blinker k s \<and>
     (\<forall>t. \<not> life_step 1 (loop_goes_on 3) True s t) \<and> parent s = PDone) \<and>
   (\<exists>k s. life_run 2 (loop_goes_on 1) False (empty_board 2) k s \<and>
     (\<forall>t. \<not> life_step 2 (loop_goes_on 1) False s t) \<and> ended s \<noteq> None \<and> parent s \<noteq> PDone)"
proof
  have ok: "threads_ok 1 3" using threads_ok_small by simp
  obtain k s where k: "life_run 1 (loop_goes_on 3) True blinker k s"
    "\<forall>t. \<not> life_step 1 (loop_goes_on 3) True s t"
    using ex_stuck_program_run [OF ok board_ok_small(1)] by force
  then show "\<exists>k s. life_run 1 (loop_goes_on 3) True blinker k s \<and>
     (\<forall>t. \<not> life_step 1 (loop_goes_on 3) True s t) \<and> parent s = PDone"
    using life_stuck_states [OF ok board_ok_small(1) k] by auto
next
  have ok: "threads_ok 2 1" "board_ok (empty_board 2)"
    using threads_ok_small board_ok_small(2) by simp_all
  obtain k s where k: "life_run 2 (loop_goes_on 1) False (empty_board 2) k s"
    "\<forall>t. \<not> life_step 2 (loop_goes_on 1) False s t"
    using ex_stuck_program_run [OF ok] by force
  have "ended s \<noteq> None \<and> parent s \<noteq> PDone"
    using life_stuck_states [OF ok k] empty_board_over by (auto simp: INT_MAX_def)
  with k show "\<exists>k s. life_run 2 (loop_goes_on 1) False (empty_board 2) k s \<and>
     (\<forall>t. \<not> life_step 2 (loop_goes_on 1) False s t) \<and> ended s \<noteq> None \<and> parent s \<noteq> PDone" by blast
qed

end
