(* ===== verification/Spec2Isabelle.thy ===== *)
theory Spec2Isabelle
  imports Calls Shell Interceptor ProcInfo SyscallTable LoadedModules UserTests Uts Reboot Prctl Usage Prio Creds Pgrp Rlimit
    Mailbox CString Addem StringScan StringThreads LifeGrid LifeInput LifeProtocol LifeCorrect
    LifeResult LifeProgress
begin

text \<open>
  The programs of an operating systems course, and the part of the Linux kernel it works on.

  \<^bold>\<open>The parts and how they interact.\<close> \<open>project1\<close> is a shell with background jobs. \<open>project2\<close> holds loadable modules that
  replace entries of the kernel's system call table, one of them by a call that describes a process.
  \<open>project3\<close> holds a parallel sum and a parallel game of life, \<open>project4\<close> a parallel search for
  strings in a file; the three start threads that talk to \<open>main\<close> through the same mailbox module.
  \<open>preproj2\<close> is the \<open>kernel/sys.c\<close> of the kernel the modules are loaded into, with three calls added.

  \<^bold>\<open>What all theories share.\<close> \<open>Prelude\<close> has the C integers and generic lemmas, \<open>CString\<close> the functions of the C
  library on strings. \<open>Calls\<close> has the locales \<open>guarded_calls\<close> and \<open>invariant_calls\<close>: what a single
  call keeps, any sequence of calls keeps; each group of system calls interprets them on its own calls.
  All integers have the width of the i686 (\<open>int\<close> and \<open>long\<close> of 32 bits), as words in the kernel and
  the modules, as \<open>int\<close> with \<open>wrap32\<close> in \<open>project3\<close> and \<open>project4\<close>.

  \<^bold>\<open>Projects 3 and 4.\<close>
  \<^item> \<open>Mailbox\<close>: \<open>sendMsg\<close>, \<open>recvMsg\<close> and their semaphores, as calls (locale \<open>channel\<close>) and operation by
    operation (\<open>mb_step\<close>). Every interleaving of the operations is one of atomic puts and gets on one-place
    boxes, first in first out; the programs below use the calls as single steps for that reason.
    \<open>start_threads\<close> has the calls that make the semaphores and the threads, each of which may fail.
  \<^item> \<open>Addem\<close> (\<open>addem.cpp\<close>): arguments and start (\<open>addem_main\<close>), ranges, the loop of \<open>sumthread\<close> with wrap-around, and
    \<open>addem_step\<close>, \<open>main\<close> with its threads under any scheduling. The result is the sum, every
    run ends, and \<open>INT_MAX\<close> is the one maximum with which nothing is printed. The loop is a
    \<open>partial_function (option)\<close>: \<open>None\<close> is a loop that does not end.
  \<^item> \<open>LifeGrid\<close>, \<open>LifeInput\<close>, \<open>LifeProtocol\<close> (\<open>life.cpp\<close>): the matrices with \<open>getNumberOfNeighbors\<close> as it
    reads memory; the file, the arguments and the start (\<open>life_main\<close>); \<open>main\<close> and \<open>linesthread\<close> with messages, barrier and
    joins as \<open>life_step\<close>. \<open>LifeCorrect\<close>, \<open>LifeResult\<close> and \<open>LifeProgress\<close> hold the invariant in three layers
    (messages, barrier, boards) and what follows: the threads print what a sequential game prints,
    which on a board with a dead border is Conway's; \<open>main\<close> and the threads do not race;
    the one deadlock is a game first over exactly at its last generation. The step relation is
    parametrised by the test of the loop over the generations: the program's is \<open>loop_goes_on\<close>, on an
    \<open>int\<close> that wraps; the invariants are proved for a counter that does not, and the runs are carried over
    (\<open>agree_run\<close>, \<open>program_run\<close>). Every run ends, but for \<open>INT_MAX\<close> generations, which end only if
    the game does.
  \<^item> \<open>StringScan\<close>, \<open>StringThreads\<close> (\<open>proj4.cpp\<close>): the two sequential readers, for any buffer size; the
    ranges, the threads and the merge of their answers; \<open>mmap_read\<close> and \<open>proj4_main\<close> relate what can be
    answered to the runs of the threads. The threaded reader is deterministic, ends, and \<open>main\<close> prints with it
    what it prints without threads under the condition \<open>mergeable\<close> on the ranges; else it may not.

  \<^bold>\<open>Project 1\<close> is \<open>Shell\<close> (\<open>doit.cpp\<close>, \<open>doit_processes.cpp\<close>): parsing into the five slots of \<open>argvNew\<close>, the built-in
  commands, and \<open>shell_step\<close>, the loop of \<open>shellMode\<close> with the table of its children. \<open>HOME\<close> may be unset. A line that overruns the
  slots, a line that makes \<open>at\<close> throw and a failed \<open>fork\<close> are phases of their own. A \<open>double\<close> is a real number. The jobs started are
  those listed and those reported; a job that \<open>wait(0)\<close> has taken makes \<open>exit\<close> wait for ever.

  \<^bold>\<open>Project 2.\<close> \<open>SyscallTable\<close> has the numbers of \<open>unistd_32.h\<close> and the entries of \<open>syscall_table_32.S\<close>, which agree,
  and what it means that the table lies in memory. \<open>Interceptor\<close> models the search for the table, loading and unloading, which \<open>openclose.c\<close>,
  \<open>module.c\<close> and \<open>intercept.c\<close> have in common up to the entries they replace (\<open>openclose_hooks\<close>, \<open>hello_hooks\<close>,
  \<open>intercept_hooks\<close>), over a memory with read-only pages; an access outside it is an oops, also that of \<open>printk\<close> through the name the caller of \<open>open\<close> passes; an endless search is
  \<open>None\<close>. \<open>ProcInfo\<close> is \<open>new_sys_cs3013_syscall2\<close> over the kernel's circular lists. \<open>LoadedModules\<close> has two modules
  loaded together, the calls of the kernel they replace, reached through the table, \<open>proj2test.c\<close> and \<open>hello.c\<close>.
  \<open>UserTests\<close> has \<open>test.c\<close> and \<open>testnull.c\<close>: three processes that fork, call and wait (\<open>test_step\<close>), and what
  they print of the call when the kernel shows it the tree of the processes (\<open>shows_tree\<close>). Where \<open>waitpid\<close>
  is given \<open>status\<close> for its address, the process goes on with changed variables or is killed (\<open>overwritten\<close>).

  \<^bold>\<open>The kernel\<close>, \<open>sys.c\<close>. \<open>Creds\<close>: the ids of a process, which unprivileged calls cannot extend.
  \<open>Pgrp\<close>: process groups stay within sessions. \<open>Rlimit\<close>: soft limits stay below hard ones, and what is set
  is read back through either width. \<open>Prio\<close>: who is given which nice value. \<open>Reboot\<close>: no stop without a shutdown in
  order; here calls run at the same time, step by step (\<open>callers_step\<close>), because \<open>deferred_cad\<close> and \<open>orderly_poweroff\<close>
  do not take the mutex of \<open>reboot\<close>. \<open>Uts\<close>: the system names, copied within the user's structures. \<open>Prctl\<close>: the attributes of a
  process. \<open>Usage\<close>: \<open>getrusage\<close>, \<open>times\<close>, \<open>umask\<close>, \<open>getcpu\<close>. But for \<open>Reboot\<close>, a call is one step, as its locks make
  it; a call that fails returns the negated number of the error, as in C.

  \<^bold>\<open>Fuel and bounds.\<close> No definition takes fuel. Loops that end are structural recursions over the lists they go through;
  those that may not are \<open>partial_function (option)\<close>, and that they return is proved where it is claimed.
  Termination of the step relations is proved with explicit bounds on the length of a run.

  \<^bold>\<open>Parameters.\<close> Answers of code outside the repository: capability tests, security hooks, \<open>prepare_creds\<close>,
  \<open>can_nice\<close>, the functions the modules call through the table, the files of \<open>project3\<close> and \<open>project4\<close>, the calls that
  start semaphores and threads, \<open>chdir\<close> of the shell, the memory of a caller, the kernel's lists of processes. A property that needs something of them states it as a hypothesis, and its witness
  gives concrete answers.

  \<^bold>\<open>Not modelled.\<close> The scripts and recorded outputs; \<open>cond_syscall\<close> at the end of \<open>unistd_32.h\<close>; in \<open>sys.c\<close> kexec and hibernation, the registration of notifiers, reference counts
  and locks; in \<open>project3\<close> the pause at \<open>cin.get()\<close>; in \<open>test.c\<close> a failing \<open>malloc\<close>; what the argumentless call of
  \<open>proj2test.c\<close> writes to its caller.
\<close>

section \<open>Properties across components\<close>

lemma life_main_threads_ok:
  assumes "life_main E files argv = Inr (Inr st)"
  shows "threads_ok (nat (set_threads st)) (nat (set_generations st))"
    "1 \<le> set_generations st" "set_generations st \<le> INT_MAX"
  using life_args_InrD [of files argv st] assms by (auto simp: threads_ok_def life_main_started)

lemma dead_border_board_ok: "dead_border b \<Longrightarrow> board_ok b"
  by (simp add: dead_border_def board_ok_def)

lemma picture_nth:
  assumes "on_board b i j"
  shows "picture b M ! nat i ! nat j = cell M i j"
  using assms by (simp add: picture_def printMatrix_def on_board_def nth_map nat_less_iff)

text \<open>
  C1. The whole of \<open>life\<close>: started with accepted arguments on a board with a dead border, with
  any number of threads and any scheduling, the program prints, when it prints its result, a number
  of generations between one and the number asked for, and a matrix whose non-zero entries are
  the cells alive after that many steps of Conway's game from the cells of the file. Only when
  \<open>INT_MAX\<close> generations are asked for, where the threads go on until the game is over, the number of
  steps may be larger, and what is printed is its value as an \<open>int\<close>.
\<close>

theorem life_prints_conway:
  assumes "life_main E files argv = Inr (Inr st)" "dead_border (set_board st)"
    and "life_run (nat (set_threads st)) (loop_goes_on (nat (set_generations st))) (isPrint st)
      (set_board st) k s"
    and "ended s = Some (gens, M)"
  shows "\<exists>g. gens = wrap32 (int g) \<and> 1 \<le> g \<and>
    (set_generations st < INT_MAX \<longrightarrow> gens = int g \<and> int g \<le> set_generations st) \<and>
    (\<forall>i j. on_board (set_board st) i j \<longrightarrow>
       (M ! nat i ! nat j \<noteq> 0 \<longleftrightarrow>
        (i, j) \<in> (life (lineSize (set_board st)) (columnSize (set_board st)) ^^ g)
          (live_cells (set_board st))))"
proof -
  let ?b = "set_board st" and ?N = "nat (set_generations st)"
  note ok = life_main_threads_ok [OF assms(1)]
  have b: "board_ok ?b" using dead_border_board_ok [OF assms(2)] .
  obtain N where N: "int ?N < INT_MAX \<longrightarrow> N = ?N" "0 < N" "snd (sequential_life N 0 ?b) = (gens, M)"
    using program_result [OF ok(1) b assms(3,4)] by blast
  obtain g where g: "1 \<le> g" "g \<le> N"
    "snd (sequential_life N 0 ?b) = (wrap32 (int g), picture ?b (before (bseq ?b g)))"
    using sequential_result [OF _ N(2), of ?b] b by (auto simp: board_ok_def)
  have res: "gens = wrap32 (int g)" "M = picture ?b (before (bseq ?b g))" using g(3) N(3) by auto
  have "M ! nat i ! nat j \<noteq> 0 \<longleftrightarrow>
      (i, j) \<in> (life (lineSize ?b) (columnSize ?b) ^^ g) (live_cells ?b)"
    if on: "on_board ?b i j" for i j
  proof -
    have "on_board (bseq ?b g) i j" using on by (simp add: on_board_def)
    then have "(i, j) \<in> live_cells (bseq ?b g) \<longleftrightarrow> M ! nat i ! nat j \<noteq> 0"
      using picture_nth [OF on] res by (simp add: live_cells_def alive_def)
    then show ?thesis using bseq_life [OF assms(2), of g] by simp
  qed
  moreover have "gens = int g \<and> int g \<le> set_generations st" if "set_generations st < INT_MAX"
    using that N(1) g(2) ok(2) res(1) by (simp add: wrap32_nat)
  ultimately show ?thesis using g(1) res(1) by blast
qed

text \<open>A disk with one file, and a command line for it.\<close>

definition blinker_file :: string where
  "blinker_file = file_of [''0 0 0'', ''1 1 1'', ''0 0 0''] []"

definition demo_startup :: life_startup where
  "demo_startup = \<lparr>boxes_start = all_starts, gendone_init = True, alldone_init = True\<rparr>"

definition demo_args :: "string list" where
  "demo_args = [''life'', ''2'', ''f'', ''3'', ''y'']"

corollary life_prints_conway_witness:
  "\<exists>st k s g M. life_main demo_startup (\<lambda>_. Some blinker_file) demo_args = Inr (Inr st) \<and>
     life_run 2 (loop_goes_on 3) True (set_board st) k s \<and> ended s = Some (int g, M) \<and> g \<le> 3 \<and>
     (M ! 1 ! 1 \<noteq> 0 \<longleftrightarrow> (1, 1) \<in> (life 3 3 ^^ g) (live_cells (set_board st)))"
proof -
  have rows: "row_of ''0 0 0'' = [0, 0, 0]" "row_of ''1 1 1'' = [1, 1, 1]"
    "atoi ''2'' = 2" "atoi ''3'' = 3" "first_char ''y'' = CHR ''y''" by code_simp+
  obtain b where b: "read_board (Some blinker_file) = Inr b" "dead_border b" "lineSize b = 3"
    "columnSize b = 3"
    using read_newline_file [of "[''0 0 0'', ''1 1 1'', ''0 0 0'']"]
    by (auto simp: rows blinker_file_def MAXGRID_def newline_def width_def)
  define st where "st = \<lparr>set_threads = 2, set_generations = 3, isPrint = True, isInput = False,
    set_board = b\<rparr>"
  have st: "life_main demo_startup (\<lambda>_. Some blinker_file) demo_args = Inr (Inr st)"
    using b by (simp add: life_main_started life_start_def demo_startup_def life_args_def demo_args_def
        st_def Let_def rows MAXTHREAD_life_def)
  have ok: "threads_ok 2 3" "board_ok b"
    using threads_ok_small dead_border_board_ok [OF b(2)] by simp_all
  obtain k s where run: "life_run 2 (loop_goes_on 3) True b k s" "ended s \<noteq> None"
    using ex_stuck_program_run [OF ok] by force
  then obtain gens M where e: "ended s = Some (gens, M)" by force
  obtain g where g: "set_generations st < INT_MAX \<longrightarrow> gens = int g \<and> int g \<le> set_generations st"
    "\<forall>i j. on_board (set_board st) i j \<longrightarrow> (M ! nat i ! nat j \<noteq> 0 \<longleftrightarrow>
      (i, j) \<in> (life (lineSize (set_board st)) (columnSize (set_board st)) ^^ g)
        (live_cells (set_board st)))"
    using life_prints_conway [OF st _ _ e, of k] b(2) run(1) by (auto simp: st_def)
  have "on_board (set_board st) 1 1" using b(3,4) by (simp add: st_def on_board_def)
  then have "M ! nat 1 ! nat 1 \<noteq> 0 \<longleftrightarrow> (1, 1) \<in> (life 3 3 ^^ g) (live_cells (set_board st))"
    using g(2) [rule_format, of 1 1] b(3,4) by (simp add: st_def)
  moreover have "gens = int g" "g \<le> 3" using g(1) by (simp_all add: st_def INT_MAX_def)
  ultimately show ?thesis using st run(1) e by (intro exI [of _ st]) (auto simp: st_def)
qed

end
